(* ===== verification/Prelude.thy ===== *)
theory Prelude
  imports Main "HOL-Library.Word"
begin

text \<open>
  Shared vocabulary of the development.  Go's fixed-width integers are words, byte slices are
  lists of bytes, and a Go function that returns \<open>(value, error)\<close> or may panic is a HOL function
  into the type \<open>outcome\<close>: \<open>Return\<close> for the value with a nil error, \<open>Fail\<close> for a non-nil error and
  \<open>Panic\<close> for a run-time panic (index out of range, division by zero, an explicit \<open>panic\<close>).
  Slice reads are written with \<open>go_index\<close> and \<open>go_slice\<close>, which panic out of range, so that
  "never panics" is a property to prove.  Offsets and lengths of Go type \<open>int\<close> that are never
  negative are natural numbers: they are bounded by the length of a slice, far below the
  64-bit limit of \<open>int\<close>.

  The theory also states the interface every fixed-layout wire codec of the library offers, the
  locale \<open>codec\<close>, and its extension \<open>skip_codec\<close> for codecs with a skip operation.
\<close>

unbundle bit_operations_syntax

type_synonym byte = "8 word"
type_synonym u8 = "8 word"
type_synonym u16 = "16 word"
type_synonym u32 = "32 word"
type_synonym u64 = "64 word"
type_synonym bytes = "byte list"

named_theorems go_simps \<open>evaluation of Go results and slice operations\<close>
named_theorems wire_simps \<open>lengths and layout of wire encodings\<close>

text \<open>Offsets stay sums: \<open>off + 2\<close> is not rewritten to successors.\<close>

declare add_2_eq_Suc [simp del] add_2_eq_Suc' [simp del]

section \<open>Results of Go functions\<close>

datatype ('e, 'a) outcome = Return (the_return: 'a) | Fail (the_error: 'e) | Panic

fun bind_outcome :: "('e, 'a) outcome \<Rightarrow> ('a \<Rightarrow> ('e, 'b) outcome) \<Rightarrow> ('e, 'b) outcome" where
  "bind_outcome (Return a) f = f a"
| "bind_outcome (Fail e) f = Fail e"
| "bind_outcome Panic f = Panic"

text \<open>\<open>map_error\<close> is the idiom \<open>if err != nil { return wrap(err) }\<close>.\<close>

fun map_error :: "('e \<Rightarrow> 'f) \<Rightarrow> ('e, 'a) outcome \<Rightarrow> ('f, 'a) outcome" where
  "map_error w (Return a) = Return a"
| "map_error w (Fail e) = Fail (w e)"
| "map_error w Panic = Panic"

lemma bind_outcome_Return_iff [simp]:
  "bind_outcome r f = Return b \<longleftrightarrow> (\<exists>a. r = Return a \<and> f a = Return b)"
  by (cases r) auto

lemma bind_outcome_Panic_iff [simp]:
  "bind_outcome r f = Panic \<longleftrightarrow> r = Panic \<or> (\<exists>a. r = Return a \<and> f a = Panic)"
  by (cases r) auto

lemma bind_outcome_Fail_iff [simp]:
  "bind_outcome r f = Fail e \<longleftrightarrow> r = Fail e \<or> (\<exists>a. r = Return a \<and> f a = Fail e)"
  by (cases r) auto

lemma map_error_Return_iff [simp]: "map_error w r = Return a \<longleftrightarrow> r = Return a"
  by (cases r) auto

lemma map_error_Panic_iff [simp]: "map_error w r = Panic \<longleftrightarrow> r = Panic"
  by (cases r) auto

lemma map_error_Fail_iff [simp]: "map_error w r = Fail e \<longleftrightarrow> (\<exists>e'. r = Fail e' \<and> e = w e')"
  by (cases r) auto

lemma bind_outcome_cong [fundef_cong]:
  "r = r' \<Longrightarrow> (\<And>a. r' = Return a \<Longrightarrow> f a = f' a) \<Longrightarrow> bind_outcome r f = bind_outcome r' f'"
  by (cases r') auto

section \<open>Slices\<close>

definition go_index :: "'a list \<Rightarrow> nat \<Rightarrow> ('e, 'a) outcome" where
  "go_index xs i = (if i < length xs then Return (xs ! i) else Panic)"

definition go_slice :: "'a list \<Rightarrow> nat \<Rightarrow> nat \<Rightarrow> ('e, 'a list) outcome" where
  "go_slice xs lo hi =
     (if lo \<le> hi \<and> hi \<le> length xs then Return (take (hi - lo) (drop lo xs)) else Panic)"

text \<open>\<open>xs[i] = v\<close> on a Go array or slice.\<close>

definition go_update :: "'a list \<Rightarrow> nat \<Rightarrow> 'a \<Rightarrow> ('e, 'a list) outcome" where
  "go_update xs i v = (if i < length xs then Return (xs[i := v]) else Panic)"

lemma go_index_in [simp, go_simps]: "i < length xs \<Longrightarrow> go_index xs i = Return (xs ! i)"
  by (simp add: go_index_def)

lemma go_index_Return_iff [simp]: "go_index xs i = Return x \<longleftrightarrow> i < length xs \<and> x = xs ! i"
  by (auto simp: go_index_def)

lemma go_index_Panic_iff [simp]: "go_index xs i = Panic \<longleftrightarrow> length xs \<le> i"
  by (auto simp: go_index_def)

lemma go_index_not_Fail [simp]: "go_index xs i \<noteq> Fail e"
  by (simp add: go_index_def)

lemma go_slice_in [simp, go_simps]:
  "lo \<le> hi \<Longrightarrow> hi \<le> length xs \<Longrightarrow> go_slice xs lo hi = Return (take (hi - lo) (drop lo xs))"
  by (simp add: go_slice_def)

lemma go_slice_Return_iff [simp]:
  "go_slice xs lo hi = Return ys \<longleftrightarrow>
     lo \<le> hi \<and> hi \<le> length xs \<and> ys = take (hi - lo) (drop lo xs)"
  by (auto simp: go_slice_def)

lemma go_slice_Panic_iff [simp]: "go_slice xs lo hi = Panic \<longleftrightarrow> \<not> (lo \<le> hi \<and> hi \<le> length xs)"
  by (auto simp: go_slice_def)

lemma go_slice_not_Fail [simp]: "go_slice xs lo hi \<noteq> Fail e"
  by (simp add: go_slice_def)

lemma go_update_in [simp, go_simps]: "i < length xs \<Longrightarrow> go_update xs i v = Return (xs[i := v])"
  by (simp add: go_update_def)

lemma go_update_Return_iff [simp]:
  "go_update xs i v = Return ys \<longleftrightarrow> i < length xs \<and> ys = xs[i := v]"
  by (auto simp: go_update_def)

lemma go_update_Panic_iff [simp]: "go_update xs i v = Panic \<longleftrightarrow> length xs \<le> i"
  by (auto simp: go_update_def)

lemma go_update_not_Fail [simp]: "go_update xs i v \<noteq> Fail e"
  by (simp add: go_update_def)

section \<open>Methods that change their receiver\<close>

text \<open>A Go method that returns a value and an error and mutates a state is a function from the state
  to an outcome and the new state.  The state is returned on the error paths too: what a failed
  call has already changed stays changed.\<close>

type_synonym ('s, 'e, 'a) meth = "'s \<Rightarrow> ('e, 'a) outcome \<times> 's"

fun bind_meth :: "('s, 'e, 'a) meth \<Rightarrow> ('a \<Rightarrow> ('s, 'e, 'b) meth) \<Rightarrow> ('s, 'e, 'b) meth" where
  "bind_meth m f s = (case m s of
     (Return a, s') \<Rightarrow> f a s'
   | (Fail e, s') \<Rightarrow> (Fail e, s')
   | (Panic, s') \<Rightarrow> (Panic, s'))"

definition wrap_meth :: "('e \<Rightarrow> 'f) \<Rightarrow> ('s, 'e, 'a) meth \<Rightarrow> ('s, 'f, 'a) meth" where
  "wrap_meth w m s = (case m s of (r, s') \<Rightarrow> (map_error w r, s'))"

definition lift_meth :: "('e, 'a) outcome \<Rightarrow> ('s, 'e, 'a) meth" where
  "lift_meth r s = (r, s)"

declare bind_meth.simps [simp del]

lemma bind_meth_simps [simp, go_simps]:
  "m s = (Return a, s') \<Longrightarrow> bind_meth m f s = f a s'"
  "m s = (Fail e, s') \<Longrightarrow> bind_meth m f s = (Fail e, s')"
  "m s = (Panic, s') \<Longrightarrow> bind_meth m f s = (Panic, s')"
  by (simp_all add: bind_meth.simps)

lemma bind_meth_Return_iff:
  "bind_meth m f s = (Return b, t) \<longleftrightarrow>
     (\<exists>a s'. m s = (Return a, s') \<and> f a s' = (Return b, t))"
  by (auto simp: bind_meth.simps split: prod.splits outcome.splits)

lemma bind_meth_Panic_iff:
  "fst (bind_meth m f s) = Panic \<longleftrightarrow>
     fst (m s) = Panic \<or> (\<exists>a s'. m s = (Return a, s') \<and> fst (f a s') = Panic)"
  by (auto simp: bind_meth.simps split: prod.splits outcome.splits)

lemma wrap_meth_Return_iff [simp]:
  "wrap_meth w m s = (Return a, t) \<longleftrightarrow> m s = (Return a, t)"
  by (auto simp: wrap_meth_def split: prod.splits)

lemma wrap_meth_Panic_iff [simp]: "fst (wrap_meth w m s) = Panic \<longleftrightarrow> fst (m s) = Panic"
  by (auto simp: wrap_meth_def split: prod.splits)

lemma lift_meth_Return_iff [simp]: "lift_meth r s = (Return a, t) \<longleftrightarrow> r = Return a \<and> t = s"
  by (auto simp: lift_meth_def)

lemma lift_meth_Panic_iff [simp]: "fst (lift_meth r s) = Panic \<longleftrightarrow> r = Panic"
  by (simp add: lift_meth_def)

section \<open>Wire formats\<close>

text \<open>\<open>found_at msg off bs\<close>: the bytes \<open>bs\<close> are in \<open>msg\<close> at offset \<open>off\<close>.\<close>

definition found_at :: "'a list \<Rightarrow> nat \<Rightarrow> 'a list \<Rightarrow> bool" where
  "found_at msg off bs \<longleftrightarrow> off + length bs \<le> length msg \<and> take (length bs) (drop off msg) = bs"

lemma found_at_bound: "found_at msg off bs \<Longrightarrow> off + length bs \<le> length msg"
  by (simp add: found_at_def)

lemma found_at_takeD: "found_at msg off bs \<Longrightarrow> take (length bs) (drop off msg) = bs"
  by (simp add: found_at_def)

lemma found_at_take: "off + n \<le> length msg \<Longrightarrow> found_at msg off (take n (drop off msg))"
  by (simp add: found_at_def)

lemma found_at_Nil [simp]: "found_at msg off [] \<longleftrightarrow> off \<le> length msg"
  by (simp add: found_at_def)

lemma found_at_append [wire_simps]:
  "found_at msg off (xs @ ys) \<longleftrightarrow> found_at msg off xs \<and> found_at msg (off + length xs) ys"
proof -
  have "take (length xs + length ys) (drop off msg) =
      take (length xs) (drop off msg) @ take (length ys) (drop (off + length xs) msg)"
    by (simp add: take_add add.commute)
  moreover have "length (take (length xs) (drop off msg)) = length xs"
    if "off + length xs \<le> length msg" using that by simp
  ultimately show ?thesis
    by (auto simp: found_at_def add.assoc append_eq_append_conv simp del: length_take)
qed

lemma found_at_Cons [wire_simps]:
  "found_at msg off (x # xs) \<longleftrightarrow> off < length msg \<and> msg ! off = x \<and> found_at msg (Suc off) xs"
proof -
  have "found_at msg off [x] \<longleftrightarrow> off < length msg \<and> msg ! off = x"
    by (cases "off < length msg") (auto simp: found_at_def take_Suc_conv_app_nth hd_drop_conv_nth take_Suc)
  then show ?thesis using found_at_append [of msg off "[x]" xs] by simp
qed

lemma found_at_middle [simp]: "found_at (pre @ bs @ post) (length pre) bs"
  by (simp add: found_at_def)

lemma found_at_end [simp]: "found_at (pre @ bs) (length pre) bs"
  by (simp add: found_at_def)

lemma found_at_extend: "found_at msg off bs \<Longrightarrow> found_at (msg @ post) off bs"
  by (simp add: found_at_def)

lemma found_at_unique: "found_at msg off xs \<Longrightarrow> found_at msg off ys \<Longrightarrow> length xs = length ys \<Longrightarrow> xs = ys"
  by (simp add: found_at_def)

text \<open>A codec for values of one type: \<open>pack\<close> appends to a message, \<open>unpack\<close> reads at an offset and
  returns the value and the offset behind it, \<open>wire\<close> is the layout the two agree on.\<close>

locale codec =
  fixes wire :: "'a \<Rightarrow> bytes"
    and packable :: "'a \<Rightarrow> bool"
    and pack :: "bytes \<Rightarrow> 'a \<Rightarrow> ('e, bytes) outcome"
    and unpack :: "bytes \<Rightarrow> nat \<Rightarrow> ('e, 'a \<times> nat) outcome"
  assumes pack_wire: "pack msg a = Return msg' \<longleftrightarrow> packable a \<and> msg' = msg @ wire a"
    and unpack_wire: "\<lbrakk>packable a; found_at msg off (wire a)\<rbrakk> \<Longrightarrow>
      unpack msg off = Return (a, off + length (wire a))"
    and unpack_sound: "unpack msg off = Return (a, off') \<Longrightarrow>
      packable a \<and> found_at msg off (wire a) \<and> off' = off + length (wire a)"
    and unpack_no_panic: "unpack msg off \<noteq> Panic"
begin

lemma unpack_iff:
  "unpack msg off = Return (a, off') \<longleftrightarrow>
     packable a \<and> found_at msg off (wire a) \<and> off' = off + length (wire a)"
  using unpack_wire unpack_sound by blast

lemma round_trip:
  "pack msg a = Return msg' \<Longrightarrow> unpack (msg' @ post) (length msg) = Return (a, length msg')"
  by (auto simp: pack_wire unpack_iff)

lemma unpack_bounds: "unpack msg off = Return (a, off') \<Longrightarrow> off \<le> off' \<and> off' \<le> length msg"
  by (auto simp: unpack_iff dest: found_at_bound)

lemma unpack_extend: "unpack msg off = Return r \<Longrightarrow> unpack (msg @ post) off = Return r"
  by (cases r) (auto simp: unpack_iff found_at_extend)

lemma wire_inj: "\<lbrakk>packable a; packable b; wire a = wire b\<rbrakk> \<Longrightarrow> a = b"
  using unpack_wire [of a "wire a" 0] unpack_wire [of b "wire a" 0] by (simp add: found_at_def)

end

locale skip_codec = codec wire packable pack unpack
  for wire :: "'a \<Rightarrow> bytes" and packable :: "'a \<Rightarrow> bool"
    and pack :: "bytes \<Rightarrow> 'a \<Rightarrow> ('e, bytes) outcome"
    and unpack :: "bytes \<Rightarrow> nat \<Rightarrow> ('e, 'a \<times> nat) outcome" +
  fixes skip :: "bytes \<Rightarrow> nat \<Rightarrow> ('e, nat) outcome"
  assumes skip_unpack: "skip msg off = Return off' \<longleftrightarrow> (\<exists>a. unpack msg off = Return (a, off'))"
begin

lemma skip_packed: "pack msg a = Return msg' \<Longrightarrow> skip (msg' @ post) (length msg) = Return (length msg')"
  using round_trip skip_unpack by blast

end

section \<open>Strings and bytes\<close>

text \<open>\<open>string(b)\<close> and \<open>[]byte(s)\<close>.\<close>

definition text_of :: "bytes \<Rightarrow> string" where
  "text_of bs = map (\<lambda>b. char_of (unat b)) bs"

definition bytes_of :: "string \<Rightarrow> bytes" where
  "bytes_of s = map (\<lambda>c. of_nat (of_char c)) s"

lemma byte_unat_less: "unat (b :: byte) < 256"
  using unsigned_less [of b] by simp

lemma text_of_simps [simp]: "text_of [] = []" "text_of (b # bs) = char_of (unat b) # text_of bs"
  "text_of (xs @ ys) = text_of xs @ text_of ys"
  by (simp_all add: text_of_def)

lemma bytes_of_text_of [simp]: "bytes_of (text_of bs) = bs"
proof -
  have "of_nat (of_char (char_of (unat b) :: char)) = b" for b :: u8
  proof -
    have "unat b < 256" by (rule byte_unat_less)
    then show ?thesis by (simp add: of_char_of)
  qed
  then show ?thesis by (induction bs) (simp_all add: bytes_of_def text_of_def del: of_char_of)
qed

section \<open>encoding/binary\<close>

text \<open>\<open>binary.BigEndian.Uint16\<close> and \<open>Uint32\<close>; both check the last index first.\<close>

definition BigEndian_Uint16 :: "bytes \<Rightarrow> ('e, u16) outcome" where
  "BigEndian_Uint16 b =
     bind_outcome (go_index b 1) (\<lambda>b1. bind_outcome (go_index b 0) (\<lambda>b0.
     Return (ucast b1 OR push_bit 8 (ucast b0))))"

definition BigEndian_Uint32 :: "bytes \<Rightarrow> ('e, u32) outcome" where
  "BigEndian_Uint32 b =
     bind_outcome (go_index b 3) (\<lambda>b3. bind_outcome (go_index b 2) (\<lambda>b2.
     bind_outcome (go_index b 1) (\<lambda>b1. bind_outcome (go_index b 0) (\<lambda>b0.
     Return (ucast b3 OR push_bit 8 (ucast b2) OR push_bit 16 (ucast b1) OR push_bit 24 (ucast b0))))))"

lemma BigEndian_Uint16_Return [simp]:
  "2 \<le> length b \<Longrightarrow> BigEndian_Uint16 b = Return (ucast (b ! 1) OR push_bit 8 (ucast (b ! 0)))"
  by (auto simp: BigEndian_Uint16_def go_index_def)

lemma BigEndian_Uint32_Return [simp]:
  "4 \<le> length b \<Longrightarrow> BigEndian_Uint32 b =
     Return (ucast (b ! 3) OR push_bit 8 (ucast (b ! 2)) OR push_bit 16 (ucast (b ! 1)) OR
       push_bit 24 (ucast (b ! 0)))"
  by (auto simp: BigEndian_Uint32_def go_index_def)

text \<open>The bytes of an integer, most significant first.\<close>

definition wire16 :: "u16 \<Rightarrow> bytes" where
  "wire16 v = [ucast (drop_bit 8 v), ucast v]"

definition wire32 :: "u32 \<Rightarrow> bytes" where
  "wire32 v = [ucast (drop_bit 24 v), ucast (drop_bit 16 v), ucast (drop_bit 8 v), ucast v]"

lemma length_wire16 [simp]: "length (wire16 v) = 2"
  by (simp add: wire16_def)

lemma length_wire32 [simp]: "length (wire32 v) = 4"
  by (simp add: wire32_def)

lemma byte_bit: "bit (b :: byte) n \<Longrightarrow> n < 8"
  using bit_imp_le_length by fastforce

lemma join16: "push_bit 8 (ucast (ucast (drop_bit 8 v) :: 8 word)) OR ucast (ucast v :: 8 word) = (v :: 16 word)"
  by (rule bit_word_eqI) (auto simp: bit_simps not_le)

lemma wire16_join [simp]: "wire16 (push_bit 8 (ucast a) OR ucast b) = [a, b]"
  unfolding wire16_def list.inject
  by (intro conjI bit_word_eqI) (auto simp: bit_simps dest: byte_bit)

lemma join32:
  "push_bit 24 (ucast (ucast (drop_bit 24 v) :: 8 word)) OR push_bit 16 (ucast (ucast (drop_bit 16 v) :: 8 word))
    OR push_bit 8 (ucast (ucast (drop_bit 8 v) :: 8 word)) OR ucast (ucast v :: 8 word) = (v :: 32 word)"
proof (rule bit_word_eqI)
  fix n :: nat
  assume "n < LENGTH(32)"
  then consider "n < 8" | "8 \<le> n" "n < 16" | "16 \<le> n" "n < 24" | "24 \<le> n" "n < 32" by fastforce
  then show "bit (push_bit 24 (ucast (ucast (drop_bit 24 v) :: 8 word)) OR push_bit 16 (ucast (ucast (drop_bit 16 v) :: 8 word))
    OR push_bit 8 (ucast (ucast (drop_bit 8 v) :: 8 word)) OR ucast (ucast v :: 8 word) :: 32 word) n = bit v n"
    by cases (auto simp: bit_simps)
qed

lemma wire32_join [simp]:
  "wire32 (push_bit 24 (ucast a) OR push_bit 16 (ucast b) OR push_bit 8 (ucast c) OR ucast d) = [a, b, c, d]"
  unfolding wire32_def list.inject
  by (intro conjI bit_word_eqI) (auto simp: bit_simps dest: byte_bit)

lemma BigEndian_wire [simp]: "BigEndian_Uint16 (wire16 u) = Return u" "BigEndian_Uint32 (wire32 v) = Return v"
  using join16 [of u] join32 [of v] by (simp_all add: wire16_def wire32_def ac_simps)

section \<open>fmt: decimal and hexadecimal verbs\<close>

text \<open>\<open>%d\<close> of an unsigned and of a signed integer, and \<open>%#v\<close> of an unsigned one.\<close>

definition digit_char :: "nat \<Rightarrow> char" where
  "digit_char d = (if d < 10 then char_of (48 + d) else char_of (87 + d))"

fun print_base :: "nat \<Rightarrow> nat \<Rightarrow> string" where
  "print_base b n =
     (if n < b \<or> b < 2 then [digit_char n] else print_base b (n div b) @ [digit_char (n mod b)])"

definition dec :: "nat \<Rightarrow> string" where
  "dec n = print_base 10 n"

definition dec_int :: "int \<Rightarrow> string" where
  "dec_int i = (if i < 0 then CHR ''-'' # dec (nat (- i)) else dec (nat i))"

definition hex_v :: "nat \<Rightarrow> string" where
  "hex_v n = ''0x'' @ print_base 16 n"

declare print_base.simps [simp del]

section \<open>Words\<close>

lemma unat_eqD: "unat x = n \<Longrightarrow> x = of_nat n"
  by auto

lemma and_le_nat: "unat (w AND m) \<le> unat (m :: 'a::len word)"
  by (rule word_and_le1 [THEN word_le_nat_alt [THEN iffD1]])

section \<open>Lists\<close>

lemma nth_middle_append [simp]:
  "i < length xs \<Longrightarrow> (pre @ xs @ post) ! (length pre + i) = xs ! i"
  by (simp add: nth_append)

end
