(* ===== verification/BPF_Instr.thy ===== *)
theory BPF_Instr
  imports Prelude
begin

text \<open>
  The BPF instruction set of \<open>src/bpf\<close>: the bit patterns of \<open>constants.go\<close>, the instruction types of
  \<open>instructions.go\<close> with their \<open>Assemble\<close> methods, \<open>RawInstruction.Disassemble\<close>, and the
  program-level \<open>Assemble\<close> and \<open>Disassemble\<close> of \<open>asm.go\<close>.

  \<open>Register\<close>, \<open>ALUOp\<close> and \<open>JumpTest\<close> are open types in Go (any \<open>uint16\<close>), so they are words here
  and not enumerations: a program may hold a value that is none of the named constants.
  \<open>Extension\<close> and the scratch slots are Go \<open>int\<close>s and are integers here.
\<close>

section \<open>Constants (constants.go)\<close>

type_synonym Register = u16
type_synonym ALUOp = u16
type_synonym JumpTest = u16
type_synonym Extension = int
type_synonym jumpOp = u16
type_synonym opOperand = u16

named_theorems opcode \<open>the bit patterns of the instruction encoding\<close>

definition RegA :: Register where [opcode]: "RegA = 0"
definition RegX :: Register where [opcode]: "RegX = 1"

definition ALUOpAdd :: ALUOp where [opcode]: "ALUOpAdd = 0x00"
definition ALUOpSub :: ALUOp where [opcode]: "ALUOpSub = 0x10"
definition ALUOpMul :: ALUOp where [opcode]: "ALUOpMul = 0x20"
definition ALUOpDiv :: ALUOp where [opcode]: "ALUOpDiv = 0x30"
definition ALUOpOr :: ALUOp where [opcode]: "ALUOpOr = 0x40"
definition ALUOpAnd :: ALUOp where [opcode]: "ALUOpAnd = 0x50"
definition ALUOpShiftLeft :: ALUOp where [opcode]: "ALUOpShiftLeft = 0x60"
definition ALUOpShiftRight :: ALUOp where [opcode]: "ALUOpShiftRight = 0x70"
definition aluOpNeg :: ALUOp where [opcode]: "aluOpNeg = 0x80"
definition ALUOpMod :: ALUOp where [opcode]: "ALUOpMod = 0x90"
definition ALUOpXor :: ALUOp where [opcode]: "ALUOpXor = 0xa0"

definition JumpEqual :: JumpTest where [opcode]: "JumpEqual = 0"
definition JumpNotEqual :: JumpTest where [opcode]: "JumpNotEqual = 1"
definition JumpGreaterThan :: JumpTest where [opcode]: "JumpGreaterThan = 2"
definition JumpLessThan :: JumpTest where [opcode]: "JumpLessThan = 3"
definition JumpGreaterOrEqual :: JumpTest where [opcode]: "JumpGreaterOrEqual = 4"
definition JumpLessOrEqual :: JumpTest where [opcode]: "JumpLessOrEqual = 5"
definition JumpBitsSet :: JumpTest where [opcode]: "JumpBitsSet = 6"
definition JumpBitsNotSet :: JumpTest where [opcode]: "JumpBitsNotSet = 7"

definition extOffset :: int where [opcode]: "extOffset = - 0x1000"
definition ExtLen :: Extension where [opcode]: "ExtLen = 1"
definition ExtProto :: Extension where [opcode]: "ExtProto = 0"
definition ExtType :: Extension where [opcode]: "ExtType = 4"
definition ExtPayloadOffset :: Extension where [opcode]: "ExtPayloadOffset = 52"
definition ExtInterfaceIndex :: Extension where [opcode]: "ExtInterfaceIndex = 8"
definition ExtNetlinkAttr :: Extension where [opcode]: "ExtNetlinkAttr = 12"
definition ExtNetlinkAttrNested :: Extension where [opcode]: "ExtNetlinkAttrNested = 16"
definition ExtMark :: Extension where [opcode]: "ExtMark = 20"
definition ExtQueue :: Extension where [opcode]: "ExtQueue = 24"
definition ExtLinkLayerType :: Extension where [opcode]: "ExtLinkLayerType = 28"
definition ExtRXHash :: Extension where [opcode]: "ExtRXHash = 32"
definition ExtCPUID :: Extension where [opcode]: "ExtCPUID = 36"
definition ExtVLANTag :: Extension where [opcode]: "ExtVLANTag = 44"
definition ExtVLANTagPresent :: Extension where [opcode]: "ExtVLANTagPresent = 48"
definition ExtVLANProto :: Extension where [opcode]: "ExtVLANProto = 60"
definition ExtRand :: Extension where [opcode]: "ExtRand = 56"

definition opMaskCls :: u16 where [opcode]: "opMaskCls = 0x7"
definition opMaskLoadDest :: u16 where [opcode]: "opMaskLoadDest = 0x01"
definition opMaskLoadWidth :: u16 where [opcode]: "opMaskLoadWidth = 0x18"
definition opMaskLoadMode :: u16 where [opcode]: "opMaskLoadMode = 0xe0"
definition opMaskOperand :: u16 where [opcode]: "opMaskOperand = 0x08"
definition opMaskOperator :: u16 where [opcode]: "opMaskOperator = 0xf0"

definition opClsLoadA :: u16 where [opcode]: "opClsLoadA = 0"
definition opClsLoadX :: u16 where [opcode]: "opClsLoadX = 1"
definition opClsStoreA :: u16 where [opcode]: "opClsStoreA = 2"
definition opClsStoreX :: u16 where [opcode]: "opClsStoreX = 3"
definition opClsALU :: u16 where [opcode]: "opClsALU = 4"
definition opClsJump :: u16 where [opcode]: "opClsJump = 5"
definition opClsReturn :: u16 where [opcode]: "opClsReturn = 6"
definition opClsMisc :: u16 where [opcode]: "opClsMisc = 7"

definition opAddrModeImmediate :: u16 where [opcode]: "opAddrModeImmediate = 0x00"
definition opAddrModeAbsolute :: u16 where [opcode]: "opAddrModeAbsolute = 0x20"
definition opAddrModeIndirect :: u16 where [opcode]: "opAddrModeIndirect = 0x40"
definition opAddrModeScratch :: u16 where [opcode]: "opAddrModeScratch = 0x60"
definition opAddrModePacketLen :: u16 where [opcode]: "opAddrModePacketLen = 0x80"
definition opAddrModeMemShift :: u16 where [opcode]: "opAddrModeMemShift = 0xa0"

definition opLoadWidth4 :: u16 where [opcode]: "opLoadWidth4 = 0x00"
definition opLoadWidth2 :: u16 where [opcode]: "opLoadWidth2 = 0x08"
definition opLoadWidth1 :: u16 where [opcode]: "opLoadWidth1 = 0x10"

definition opOperandConstant :: opOperand where [opcode]: "opOperandConstant = 0x00"
definition opOperandX :: opOperand where [opcode]: "opOperandX = 0x08"

definition opJumpAlways :: jumpOp where [opcode]: "opJumpAlways = 0x00"
definition opJumpEqual :: jumpOp where [opcode]: "opJumpEqual = 0x10"
definition opJumpGT :: jumpOp where [opcode]: "opJumpGT = 0x20"
definition opJumpGE :: jumpOp where [opcode]: "opJumpGE = 0x30"
definition opJumpSet :: jumpOp where [opcode]: "opJumpSet = 0x40"

definition opRetSrcConstant :: u16 where [opcode]: "opRetSrcConstant = 0x00"
definition opRetSrcA :: u16 where [opcode]: "opRetSrcA = 0x10"

definition opMiscTAX :: u16 where [opcode]: "opMiscTAX = 0x00"
definition opMiscTXA :: u16 where [opcode]: "opMiscTXA = 0x80"

section \<open>Instructions (instructions.go)\<close>

record RawInstruction =
  Op :: u16
  Jt :: u8
  Jf :: u8
  K :: u32

datatype Instruction =
    is_Raw: Raw RawInstruction
  | LoadConstant (Dst: Register) (Val: u32)
  | LoadScratch (Dst: Register) (N: int)
  | LoadAbsolute (Off: u32) (Size: int)
  | LoadIndirect (Off: u32) (Size: int)
  | LoadMemShift (Off: u32)
  | LoadExtension (Num: Extension)
  | StoreScratch (Src: Register) (N: int)
  | ALUOpConstant (AOp: ALUOp) (Val: u32)
  | ALUOpX (AOp: ALUOp)
  | NegateA
  | Jump (Skip: u32)
  | JumpIf (Cond: JumpTest) (Val: u32) (SkipTrue: u8) (SkipFalse: u8)
  | JumpIfX (Cond: JumpTest) (SkipTrue: u8) (SkipFalse: u8)
  | RetA
  | RetConstant (Val: u32)
  | TXA
  | TAX

datatype asm_error =
    InvalidScratchSlot int
  | InvalidSourceRegister Register
  | InvalidTargetRegister Register
  | InvalidLoadByteLength u16
  | UnknownJumpTest JumpTest

type_synonym 'a asm = "(asm_error, 'a) outcome"

text \<open>
  The error of the second switch prints \<open>sz\<close>, which is still its zero value at that point.
\<close>

definition assembleLoad :: "Register \<Rightarrow> int \<Rightarrow> u16 \<Rightarrow> u32 \<Rightarrow> RawInstruction asm" where
  "assembleLoad dst loadSize mode k =
     bind_outcome
       (if dst = RegA then Return opClsLoadA
        else if dst = RegX then Return opClsLoadX
        else Fail (InvalidTargetRegister dst)) (\<lambda>cls.
     bind_outcome
       (if loadSize = 1 then Return opLoadWidth1
        else if loadSize = 2 then Return opLoadWidth2
        else if loadSize = 4 then Return opLoadWidth4
        else Fail (InvalidLoadByteLength 0)) (\<lambda>sz.
     Return \<lparr>Op = cls OR sz OR mode, Jt = 0, Jf = 0, K = k\<rparr>))"

definition jumpToRaw :: "JumpTest \<Rightarrow> opOperand \<Rightarrow> u32 \<Rightarrow> u8 \<Rightarrow> u8 \<Rightarrow> RawInstruction asm" where
  "jumpToRaw test operand k skipTrue skipFalse =
     bind_outcome
       (if test = JumpEqual then Return (opJumpEqual, False)
        else if test = JumpNotEqual then Return (opJumpEqual, True)
        else if test = JumpGreaterThan then Return (opJumpGT, False)
        else if test = JumpLessThan then Return (opJumpGE, True)
        else if test = JumpGreaterOrEqual then Return (opJumpGE, False)
        else if test = JumpLessOrEqual then Return (opJumpGT, True)
        else if test = JumpBitsSet then Return (opJumpSet, False)
        else if test = JumpBitsNotSet then Return (opJumpSet, True)
        else Fail (UnknownJumpTest test)) (\<lambda>(cond, flip).
     let (jt, jf) = (if flip then (skipFalse, skipTrue) else (skipTrue, skipFalse))
     in Return \<lparr>Op = opClsJump OR cond OR operand, Jt = jt, Jf = jf, K = k\<rparr>)"

text \<open>The \<open>Assemble\<close> methods, one per instruction type.\<close>

definition RawInstruction_Assemble :: "RawInstruction \<Rightarrow> RawInstruction asm" where
  [simp]: "RawInstruction_Assemble ri = Return ri"

definition LoadConstant_Assemble :: "Register \<Rightarrow> u32 \<Rightarrow> RawInstruction asm" where
  [simp]: "LoadConstant_Assemble dst val = assembleLoad dst 4 opAddrModeImmediate val"

definition LoadScratch_Assemble :: "Register \<Rightarrow> int \<Rightarrow> RawInstruction asm" where
  [simp]: "LoadScratch_Assemble dst n =
     (if n < 0 \<or> n > 15 then Fail (InvalidScratchSlot n)
      else assembleLoad dst 4 opAddrModeScratch (word_of_int n))"

definition LoadAbsolute_Assemble :: "u32 \<Rightarrow> int \<Rightarrow> RawInstruction asm" where
  [simp]: "LoadAbsolute_Assemble off sz = assembleLoad RegA sz opAddrModeAbsolute off"

definition LoadIndirect_Assemble :: "u32 \<Rightarrow> int \<Rightarrow> RawInstruction asm" where
  [simp]: "LoadIndirect_Assemble off sz = assembleLoad RegA sz opAddrModeIndirect off"

definition LoadMemShift_Assemble :: "u32 \<Rightarrow> RawInstruction asm" where
  [simp]: "LoadMemShift_Assemble off = assembleLoad RegX 1 opAddrModeMemShift off"

definition LoadExtension_Assemble :: "Extension \<Rightarrow> RawInstruction asm" where
  [simp]: "LoadExtension_Assemble num =
     (if num = ExtLen then assembleLoad RegA 4 opAddrModePacketLen 0
      else assembleLoad RegA 4 opAddrModeAbsolute (word_of_int (extOffset + num)))"

definition StoreScratch_Assemble :: "Register \<Rightarrow> int \<Rightarrow> RawInstruction asm" where
  [simp]: "StoreScratch_Assemble src n =
     (if n < 0 \<or> n > 15 then Fail (InvalidScratchSlot n)
      else if src = RegA then Return \<lparr>Op = opClsStoreA, Jt = 0, Jf = 0, K = word_of_int n\<rparr>
      else if src = RegX then Return \<lparr>Op = opClsStoreX, Jt = 0, Jf = 0, K = word_of_int n\<rparr>
      else Fail (InvalidSourceRegister src))"

definition ALUOpConstant_Assemble :: "ALUOp \<Rightarrow> u32 \<Rightarrow> RawInstruction asm" where
  [simp]: "ALUOpConstant_Assemble op val =
     Return \<lparr>Op = opClsALU OR opOperandConstant OR op, Jt = 0, Jf = 0, K = val\<rparr>"

definition ALUOpX_Assemble :: "ALUOp \<Rightarrow> RawInstruction asm" where
  [simp]: "ALUOpX_Assemble op =
     Return \<lparr>Op = opClsALU OR opOperandX OR op, Jt = 0, Jf = 0, K = 0\<rparr>"

definition NegateA_Assemble :: "RawInstruction asm" where
  [simp]: "NegateA_Assemble = Return \<lparr>Op = opClsALU OR aluOpNeg, Jt = 0, Jf = 0, K = 0\<rparr>"

definition Jump_Assemble :: "u32 \<Rightarrow> RawInstruction asm" where
  [simp]: "Jump_Assemble skip =
     Return \<lparr>Op = opClsJump OR opJumpAlways, Jt = 0, Jf = 0, K = skip\<rparr>"

definition JumpIf_Assemble :: "JumpTest \<Rightarrow> u32 \<Rightarrow> u8 \<Rightarrow> u8 \<Rightarrow> RawInstruction asm" where
  [simp]: "JumpIf_Assemble cond val st sf = jumpToRaw cond opOperandConstant val st sf"

definition JumpIfX_Assemble :: "JumpTest \<Rightarrow> u8 \<Rightarrow> u8 \<Rightarrow> RawInstruction asm" where
  [simp]: "JumpIfX_Assemble cond st sf = jumpToRaw cond opOperandX 0 st sf"

definition RetA_Assemble :: "RawInstruction asm" where
  [simp]: "RetA_Assemble = Return \<lparr>Op = opClsReturn OR opRetSrcA, Jt = 0, Jf = 0, K = 0\<rparr>"

definition RetConstant_Assemble :: "u32 \<Rightarrow> RawInstruction asm" where
  [simp]: "RetConstant_Assemble val =
     Return \<lparr>Op = opClsReturn OR opRetSrcConstant, Jt = 0, Jf = 0, K = val\<rparr>"

definition TXA_Assemble :: "RawInstruction asm" where
  [simp]: "TXA_Assemble = Return \<lparr>Op = opClsMisc OR opMiscTXA, Jt = 0, Jf = 0, K = 0\<rparr>"

definition TAX_Assemble :: "RawInstruction asm" where
  [simp]: "TAX_Assemble = Return \<lparr>Op = opClsMisc OR opMiscTAX, Jt = 0, Jf = 0, K = 0\<rparr>"

text \<open>Calling \<open>Assemble\<close> through the \<open>Instruction\<close> interface.\<close>

fun assemble :: "Instruction \<Rightarrow> RawInstruction asm" where
  "assemble (Raw ri) = RawInstruction_Assemble ri"
| "assemble (LoadConstant dst val) = LoadConstant_Assemble dst val"
| "assemble (LoadScratch dst n) = LoadScratch_Assemble dst n"
| "assemble (LoadAbsolute off sz) = LoadAbsolute_Assemble off sz"
| "assemble (LoadIndirect off sz) = LoadIndirect_Assemble off sz"
| "assemble (LoadMemShift off) = LoadMemShift_Assemble off"
| "assemble (LoadExtension num) = LoadExtension_Assemble num"
| "assemble (StoreScratch src n) = StoreScratch_Assemble src n"
| "assemble (ALUOpConstant op val) = ALUOpConstant_Assemble op val"
| "assemble (ALUOpX op) = ALUOpX_Assemble op"
| "assemble NegateA = NegateA_Assemble"
| "assemble (Jump skip) = Jump_Assemble skip"
| "assemble (JumpIf cond val st sf) = JumpIf_Assemble cond val st sf"
| "assemble (JumpIfX cond st sf) = JumpIfX_Assemble cond st sf"
| "assemble RetA = RetA_Assemble"
| "assemble (RetConstant val) = RetConstant_Assemble val"
| "assemble TXA = TXA_Assemble"
| "assemble TAX = TAX_Assemble"

definition jumpOpToTest :: "jumpOp \<Rightarrow> u8 \<Rightarrow> u8 \<Rightarrow> JumpTest \<times> u8 \<times> u8" where
  "jumpOpToTest op skipTrue skipFalse =
     (if skipTrue = 0 then
        ((if op = opJumpEqual then JumpNotEqual
          else if op = opJumpGT then JumpLessOrEqual
          else if op = opJumpGE then JumpLessThan
          else if op = opJumpSet then JumpBitsNotSet
          else 0), skipFalse, 0)
      else
        ((if op = opJumpEqual then JumpEqual
          else if op = opJumpGT then JumpGreaterThan
          else if op = opJumpGE then JumpGreaterOrEqual
          else if op = opJumpSet then JumpBitsSet
          else 0), skipTrue, skipFalse))"

definition load_size :: "RawInstruction \<Rightarrow> int option" where
  "load_size ri =
     (let w = Op ri AND opMaskLoadWidth in
      if w = opLoadWidth4 then Some 4
      else if w = opLoadWidth2 then Some 2
      else if w = opLoadWidth1 then Some 1
      else None)"

definition disassemble_load :: "RawInstruction \<Rightarrow> Instruction" where
  "disassemble_load ri =
     (let reg = Op ri AND opMaskLoadDest; mode = Op ri AND opMaskLoadMode in
      case load_size ri of
        None \<Rightarrow> Raw ri
      | Some sz \<Rightarrow>
          if mode = opAddrModeImmediate then
            (if sz \<noteq> 4 then Raw ri else LoadConstant reg (K ri))
          else if mode = opAddrModeScratch then
            (if sz \<noteq> 4 \<or> K ri > 15 then Raw ri else LoadScratch reg (uint (K ri)))
          else if mode = opAddrModeAbsolute then
            (if uint (K ri) > extOffset + 0xffffffff
             then LoadExtension (uint (word_of_int (- extOffset) + K ri))
             else LoadAbsolute (K ri) sz)
          else if mode = opAddrModeIndirect then LoadIndirect (K ri) sz
          else if mode = opAddrModePacketLen then
            (if sz \<noteq> 4 then Raw ri else LoadExtension ExtLen)
          else if mode = opAddrModeMemShift then LoadMemShift (K ri)
          else Raw ri)"

definition disassemble_alu :: "RawInstruction \<Rightarrow> Instruction" where
  "disassemble_alu ri =
     (let op = Op ri AND opMaskOperator; operand = Op ri AND opMaskOperand in
      if op \<in> {ALUOpAdd, ALUOpSub, ALUOpMul, ALUOpDiv, ALUOpOr, ALUOpAnd,
               ALUOpShiftLeft, ALUOpShiftRight, ALUOpMod, ALUOpXor} then
        (if operand = opOperandX then ALUOpX op
         else if operand = opOperandConstant then ALUOpConstant op (K ri)
         else Raw ri)
      else if op = aluOpNeg then NegateA
      else Raw ri)"

definition disassemble_jump :: "RawInstruction \<Rightarrow> Instruction" where
  "disassemble_jump ri =
     (let op = Op ri AND opMaskOperator; operand = Op ri AND opMaskOperand in
      if op = opJumpAlways then Jump (K ri)
      else if op \<in> {opJumpEqual, opJumpGT, opJumpGE, opJumpSet} then
        (let (cond, skipTrue, skipFalse) = jumpOpToTest op (Jt ri) (Jf ri) in
         if operand = opOperandX then JumpIfX cond skipTrue skipFalse
         else if operand = opOperandConstant then JumpIf cond (K ri) skipTrue skipFalse
         else Raw ri)
      else Raw ri)"

text \<open>\<open>RawInstruction.Disassemble\<close>; the default branch of its outer switch panics.\<close>

definition disassemble :: "RawInstruction \<Rightarrow> Instruction asm" where
  "disassemble ri =
     (let cls = Op ri AND opMaskCls in
      if cls = opClsLoadA \<or> cls = opClsLoadX then Return (disassemble_load ri)
      else if cls = opClsStoreA then
        Return (if Op ri \<noteq> opClsStoreA \<or> K ri > 15 then Raw ri else StoreScratch RegA (uint (K ri)))
      else if cls = opClsStoreX then
        Return (if Op ri \<noteq> opClsStoreX \<or> K ri > 15 then Raw ri else StoreScratch RegX (uint (K ri)))
      else if cls = opClsALU then Return (disassemble_alu ri)
      else if cls = opClsJump then Return (disassemble_jump ri)
      else if cls = opClsReturn then
        Return (if Op ri = opClsReturn OR opRetSrcA then RetA
                else if Op ri = opClsReturn OR opRetSrcConstant then RetConstant (K ri)
                else Raw ri)
      else if cls = opClsMisc then
        Return (if Op ri = opClsMisc OR opMiscTAX then TAX
                else if Op ri = opClsMisc OR opMiscTXA then TXA
                else Raw ri)
      else Panic)"

section \<open>Programs (asm.go)\<close>

text \<open>An error of \<open>Assemble\<close> carries the 1-based position of the offending instruction.\<close>

datatype assemble_error = AssemblingInstruction nat asm_error

fun Assemble_from :: "nat \<Rightarrow> Instruction list \<Rightarrow> (assemble_error, RawInstruction list) outcome" where
  "Assemble_from i [] = Return []"
| "Assemble_from i (inst # insts) =
     bind_outcome (map_error (AssemblingInstruction (i + 1)) (assemble inst)) (\<lambda>r.
     bind_outcome (Assemble_from (i + 1) insts) (\<lambda>rs. Return (r # rs)))"

definition Assemble :: "Instruction list \<Rightarrow> (assemble_error, RawInstruction list) outcome" where
  "Assemble insts = Assemble_from 0 insts"

fun Disassemble :: "RawInstruction list \<Rightarrow> (asm_error, Instruction list \<times> bool) outcome" where
  "Disassemble [] = Return ([], True)"
| "Disassemble (r # raw) =
     bind_outcome (disassemble r) (\<lambda>inst.
     bind_outcome (Disassemble raw) (\<lambda>(insts, allDecoded).
       Return (inst # insts, \<not> is_Raw inst \<and> allDecoded)))"

section \<open>Canonical instructions\<close>

text \<open>
  The image of \<open>Disassemble\<close>: an instruction is canonical when its fields are in range and a
  conditional jump is written the way \<open>jumpOpToTest\<close> writes it (a negated test never has a false
  branch, a plain test never has an empty true branch).
\<close>

definition alu_ops :: "ALUOp set" where
  "alu_ops = {ALUOpAdd, ALUOpSub, ALUOpMul, ALUOpDiv, ALUOpOr, ALUOpAnd,
     ALUOpShiftLeft, ALUOpShiftRight, ALUOpMod, ALUOpXor}"

definition positive_tests :: "JumpTest set" where
  "positive_tests = {JumpEqual, JumpGreaterThan, JumpGreaterOrEqual, JumpBitsSet}"

definition negative_tests :: "JumpTest set" where
  "negative_tests = {JumpNotEqual, JumpLessOrEqual, JumpLessThan, JumpBitsNotSet}"

definition canonical_jump :: "JumpTest \<Rightarrow> u8 \<Rightarrow> u8 \<Rightarrow> bool" where
  "canonical_jump cond st sf \<longleftrightarrow>
     cond \<in> positive_tests \<and> st \<noteq> 0 \<or> cond \<in> negative_tests \<and> sf = 0"

fun canonical :: "Instruction \<Rightarrow> bool" where
  "canonical (Raw ri) \<longleftrightarrow> disassemble ri = Return (Raw ri)"
| "canonical (LoadConstant dst val) \<longleftrightarrow> dst \<in> {RegA, RegX}"
| "canonical (LoadScratch dst n) \<longleftrightarrow> dst \<in> {RegA, RegX} \<and> 0 \<le> n \<and> n \<le> 15"
| "canonical (LoadAbsolute off sz) \<longleftrightarrow> sz \<in> {1, 2, 4} \<and> uint off \<le> extOffset + 0xffffffff"
| "canonical (LoadIndirect off sz) \<longleftrightarrow> sz \<in> {1, 2, 4}"
| "canonical (LoadExtension num) \<longleftrightarrow> 0 \<le> num \<and> num < - extOffset"
| "canonical (StoreScratch src n) \<longleftrightarrow> src \<in> {RegA, RegX} \<and> 0 \<le> n \<and> n \<le> 15"
| "canonical (ALUOpConstant op val) \<longleftrightarrow> op \<in> alu_ops"
| "canonical (ALUOpX op) \<longleftrightarrow> op \<in> alu_ops"
| "canonical (JumpIf cond val st sf) \<longleftrightarrow> canonical_jump cond st sf"
| "canonical (JumpIfX cond st sf) \<longleftrightarrow> canonical_jump cond st sf"
| "canonical _ \<longleftrightarrow> True"

definition decoded :: "RawInstruction \<Rightarrow> Instruction \<Rightarrow> bool" where
  "decoded ri i \<longleftrightarrow> i = Raw ri \<or> canonical i"

section \<open>Disassembly is total and stable\<close>

lemma and_opMaskCls_cases:
  "w AND opMaskCls \<in> {opClsLoadA, opClsLoadX, opClsStoreA, opClsStoreX,
     opClsALU, opClsJump, opClsReturn, opClsMisc}"
proof -
  have "unat (w AND 7) \<le> 7"
    using and_le_nat [of w 7] by simp
  then have "unat (w AND 7) \<in> {0, 1, 2, 3, 4, 5, 6, 7}"
    by auto
  then show ?thesis
    by (auto simp: opcode dest: unat_eqD)
qed

lemma and_opMaskLoadDest_cases: "w AND opMaskLoadDest \<in> {RegA, RegX}"
proof -
  have "unat (w AND 1) \<le> 1"
    using and_le_nat [of w 1] by simp
  then have "unat (w AND 1) \<in> {0, 1}"
    by auto
  then show ?thesis
    by (auto simp: opcode dest: unat_eqD)
qed

lemmas instr_sets = alu_ops_def positive_tests_def negative_tests_def canonical_jump_def

lemma uint_scratch: "0 \<le> n \<Longrightarrow> n \<le> 15 \<Longrightarrow> uint (word_of_int n :: u32) = n"
  by (simp add: uint_word_of_int)

lemma scratch_le: "0 \<le> n \<Longrightarrow> n \<le> 15 \<Longrightarrow> \<not> 15 < (word_of_int n :: u32)"
  by (simp add: word_less_def uint_scratch)

lemma uint_extension:
  assumes "0 \<le> n" "n < 4096"
  shows "uint (word_of_int n - 4096 :: u32) = n + 0xfffff000"
proof -
  have "uint (word_of_int n - 4096 :: u32) = (n - 4096) mod 2 ^ 32"
    using assms by (simp add: uint_word_ariths uint_word_of_int)
  also have "\<dots> = (n - 4096 + 2 ^ 32) mod 2 ^ 32"
    by (simp only: mod_add_self2)
  also have "\<dots> = n + 0xfffff000"
    using assms by (subst mod_pos_pos_trivial) auto
  finally show ?thesis .
qed

lemma extension_uint: "0 \<le> n \<Longrightarrow> n < 4096 \<Longrightarrow> uint (word_of_int n :: u32) = n"
  by (simp add: uint_word_of_int)

lemmas disassemble_defs = disassemble_def disassemble_load_def load_size_def
  disassemble_alu_def disassemble_jump_def jumpOpToTest_def

lemma jump_round_trip:
  assumes "canonical_jump cond st sf" "operand \<in> {opOperandConstant, opOperandX}"
  shows "bind_outcome (jumpToRaw cond operand k st sf) disassemble =
    Return (if operand = opOperandX then JumpIfX cond st sf else JumpIf cond k st sf)"
  using assms unfolding instr_sets insert_iff empty_iff
  by (elim conjE disjE; simp add: jumpToRaw_def disassemble_defs opcode)

lemma alu_round_trip:
  assumes "op \<in> alu_ops"
  shows "bind_outcome (assemble (ALUOpX op)) disassemble = Return (ALUOpX op)"
    and "bind_outcome (assemble (ALUOpConstant op k)) disassemble = Return (ALUOpConstant op k)"
  using assms unfolding instr_sets insert_iff empty_iff
  by (elim disjE; simp add: disassemble_defs opcode)+

lemma canonical_round_trip:
  assumes "canonical i"
  shows "bind_outcome (assemble i) disassemble = Return i"
  using assms
proof (cases i)
  case (Raw ri)
  with assms show ?thesis by simp
next
  case (LoadExtension num)
  with assms show ?thesis
    using uint_extension [of num] extension_uint [of num]
    by (cases "num = ExtLen")
      (simp_all add: assembleLoad_def disassemble_defs opcode del: bind_outcome_Return_iff)
next
  case (JumpIf cond val st sf)
  with assms show ?thesis
    using jump_round_trip [of cond st sf opOperandConstant val]
    by (simp add: opcode del: bind_outcome_Return_iff)
next
  case (JumpIfX cond st sf)
  with assms show ?thesis
    using jump_round_trip [of cond st sf opOperandX 0]
    by (simp add: opcode del: bind_outcome_Return_iff)
next
  case (ALUOpConstant op val)
  with assms show ?thesis by (simp only: canonical.simps alu_round_trip)
next
  case (ALUOpX op)
  with assms show ?thesis by (simp only: canonical.simps alu_round_trip)
qed (auto simp: assembleLoad_def disassemble_defs opcode uint_scratch scratch_le
       simp del: bind_outcome_Return_iff)

lemma slot_le: "\<not> 15 < (k :: u32) \<Longrightarrow> uint k \<le> 15"
  by (simp add: word_less_def)

lemma ext_range:
  assumes "uint (k :: u32) > extOffset + 0xffffffff"
  shows "0 \<le> uint (word_of_int (- extOffset) + k) \<and> uint (word_of_int (- extOffset) + k) < - extOffset"
proof -
  have k: "0xfffff000 \<le> uint k" "uint k < 2 ^ 32"
    using assms uint_lt2p [of k] by (simp_all add: opcode)
  have "uint (4096 + k) = (uint k - 0xfffff000 + 2 ^ 32) mod 2 ^ 32"
    by (simp add: uint_word_ariths)
  also have "\<dots> = uint k - 0xfffff000"
    using k by (simp only: mod_add_self2) (simp add: mod_pos_pos_trivial)
  finally show ?thesis
    using k by (simp add: opcode)
qed

lemma load_size_cases: "load_size ri = Some sz \<Longrightarrow> sz \<in> {1, 2, 4}"
  by (auto simp: load_size_def Let_def split: if_splits)

lemma jumpOpToTest_canonical:
  "op \<in> {opJumpEqual, opJumpGT, opJumpGE, opJumpSet} \<Longrightarrow>
   jumpOpToTest op jt jf = (cond, st, sf) \<Longrightarrow> canonical_jump cond st sf"
  by (auto simp: jumpOpToTest_def instr_sets opcode split: if_splits)

lemma decoded_Raw [intro!]: "decoded ri (Raw ri)"
  by (simp add: decoded_def)

lemma decodedI: "canonical i \<Longrightarrow> decoded ri i"
  by (simp add: decoded_def)

lemma decoded_if [intro!]:
  "(b \<Longrightarrow> decoded ri x) \<Longrightarrow> (\<not> b \<Longrightarrow> decoded ri y) \<Longrightarrow> decoded ri (if b then x else y)"
  by simp

lemma disassemble_load_decoded: "decoded ri (disassemble_load ri)"
proof (cases "load_size ri")
  case None
  then show ?thesis by (simp add: disassemble_load_def decoded_def)
next
  case (Some sz)
  show ?thesis
    using slot_le [of "K ri"] ext_range [of "K ri"] load_size_cases [OF Some]
      and_opMaskLoadDest_cases [of "Op ri"]
    unfolding disassemble_load_def Let_def Some option.case
    by (intro decoded_if) (auto simp: decoded_def ExtLen_def extOffset_def)
qed

lemma disassemble_jump_decoded: "decoded ri (disassemble_jump ri)"
  using jumpOpToTest_canonical [of "Op ri AND opMaskOperator" "Jt ri" "Jf ri"]
  by (cases "jumpOpToTest (Op ri AND opMaskOperator) (Jt ri) (Jf ri)")
    (auto simp: disassemble_jump_def Let_def intro: decodedI)

lemma disassemble_alu_decoded: "decoded ri (disassemble_alu ri)"
  unfolding disassemble_alu_def Let_def alu_ops_def [symmetric]
  by (intro decoded_if decoded_Raw decodedI) simp_all

lemma disassemble_decoded:
  assumes dis: "disassemble ri = Return i"
  shows "decoded ri i"
proof -
  consider (load) "Op ri AND opMaskCls \<in> {opClsLoadA, opClsLoadX}"
    | (store) "Op ri AND opMaskCls \<in> {opClsStoreA, opClsStoreX}"
    | (alu) "Op ri AND opMaskCls = opClsALU"
    | (jump) "Op ri AND opMaskCls = opClsJump"
    | (rest) "Op ri AND opMaskCls \<in> {opClsReturn, opClsMisc}"
    using and_opMaskCls_cases [of "Op ri"] by blast
  then show ?thesis
  proof cases
    case load
    with dis have "i = disassemble_load ri" by (auto simp: disassemble_def)
    then show ?thesis by (simp add: disassemble_load_decoded)
  next
    case store
    with dis slot_le [of "K ri"] show ?thesis
      by (auto simp: disassemble_def decoded_def opcode Let_def split: if_splits)
  next
    case alu
    with dis have "i = disassemble_alu ri" by (simp add: disassemble_def opcode)
    then show ?thesis by (simp add: disassemble_alu_decoded)
  next
    case jump
    with dis have "i = disassemble_jump ri" by (simp add: disassemble_def opcode)
    then show ?thesis by (simp add: disassemble_jump_decoded)
  next
    case rest
    with dis show ?thesis
      by (auto simp: disassemble_def decoded_def opcode Let_def split: if_splits)
  qed
qed

lemma disassemble_canonical: "disassemble ri = Return i \<Longrightarrow> canonical i"
  using disassemble_decoded [of ri i] by (auto simp: decoded_def)

lemma disassemble_total: "\<exists>i. disassemble ri = Return i"
  using and_opMaskCls_cases [of "Op ri"] unfolding insert_iff empty_iff
  by (elim disjE) (simp_all add: disassemble_def opcode)

lemma canonical_iff: "canonical i \<longleftrightarrow> bind_outcome (assemble i) disassemble = Return i"
  using canonical_round_trip disassemble_canonical by auto
section \<open>The assembler interface\<close>

text \<open>
  What the virtual machine and the program-level functions rely on: decoding is total, its image is
  the canonical instructions, and encoding followed by decoding is the identity on them.
\<close>

locale assembler =
  fixes asm :: "'i \<Rightarrow> ('e, 'r) outcome"
    and disasm :: "'r \<Rightarrow> ('e, 'i) outcome"
    and canon :: "'i \<Rightarrow> bool"
  assumes disasm_total: "\<exists>i. disasm r = Return i"
    and disasm_canon: "disasm r = Return i \<Longrightarrow> canon i"
    and asm_disasm: "canon i \<Longrightarrow> bind_outcome (asm i) disasm = Return i"
begin

lemma asm_disasmE:
  assumes "canon i"
  obtains r where "asm i = Return r" "disasm r = Return i"
  using asm_disasm [OF assms] by auto

lemma disasm_stable:
  obtains i r' where "disasm r = Return i" "asm i = Return r'" "disasm r' = Return i"
  using disasm_total [of r] disasm_canon asm_disasmE by metis

lemma canon_iff: "canon i \<longleftrightarrow> bind_outcome (asm i) disasm = Return i"
  using asm_disasm disasm_canon by auto

end

interpretation bpf_asm: assembler assemble disassemble canonical
  by unfold_locales (rule disassemble_total, erule disassemble_canonical, erule canonical_round_trip)

section \<open>Properties of programs\<close>

lemma Assemble_from_Return_iff:
  "Assemble_from i insts = Return rs \<longleftrightarrow> list_all2 (\<lambda>inst r. assemble inst = Return r) insts rs"
  by (induction insts arbitrary: i rs) (auto simp: list_all2_Cons1)

lemma Disassemble_Return_iff:
  "Disassemble rs = Return (insts, d) \<longleftrightarrow>
     list_all2 (\<lambda>r inst. disassemble r = Return inst) rs insts \<and> d = list_all (\<lambda>i. \<not> is_Raw i) insts"
proof (induction rs arbitrary: insts d)
  case Nil
  then show ?case by auto
next
  case (Cons r rs)
  obtain i where "disassemble r = Return i"
    using disassemble_total by blast
  with Cons.IH show ?case
    by (cases insts) auto
qed

lemma Assemble_Return_iff:
  "Assemble insts = Return rs \<longleftrightarrow> list_all2 (\<lambda>inst r. assemble inst = Return r) insts rs"
  by (simp add: Assemble_def Assemble_from_Return_iff)

lemma canonical_list_round_trip:
  assumes "list_all canonical insts"
  obtains rs where "list_all2 (\<lambda>inst r. assemble inst = Return r) insts rs"
    "list_all2 (\<lambda>r inst. disassemble r = Return inst) rs insts"
  using assms
proof (induction insts arbitrary: thesis)
  case Nil
  then show ?case by simp
next
  case (Cons i insts)
  from Cons.prems(2) have "list_all canonical insts" by simp
  with Cons.IH obtain rs where rs: "list_all2 (\<lambda>inst r. assemble inst = Return r) insts rs"
    "list_all2 (\<lambda>r inst. disassemble r = Return inst) rs insts" by blast
  from Cons.prems(2) have "canonical i" by simp
  then obtain r where "assemble i = Return r" "disassemble r = Return i"
    by (rule bpf_asm.asm_disasmE)
  with rs Cons.prems(1) [of "r # rs"] show ?case by simp
qed

lemma Disassemble_canonical:
  "list_all2 (\<lambda>r inst. disassemble r = Return inst) rs insts \<Longrightarrow> list_all canonical insts"
  by (induction rule: list_all2_induct) (auto intro: disassemble_canonical)

lemma Disassemble_list_total: "\<exists>insts. list_all2 (\<lambda>r inst. disassemble r = Return inst) rs insts"
  by (induction rs) (use disassemble_total in \<open>auto simp: list_all2_Cons1\<close>)

text \<open>C23: a program of canonical instructions survives assembling and disassembling unchanged, and
  the \<open>allDecoded\<close> result says whether it holds a raw instruction.\<close>

theorem Assemble_Disassemble_round_trip:
  assumes "list_all canonical insts"
  shows "\<exists>raw. Assemble insts = Return raw \<and>
    Disassemble raw = Return (insts, list_all (\<lambda>i. \<not> is_Raw i) insts)"
  using canonical_list_round_trip [OF assms]
  by (metis Assemble_Return_iff Disassemble_Return_iff)

theorem Assemble_Disassemble_round_trip_witness:
  "\<exists>raw. Assemble [LoadAbsolute 12 2, JumpIf JumpNotEqual 0x800 1 0, RetConstant 64, RetConstant 0] = Return raw \<and>
    Disassemble raw = Return ([LoadAbsolute 12 2, JumpIf JumpNotEqual 0x800 1 0, RetConstant 64, RetConstant 0], True)"
  using Assemble_Disassemble_round_trip
    [of "[LoadAbsolute 12 2, JumpIf JumpNotEqual 0x800 1 0, RetConstant 64, RetConstant 0]"]
  by (simp add: canonical_jump_def negative_tests_def extOffset_def)

text \<open>Every raw program disassembles without panic, the result assembles, and disassembling the
  assembled form gives the same instructions again.\<close>

theorem Disassemble_stable:
  "\<exists>insts d raw'. Disassemble raw = Return (insts, d) \<and> Assemble insts = Return raw' \<and>
    Disassemble raw' = Return (insts, d)"
proof -
  obtain insts where dis: "list_all2 (\<lambda>r inst. disassemble r = Return inst) raw insts"
    using Disassemble_list_total by blast
  then have "list_all canonical insts" by (rule Disassemble_canonical)
  then obtain rs where "list_all2 (\<lambda>inst r. assemble inst = Return r) insts rs"
    "list_all2 (\<lambda>r inst. disassemble r = Return inst) rs insts"
    by (rule canonical_list_round_trip)
  with dis show ?thesis
    by (metis Assemble_Return_iff Disassemble_Return_iff)
qed

end
