(* ===== verification/BPF_VM.thy ===== *)
theory BPF_VM
  imports BPF_Instr
begin

text \<open>
  The BPF virtual machine of \<open>src/bpf/vm.go\<close> and \<open>src/bpf/vm_instructions.go\<close>.  \<open>NewVM\<close> validates a
  filter, \<open>Run\<close> executes it on a packet.  Every operation that can panic in Go (division by zero,
  an index out of range, an unimplemented extension, a bad load size) has a \<open>Panic\<close> branch.
\<close>

section \<open>Validation: NewVM (vm.go)\<close>

record VM =
  vm_filter :: "Instruction list"

datatype vm_error =
    NoInstructions
  | JumpPastBounds u32
  | JumpTruePastBounds u8
  | JumpFalsePastBounds u8
  | DivideByZeroConstant
  | ExtensionNotImplemented Extension
  | MissingReturn
  | AssembleFailed assemble_error
  | UnknownInstruction nat

text \<open>The body of the validation loop; \<open>check\<close> is \<open>len(filter) - (i + 1)\<close>.\<close>

fun check_instruction :: "nat \<Rightarrow> Instruction \<Rightarrow> vm_error option" where
  "check_instruction check (Jump skip) =
     (if check \<le> unat skip then Some (JumpPastBounds skip) else None)"
| "check_instruction check (JumpIf cond val st sf) =
     (if check \<le> unat st then Some (JumpTruePastBounds st)
      else if check \<le> unat sf then Some (JumpFalsePastBounds sf)
      else None)"
| "check_instruction check (JumpIfX cond st sf) =
     (if check \<le> unat st then Some (JumpTruePastBounds st)
      else if check \<le> unat sf then Some (JumpFalsePastBounds sf)
      else None)"
| "check_instruction check (ALUOpConstant op val) =
     (if val \<noteq> 0 then None
      else if op = ALUOpDiv \<or> op = ALUOpMod then Some DivideByZeroConstant
      else None)"
| "check_instruction check (LoadExtension num) =
     (if num = ExtLen then None else Some (ExtensionNotImplemented num))"
| "check_instruction check _ = None"

fun check_filter :: "nat \<Rightarrow> nat \<Rightarrow> Instruction list \<Rightarrow> vm_error option" where
  "check_filter n i [] = None"
| "check_filter n i (ins # rest) =
     (case check_instruction (n - (i + 1)) ins of
        Some e \<Rightarrow> Some e
      | None \<Rightarrow> check_filter n (i + 1) rest)"

fun is_ret :: "Instruction \<Rightarrow> bool" where
  "is_ret RetA = True"
| "is_ret (RetConstant _) = True"
| "is_ret _ = False"

text \<open>
  \<open>NewVM\<close> returns a pointer and an error, and may return both: when only the trial assembly fails,
  the machine comes with the error.  \<open>Assemble\<close> has no branch that panics.
\<close>

definition NewVM :: "Instruction list \<Rightarrow> VM option \<times> vm_error option" where
  "NewVM f =
     (if f = [] then (None, Some NoInstructions)
      else case check_filter (length f) 0 f of
        Some e \<Rightarrow> (None, Some e)
      | None \<Rightarrow>
          if \<not> is_ret (last f) then (None, Some MissingReturn)
          else (Some \<lparr>vm_filter = f\<rparr>,
                case Assemble f of Fail e \<Rightarrow> Some (AssembleFailed e) | _ \<Rightarrow> None))"

section \<open>Instruction semantics (vm_instructions.go)\<close>

type_synonym 'a vm = "(vm_error, 'a) outcome"

definition aluOpCommon :: "ALUOp \<Rightarrow> u32 \<Rightarrow> u32 \<Rightarrow> u32 vm" where
  "aluOpCommon op a v =
     (if op = ALUOpAdd then Return (a + v)
      else if op = ALUOpSub then Return (a - v)
      else if op = ALUOpMul then Return (a * v)
      else if op = ALUOpDiv then (if v = 0 then Panic else Return (a div v))
      else if op = ALUOpOr then Return (a OR v)
      else if op = ALUOpAnd then Return (a AND v)
      else if op = ALUOpShiftLeft then Return (push_bit (unat v) a)
      else if op = ALUOpShiftRight then Return (drop_bit (unat v) a)
      else if op = ALUOpMod then (if v = 0 then Panic else Return (a mod v))
      else if op = ALUOpXor then Return (a XOR v)
      else Return a)"

definition aluOpConstant :: "ALUOp \<Rightarrow> u32 \<Rightarrow> u32 \<Rightarrow> u32 vm" where
  "aluOpConstant op val a = aluOpCommon op a val"

definition aluOpX :: "ALUOp \<Rightarrow> u32 \<Rightarrow> u32 \<Rightarrow> (u32 \<times> bool) vm" where
  "aluOpX op a x =
     (if x = 0 \<and> (op = ALUOpDiv \<or> op = ALUOpMod) then Return (0, False)
      else bind_outcome (aluOpCommon op a x) (\<lambda>r. Return (r, True)))"

definition jumpIfCommon :: "JumpTest \<Rightarrow> u8 \<Rightarrow> u8 \<Rightarrow> u32 \<Rightarrow> u32 \<Rightarrow> nat" where
  "jumpIfCommon cond skipTrue skipFalse a v =
     (let ok = (if cond = JumpEqual then a = v
                else if cond = JumpNotEqual then a \<noteq> v
                else if cond = JumpGreaterThan then a > v
                else if cond = JumpLessThan then a < v
                else if cond = JumpGreaterOrEqual then a \<ge> v
                else if cond = JumpLessOrEqual then a \<le> v
                else if cond = JumpBitsSet then a AND v \<noteq> 0
                else if cond = JumpBitsNotSet then a AND v = 0
                else False)
      in if ok then unat skipTrue else unat skipFalse)"

definition jumpIf :: "JumpTest \<Rightarrow> u32 \<Rightarrow> u8 \<Rightarrow> u8 \<Rightarrow> u32 \<Rightarrow> nat" where
  "jumpIf cond val st sf a = jumpIfCommon cond st sf a val"

definition jumpIfX :: "JumpTest \<Rightarrow> u8 \<Rightarrow> u8 \<Rightarrow> u32 \<Rightarrow> u32 \<Rightarrow> nat" where
  "jumpIfX cond st sf a x = jumpIfCommon cond st sf a x"

definition inBounds :: "nat \<Rightarrow> nat \<Rightarrow> int \<Rightarrow> bool" where
  "inBounds inLen offset sz \<longleftrightarrow> int offset + sz \<le> int inLen"

definition loadCommon :: "bytes \<Rightarrow> nat \<Rightarrow> int \<Rightarrow> (u32 \<times> bool) vm" where
  "loadCommon pkt offset sz =
     (if \<not> inBounds (length pkt) offset sz then Return (0, False)
      else if sz = 1 then bind_outcome (go_index pkt offset) (\<lambda>b. Return (ucast b, True))
      else if sz = 2 then
        bind_outcome (go_slice pkt offset (offset + 2)) (\<lambda>b.
        bind_outcome (BigEndian_Uint16 b) (\<lambda>v. Return (ucast v, True)))
      else if sz = 4 then
        bind_outcome (go_slice pkt offset (offset + 4)) (\<lambda>b.
        bind_outcome (BigEndian_Uint32 b) (\<lambda>v. Return (v, True)))
      else Panic)"

definition loadAbsolute :: "u32 \<Rightarrow> int \<Rightarrow> bytes \<Rightarrow> (u32 \<times> bool) vm" where
  "loadAbsolute off sz pkt = loadCommon pkt (unat off) sz"

definition loadConstant :: "Register \<Rightarrow> u32 \<Rightarrow> u32 \<Rightarrow> u32 \<Rightarrow> u32 \<times> u32" where
  "loadConstant dst val a x =
     (if dst = RegA then (val, x) else if dst = RegX then (a, val) else (a, x))"

definition loadExtension :: "Extension \<Rightarrow> bytes \<Rightarrow> u32 vm" where
  "loadExtension num pkt = (if num = ExtLen then Return (of_nat (length pkt)) else Panic)"

definition loadIndirect :: "u32 \<Rightarrow> int \<Rightarrow> bytes \<Rightarrow> u32 \<Rightarrow> (u32 \<times> bool) vm" where
  "loadIndirect off sz pkt x = loadCommon pkt (unat off + unat x) sz"

definition loadMemShift :: "u32 \<Rightarrow> bytes \<Rightarrow> (u32 \<times> bool) vm" where
  "loadMemShift off pkt =
     (if \<not> inBounds (length pkt) (unat off) 1 then Return (0, False)
      else bind_outcome (go_index pkt (unat off)) (\<lambda>b. Return (ucast (b AND 0x0f) * 4, True)))"

text \<open>\<open>regScratch[ins.N]\<close> with a Go \<open>int\<close> as index: negative values panic too.\<close>

definition scratch_slot :: "int \<Rightarrow> nat vm" where
  "scratch_slot n = (if 0 \<le> n then Return (nat n) else Panic)"

definition loadScratch :: "Register \<Rightarrow> int \<Rightarrow> u32 list \<Rightarrow> u32 \<Rightarrow> u32 \<Rightarrow> (u32 \<times> u32) vm" where
  "loadScratch dst n scratch a x =
     (if dst = RegA then
        bind_outcome (scratch_slot n) (\<lambda>i. bind_outcome (go_index scratch i) (\<lambda>v. Return (v, x)))
      else if dst = RegX then
        bind_outcome (scratch_slot n) (\<lambda>i. bind_outcome (go_index scratch i) (\<lambda>v. Return (a, v)))
      else Return (a, x))"

definition storeScratch :: "Register \<Rightarrow> int \<Rightarrow> u32 list \<Rightarrow> u32 \<Rightarrow> u32 \<Rightarrow> u32 list vm" where
  "storeScratch src n scratch a x =
     (if src = RegA then bind_outcome (scratch_slot n) (\<lambda>i. go_update scratch i a)
      else if src = RegX then bind_outcome (scratch_slot n) (\<lambda>i. go_update scratch i x)
      else Return scratch)"

section \<open>Execution: Run (vm.go)\<close>

record vm_state =
  regA :: u32
  regX :: u32
  regScratch :: "u32 list"

definition init_state :: vm_state where
  "init_state = \<lparr>regA = 0, regX = 0, regScratch = replicate 16 0\<rparr>"

text \<open>
  One turn of the loop: \<open>Done\<close> is a \<open>return\<close> statement, \<open>Continue skip s ok\<close> leaves the switch with
  \<open>skip\<close> added to the loop counter and the loop flag \<open>ok\<close>.
\<close>

datatype 's control = Done int | Continue nat 's bool

fun exec :: "nat \<Rightarrow> Instruction \<Rightarrow> bytes \<Rightarrow> vm_state \<Rightarrow> vm_state control vm" where
  "exec i (ALUOpConstant op val) pkt s =
     bind_outcome (aluOpConstant op val (regA s)) (\<lambda>a. Return (Continue 0 (s\<lparr>regA := a\<rparr>) True))"
| "exec i (ALUOpX op) pkt s =
     bind_outcome (aluOpX op (regA s) (regX s)) (\<lambda>(a, ok). Return (Continue 0 (s\<lparr>regA := a\<rparr>) ok))"
| "exec i (Jump skip) pkt s = Return (Continue (unat skip) s True)"
| "exec i (JumpIf cond val st sf) pkt s = Return (Continue (jumpIf cond val st sf (regA s)) s True)"
| "exec i (JumpIfX cond st sf) pkt s = Return (Continue (jumpIfX cond st sf (regA s) (regX s)) s True)"
| "exec i (LoadAbsolute off sz) pkt s =
     bind_outcome (loadAbsolute off sz pkt) (\<lambda>(a, ok). Return (Continue 0 (s\<lparr>regA := a\<rparr>) ok))"
| "exec i (LoadConstant dst val) pkt s =
     (let (a, x) = loadConstant dst val (regA s) (regX s)
      in Return (Continue 0 (s\<lparr>regA := a, regX := x\<rparr>) True))"
| "exec i (LoadExtension num) pkt s =
     bind_outcome (loadExtension num pkt) (\<lambda>a. Return (Continue 0 (s\<lparr>regA := a\<rparr>) True))"
| "exec i (LoadIndirect off sz) pkt s =
     bind_outcome (loadIndirect off sz pkt (regX s)) (\<lambda>(a, ok). Return (Continue 0 (s\<lparr>regA := a\<rparr>) ok))"
| "exec i (LoadMemShift off) pkt s =
     bind_outcome (loadMemShift off pkt) (\<lambda>(x, ok). Return (Continue 0 (s\<lparr>regX := x\<rparr>) ok))"
| "exec i (LoadScratch dst n) pkt s =
     bind_outcome (loadScratch dst n (regScratch s) (regA s) (regX s)) (\<lambda>(a, x).
     Return (Continue 0 (s\<lparr>regA := a, regX := x\<rparr>) True))"
| "exec i RetA pkt s = Return (Done (uint (regA s)))"
| "exec i (RetConstant val) pkt s = Return (Done (uint val))"
| "exec i (StoreScratch src n) pkt s =
     bind_outcome (storeScratch src n (regScratch s) (regA s) (regX s)) (\<lambda>m.
     Return (Continue 0 (s\<lparr>regScratch := m\<rparr>) True))"
| "exec i TAX pkt s = Return (Continue 0 (s\<lparr>regX := regA s\<rparr>) True)"
| "exec i TXA pkt s = Return (Continue 0 (s\<lparr>regA := regX s\<rparr>) True)"
| "exec i NegateA pkt s = Fail (UnknownInstruction i)"
| "exec i (Raw ri) pkt s = Fail (UnknownInstruction i)"

function run :: "Instruction list \<Rightarrow> bytes \<Rightarrow> nat \<Rightarrow> vm_state \<Rightarrow> bool \<Rightarrow> int vm" where
  "run f pkt i s ok =
     (if i < length f \<and> ok then
        bind_outcome (exec i (f ! i) pkt s) (\<lambda>c.
          case c of Done n \<Rightarrow> Return n | Continue skip s' ok' \<Rightarrow> run f pkt (i + skip + 1) s' ok')
      else Return 0)"
  by pat_completeness auto
termination
  by (relation "measure (\<lambda>(f, pkt, i, s, ok). length f - i)") auto

definition Run :: "VM \<Rightarrow> bytes \<Rightarrow> int vm" where
  "Run v pkt = run (vm_filter v) pkt 0 init_state True"

declare run.simps [simp del]

section \<open>Specifications\<close>

text \<open>
  What \<open>NewVM\<close> accepts, said without its loop: the filter is not empty and ends in a return, every
  jump lands inside the program, no constant division by zero, only \<open>ExtLen\<close> among the extensions,
  and every instruction has an encoding.
\<close>

fun valid_at :: "nat \<Rightarrow> nat \<Rightarrow> Instruction \<Rightarrow> bool" where
  "valid_at n i (Jump skip) \<longleftrightarrow> i + unat skip + 1 < n"
| "valid_at n i (JumpIf cond val st sf) \<longleftrightarrow> i + unat st + 1 < n \<and> i + unat sf + 1 < n"
| "valid_at n i (JumpIfX cond st sf) \<longleftrightarrow> i + unat st + 1 < n \<and> i + unat sf + 1 < n"
| "valid_at n i (ALUOpConstant op val) \<longleftrightarrow> \<not> (val = 0 \<and> op \<in> {ALUOpDiv, ALUOpMod})"
| "valid_at n i (LoadExtension num) \<longleftrightarrow> num = ExtLen"
| "valid_at n i _ \<longleftrightarrow> True"

definition valid_program :: "Instruction list \<Rightarrow> bool" where
  "valid_program f \<longleftrightarrow>
     f \<noteq> [] \<and> is_ret (last f) \<and> (\<forall>i < length f. valid_at (length f) i (f ! i)) \<and>
     list_all (\<lambda>ins. \<exists>r. assemble ins = Return r) f"

text \<open>The machine as a transition system over any executor \<open>fe\<close> of the instruction at a position.\<close>

datatype 's config = Running nat 's | Halted "int vm"

inductive vm_step :: "nat \<Rightarrow> (nat \<Rightarrow> 's \<Rightarrow> 's control vm) \<Rightarrow> 's config \<Rightarrow> 's config \<Rightarrow> bool"
  for n fe where
  advance: "i < n \<Longrightarrow> fe i s = Return (Continue k s' True) \<Longrightarrow>
     vm_step n fe (Running i s) (Running (i + k + 1) s')"
| stop: "i < n \<Longrightarrow> fe i s = Return (Continue k s' False) \<Longrightarrow>
     vm_step n fe (Running i s) (Halted (Return 0))"
| return: "i < n \<Longrightarrow> fe i s = Return (Done r) \<Longrightarrow> vm_step n fe (Running i s) (Halted (Return r))"
| fail: "i < n \<Longrightarrow> fe i s = Fail e \<Longrightarrow> vm_step n fe (Running i s) (Halted (Fail e))"
| panic: "i < n \<Longrightarrow> fe i s = Panic \<Longrightarrow> vm_step n fe (Running i s) (Halted Panic)"
| fall_off: "n \<le> i \<Longrightarrow> vm_step n fe (Running i s) (Halted (Return 0))"

inductive_cases vm_step_RunningE: "vm_step n fe (Running i s) c"

abbreviation fetch_exec :: "Instruction list \<Rightarrow> bytes \<Rightarrow> nat \<Rightarrow> vm_state \<Rightarrow> vm_state control vm" where
  "fetch_exec f pkt i s \<equiv> exec i (f ! i) pkt s"

abbreviation scratch_ok :: "vm_state \<Rightarrow> bool" where
  "scratch_ok s \<equiv> length (regScratch s) = 16"

text \<open>The result of one instruction of an accepted program.\<close>

definition exec_good :: "nat \<Rightarrow> nat \<Rightarrow> Instruction \<Rightarrow> vm_state control vm \<Rightarrow> bool" where
  "exec_good n i ins r \<longleftrightarrow>
     (\<exists>k s' ok. r = Return (Continue k s' ok) \<and> scratch_ok s' \<and> (k = 0 \<or> i + k + 1 < n) \<and> \<not> is_ret ins) \<or>
     (\<exists>v. r = Return (Done v) \<and> is_ret ins \<and> 0 \<le> v \<and> v < 2 ^ 32) \<or>
     (r = Fail (UnknownInstruction i) \<and> (ins = NegateA \<or> is_Raw ins))"

text \<open>\<open>run\<close> of a configuration is an invariant of the steps, so every halting step yields it.\<close>

fun run_config :: "Instruction list \<Rightarrow> bytes \<Rightarrow> vm_state config \<Rightarrow> int vm" where
  "run_config f pkt (Running i s) = run f pkt i s True"
| "run_config f pkt (Halted r) = r"

text \<open>
  Instructions with a faithful encoding.  Jumps need not be canonical: \<open>Disassemble\<close> may turn a test
  into its negation with the branches exchanged.
\<close>

fun encodable :: "Instruction \<Rightarrow> bool" where
  "encodable (Raw ri) \<longleftrightarrow> False"
| "encodable (JumpIf cond val st sf) \<longleftrightarrow> cond \<in> positive_tests \<union> negative_tests"
| "encodable (JumpIfX cond st sf) \<longleftrightarrow> cond \<in> positive_tests \<union> negative_tests"
| "encodable ins \<longleftrightarrow> canonical ins"

text \<open>A filter used in the witnesses: the destination port of an IPv4 packet.\<close>

definition sample_filter :: "Instruction list" where
  "sample_filter =
     [LoadAbsolute 12 2, JumpIf JumpNotEqual 0x0800 3 0, LoadMemShift 14, LoadIndirect 16 2, RetA, RetConstant 0]"

section \<open>The interface between validation and execution\<close>

locale checked_machine =
  fixes psize :: "'p \<Rightarrow> nat"
    and fe :: "'p \<Rightarrow> bytes \<Rightarrow> nat \<Rightarrow> 's \<Rightarrow> 's control vm"
    and valid :: "'p \<Rightarrow> bool"
    and inv :: "'s \<Rightarrow> bool"
  assumes valid_nonempty: "valid p \<Longrightarrow> 0 < psize p"
    and exec_no_panic: "valid p \<Longrightarrow> i < psize p \<Longrightarrow> inv s \<Longrightarrow> fe p pkt i s \<noteq> Panic"
    and exec_inv: "valid p \<Longrightarrow> i < psize p \<Longrightarrow> inv s \<Longrightarrow>
      fe p pkt i s = Return (Continue k s' ok) \<Longrightarrow> inv s'"
    and exec_in_bounds: "valid p \<Longrightarrow> i < psize p \<Longrightarrow> inv s \<Longrightarrow>
      fe p pkt i s = Return (Continue k s' True) \<Longrightarrow> i + k + 1 < psize p"
begin

fun config_ok :: "'p \<Rightarrow> 's config \<Rightarrow> bool" where
  "config_ok p (Running i s) \<longleftrightarrow> i < psize p \<and> inv s"
| "config_ok p (Halted r) \<longleftrightarrow> r \<noteq> Panic"

lemma step_ok: "vm_step (psize p) (fe p pkt) c c' \<Longrightarrow> valid p \<Longrightarrow> config_ok p c \<Longrightarrow> config_ok p c'"
proof (induction rule: vm_step.induct)
  case (advance i s k s')
  then show ?case using exec_in_bounds [of p i s pkt k s'] exec_inv [of p i s pkt k s' True] by simp
next
  case (panic i s)
  then show ?case using exec_no_panic [of p i s pkt] by simp
qed simp_all

lemma reachable_ok:
  "(vm_step (psize p) (fe p pkt))\<^sup>*\<^sup>* c c' \<Longrightarrow> valid p \<Longrightarrow> config_ok p c \<Longrightarrow> config_ok p c'"
  by (induction rule: rtranclp_induct) (auto intro: step_ok)

end

section \<open>Executing a validated instruction\<close>

lemma loadCommon_no_panic: "sz \<in> {1, 2, 4} \<Longrightarrow> \<exists>v ok. loadCommon pkt off sz = Return (v, ok)"
  by (auto simp: loadCommon_def inBounds_def)

lemma inBounds_1: "inBounds n off 1 \<Longrightarrow> off < n"
  by (simp add: inBounds_def)

lemma loadMemShift_no_panic: "\<exists>v ok. loadMemShift off pkt = Return (v, ok)"
  by (auto simp: loadMemShift_def dest: inBounds_1)

lemma aluOpCommon_no_panic:
  "\<not> (v = 0 \<and> op \<in> {ALUOpDiv, ALUOpMod}) \<Longrightarrow> \<exists>r. aluOpCommon op a v = Return r"
  by (auto simp: aluOpCommon_def)

lemma aluOpX_no_panic: "\<exists>r ok. aluOpX op a x = Return (r, ok)"
  using aluOpCommon_no_panic [of x op a] by (auto simp: aluOpX_def)

lemma scratch_slot_no_panic: "0 \<le> n \<Longrightarrow> n \<le> 15 \<Longrightarrow> scratch_slot n = Return (nat n)"
  by (simp add: scratch_slot_def)

lemma assemble_ranges:
  "assemble (LoadScratch dst n) = Return r \<Longrightarrow> 0 \<le> n \<and> n \<le> 15"
  "assemble (StoreScratch src n) = Return r \<Longrightarrow> 0 \<le> n \<and> n \<le> 15"
  "assemble (LoadAbsolute off sz) = Return r \<Longrightarrow> sz \<in> {1, 2, 4}"
  "assemble (LoadIndirect off sz) = Return r \<Longrightarrow> sz \<in> {1, 2, 4}"
  by (auto simp: assembleLoad_def split: if_splits)

lemma jumpIfCommon_cases: "jumpIfCommon cond st sf a v \<in> {unat st, unat sf}"
  by (simp add: jumpIfCommon_def)

lemma exec_valid:
  assumes "valid_at n i ins" "assemble ins = Return r" "scratch_ok s"
  shows "exec_good n i ins (exec i ins pkt s)"
proof (cases ins)
  case (LoadScratch dst m)
  with assms(2) have "0 \<le> m" "m \<le> 15" using assemble_ranges by blast+
  with LoadScratch assms(3) show ?thesis
    by (auto simp: exec_good_def loadScratch_def scratch_slot_no_panic)
next
  case (StoreScratch dst m)
  with assms(2) have "0 \<le> m" "m \<le> 15" using assemble_ranges by blast+
  with StoreScratch assms(3) show ?thesis
    by (auto simp: exec_good_def storeScratch_def scratch_slot_no_panic)
next
  case (LoadAbsolute off sz)
  with assms(2) have "sz \<in> {1, 2, 4}" using assemble_ranges by blast
  from loadCommon_no_panic [OF this, of pkt "unat off"] LoadAbsolute assms(3) show ?thesis
    by (auto simp: exec_good_def loadAbsolute_def)
next
  case (LoadIndirect off sz)
  with assms(2) have "sz \<in> {1, 2, 4}" using assemble_ranges by blast
  from loadCommon_no_panic [OF this, of pkt "unat off + unat (regX s)"] LoadIndirect assms(3)
  show ?thesis by (auto simp: exec_good_def loadIndirect_def)
next
  case (LoadMemShift off)
  with loadMemShift_no_panic [of off pkt] assms(3) show ?thesis by (auto simp: exec_good_def)
next
  case (ALUOpConstant op val)
  with assms(1) aluOpCommon_no_panic [of val op "regA s"] assms(3) show ?thesis
    by (auto simp: exec_good_def aluOpConstant_def)
next
  case (ALUOpX op)
  with aluOpX_no_panic [of op "regA s" "regX s"] assms(3) show ?thesis
    by (auto simp: exec_good_def)
next
  case (JumpIf cond val st sf)
  with assms(1,3) jumpIfCommon_cases [of cond st sf "regA s" val] show ?thesis
    by (auto simp: exec_good_def jumpIf_def)
next
  case (JumpIfX cond st sf)
  with assms(1,3) jumpIfCommon_cases [of cond st sf "regA s" "regX s"] show ?thesis
    by (auto simp: exec_good_def jumpIfX_def)
next
  case (LoadConstant dst val)
  with assms(3) show ?thesis by (auto simp: exec_good_def loadConstant_def)
next
  case (LoadExtension num)
  with assms(1,3) show ?thesis by (auto simp: exec_good_def loadExtension_def)
next
  case RetA
  then show ?thesis using uint_lt2p [of "regA s"] by (simp add: exec_good_def)
next
  case (RetConstant val)
  then show ?thesis using uint_lt2p [of val] by (simp add: exec_good_def)
qed (use assms(1,3) in \<open>auto simp: exec_good_def\<close>)


lemma valid_program_at:
  assumes "valid_program f" "i < length f"
  shows "valid_at (length f) i (f ! i)" "\<exists>r. assemble (f ! i) = Return r"
    "is_ret (f ! (length f - 1))"
  using assms by (auto simp: valid_program_def list_all_length last_conv_nth)

lemma exec_valid_program:
  assumes "valid_program f" "i < length f" "scratch_ok s"
  shows "exec_good (length f) i (f ! i) (fetch_exec f pkt i s)"
  using valid_program_at [OF assms(1,2)] exec_valid assms(3) by blast

interpretation bpf_vm: checked_machine length fetch_exec valid_program scratch_ok
proof unfold_locales
  fix p :: "Instruction list" and i s pkt k s' ok
  assume "valid_program p"
  then show "0 < length p" by (simp add: valid_program_def)
  assume i: "i < length p" and "scratch_ok s"
  with \<open>valid_program p\<close> have good: "exec_good (length p) i (p ! i) (fetch_exec p pkt i s)"
    by (rule exec_valid_program)
  then show "fetch_exec p pkt i s \<noteq> Panic"
    by (auto simp: exec_good_def)
  from good show "fetch_exec p pkt i s = Return (Continue k s' ok) \<Longrightarrow> scratch_ok s'"
    by (auto simp: exec_good_def)
  assume "fetch_exec p pkt i s = Return (Continue k s' True)"
  with good have "\<not> is_ret (p ! i)" "k = 0 \<or> i + k + 1 < length p"
    by (auto simp: exec_good_def)
  moreover have "i + 1 \<noteq> length p"
    using valid_program_at(3) [OF \<open>valid_program p\<close> i] \<open>\<not> is_ret (p ! i)\<close> by (metis add_diff_cancel_right')
  ultimately show "i + k + 1 < length p"
    using i by auto
qed

section \<open>The loop and the transition system agree\<close>

lemma run_unfold:
  "i < length f \<Longrightarrow> run f pkt i s True =
     bind_outcome (fetch_exec f pkt i s) (\<lambda>c.
       case c of Done n \<Rightarrow> Return n | Continue skip s' ok' \<Rightarrow> run f pkt (i + skip + 1) s' ok')"
  by (simp only: run.simps [of f pkt i s True] simp_thms if_True)

lemma run_stopped [simp]: "run f pkt i s False = Return 0"
  by (simp add: run.simps)

lemma run_end: "length f \<le> i \<Longrightarrow> run f pkt i s True = Return 0"
  by (simp add: run.simps)

lemma vm_step_run_config:
  "vm_step (length f) (fetch_exec f pkt) c c' \<Longrightarrow> run_config f pkt c = run_config f pkt c'"
  by (induction rule: vm_step.induct) (simp_all add: run_unfold run_end)

lemma vm_steps_run_config:
  "(vm_step (length f) (fetch_exec f pkt))\<^sup>*\<^sup>* c c' \<Longrightarrow> run_config f pkt c = run_config f pkt c'"
  by (induction rule: rtranclp_induct) (auto dest: vm_step_run_config)

lemma vm_step_progress: "\<exists>c'. vm_step n fe (Running i s) c'"
proof (cases "i < n")
  case True
  then show ?thesis
  proof (cases "fe i s")
    case (Return c)
    with True show ?thesis
      by (cases c) (metis vm_step.advance vm_step.stop vm_step.return)+
  qed (blast intro: vm_step.fail vm_step.panic)+
next
  case False
  then have "n \<le> i" by simp
  then show ?thesis by (blast intro: vm_step.fall_off)
qed

lemma vm_step_pc: "vm_step n fe (Running i s) (Running j t) \<Longrightarrow> i < j \<and> i < n"
  by (auto elim: vm_step_RunningE)

lemma halts_within:
  assumes "i \<le> n"
  shows "\<exists>m r. m \<le> n - i + 1 \<and> (vm_step n fe ^^ m) (Running i s) (Halted r)"
  using assms
proof (induction "n - i" arbitrary: i s rule: less_induct)
  case less
  obtain c where step: "vm_step n fe (Running i s) c"
    using vm_step_progress [of n fe i s] by blast
  show ?case
  proof (cases c)
    case (Halted r)
    with step have "(vm_step n fe ^^ 1) (Running i s) (Halted r)"
      by (simp only: relpowp_1)
    then show ?thesis by (metis le_add2)
  next
    case (Running j t)
    with step have "i < j" "i < n" by (auto dest: vm_step_pc)
    show ?thesis
    proof (cases "j \<le> n")
      case True
      with less \<open>i < j\<close> \<open>i < n\<close> obtain m r where
        "m \<le> n - j + 1" "(vm_step n fe ^^ m) (Running j t) (Halted r)"
        by (metis diff_less_mono2)
      moreover from this step Running have "(vm_step n fe ^^ Suc m) (Running i s) (Halted r)"
        by (metis relpowp_Suc_I2)
      ultimately show ?thesis
        using \<open>i < j\<close> True by (intro exI [of _ "Suc m"] exI [of _ r]) auto
    next
      case False
      then have "vm_step n fe (Running j t) (Halted (Return 0))"
        by (intro vm_step.fall_off) simp
      with step Running have "(vm_step n fe ^^ Suc 1) (Running i s) (Halted (Return 0))"
        by (metis relpowp_1 relpowp_Suc_I2)
      then show ?thesis
        using \<open>i < n\<close> by (intro exI [of _ "Suc 1"] exI [of _ "Return 0"]) auto
    qed
  qed
qed


lemma vm_steps_pc: "(vm_step n fe ^^ m) (Running i s) (Running j t) \<Longrightarrow> i + m \<le> j"
proof (induction m arbitrary: j t)
  case (Suc m)
  then obtain c where c: "(vm_step n fe ^^ m) (Running i s) c" "vm_step n fe c (Running j t)"
    by auto
  then obtain k u where "c = Running k u"
    by (auto elim: vm_step.cases)
  with c Suc.IH [of k u] vm_step_pc [of n fe k u j t] show ?case by simp
qed simp

context checked_machine
begin

text \<open>A valid program halts after at most as many steps as it has instructions.\<close>

lemma valid_halts_within:
  assumes "valid p" "inv s"
  shows "\<exists>m r. m \<le> psize p \<and> (vm_step (psize p) (fe p pkt) ^^ m) (Running 0 s) (Halted r)"
proof -
  let ?step = "vm_step (psize p) (fe p pkt)"
  obtain m r where m: "(?step ^^ m) (Running 0 s) (Halted r)"
    using halts_within [of 0 "psize p" "fe p pkt" s] by auto
  then obtain m' where m': "m = Suc m'" by (cases m) auto
  with m obtain c where c: "(?step ^^ m') (Running 0 s) c" "?step c (Halted r)"
    by auto
  then obtain j t where j: "c = Running j t"
    by (auto elim: vm_step.cases)
  have "config_ok p c"
    using reachable_ok [OF relpowp_imp_rtranclp [OF c(1)] assms(1)] assms valid_nonempty by simp
  moreover have "0 + m' \<le> j"
    using c(1) unfolding j by (rule vm_steps_pc)
  ultimately have "m' < psize p" using j by simp
  with m m' show ?thesis by (metis Suc_leI)
qed

end

section \<open>NewVM decides validity\<close>

lemma check_instruction_iff:
  "i < n \<Longrightarrow> check_instruction (n - (i + 1)) ins = None \<longleftrightarrow> valid_at n i ins"
  by (cases ins) auto

lemma check_filter_iff:
  "i + length rest = n \<Longrightarrow>
   check_filter n i rest = None \<longleftrightarrow> (\<forall>j < length rest. valid_at n (i + j) (rest ! j))"
proof (induction rest arbitrary: i)
  case (Cons ins rest)
  then have "check_filter n (Suc i) rest = None \<longleftrightarrow>
      (\<forall>j < length rest. valid_at n (Suc i + j) (rest ! j))"
    by (metis add_Suc_shift length_Cons)
  then show ?case
    using check_instruction_iff [of i n ins] Cons.prems
    by (auto simp: less_Suc_eq_0_disj split: option.splits)
qed simp

lemma assemble_no_panic: "assemble ins \<noteq> Panic"
  by (cases ins) (auto simp: assembleLoad_def jumpToRaw_def split: if_splits prod.splits)

lemma Assemble_from_no_panic: "Assemble_from i f \<noteq> Panic"
  by (induction f arbitrary: i) (auto simp: assemble_no_panic)

lemma Assemble_ok_iff:
  "(\<exists>rs. Assemble f = Return rs) \<longleftrightarrow> list_all (\<lambda>ins. \<exists>r. assemble ins = Return r) f"
  unfolding Assemble_Return_iff by (induction f) (auto simp: list_all2_Cons1)

lemma Assemble_accepts_iff:
  "(case Assemble f of Fail e \<Rightarrow> Some (AssembleFailed e) | _ \<Rightarrow> None) = None \<longleftrightarrow>
   list_all (\<lambda>ins. \<exists>r. assemble ins = Return r) f"
  using Assemble_from_no_panic [of 0 f] unfolding Assemble_ok_iff [symmetric]
  by (cases "Assemble f") (auto simp: Assemble_def)

lemma NewVM_accepts_valid: "snd (NewVM f) = None \<longleftrightarrow> valid_program f"
  using check_filter_iff [of 0 f "length f"] Assemble_accepts_iff [of f]
  by (auto simp: NewVM_def valid_program_def split: option.splits)

lemma NewVM_machine: "NewVM f = (Some v, e) \<Longrightarrow> vm_filter v = f"
  by (auto simp: NewVM_def split: option.splits if_splits)

section \<open>Properties of the virtual machine\<close>

text \<open>C19: \<open>NewVM\<close> returns no error exactly for the valid programs.\<close>

theorem NewVM_no_error_iff:
  "NewVM f = (Some \<lparr>vm_filter = f\<rparr>, None) \<longleftrightarrow> valid_program f"
proof
  assume "valid_program f"
  then have "snd (NewVM f) = None" by (simp add: NewVM_accepts_valid)
  then obtain v where "NewVM f = (Some v, None)"
    by (auto simp: NewVM_def split: option.splits if_splits)
  with NewVM_machine [of f v None] show "NewVM f = (Some \<lparr>vm_filter = f\<rparr>, None)" by (cases v) simp
next
  assume "NewVM f = (Some \<lparr>vm_filter = f\<rparr>, None)"
  then show "valid_program f" using NewVM_accepts_valid [of f] by simp
qed

lemma run_result:
  assumes "valid_program f" "i < length f" "scratch_ok s"
  shows "(\<exists>n. run f pkt i s True = Return n \<and> 0 \<le> n \<and> n < 2 ^ 32) \<or>
    (\<exists>j < length f. run f pkt i s True = Fail (UnknownInstruction j) \<and> (f ! j = NegateA \<or> is_Raw (f ! j)))"
  using assms
proof (induction "length f - i" arbitrary: i s rule: less_induct)
  case less
  note good = exec_valid_program [OF less.prems, of pkt]
  show ?case
  proof (cases "fetch_exec f pkt i s")
    case (Return c)
    show ?thesis
    proof (cases c)
      case (Done n)
      with Return good less.prems show ?thesis by (auto simp: run_unfold exec_good_def)
    next
      case (Continue k s' ok)
      with Return less.prems have run: "run f pkt i s True = run f pkt (i + k + 1) s' ok"
        by (simp add: run_unfold)
      show ?thesis
      proof (cases ok)
        case True
        with Return Continue less.prems have "i + k + 1 < length f" "scratch_ok s'"
          using bpf_vm.exec_in_bounds [of f i s pkt k s'] bpf_vm.exec_inv [of f i s pkt k s' True]
          by simp_all
        with less.hyps [of "i + k + 1" s'] less.prems True run show ?thesis by auto
      next
        case False
        with run show ?thesis by simp
      qed
    qed
  next
    case (Fail e)
    with good less.prems show ?thesis by (auto simp: run_unfold exec_good_def)
  next
    case Panic
    with good show ?thesis by (auto simp: exec_good_def)
  qed
qed

text \<open>C18: a machine that \<open>NewVM\<close> returned without error never panics on any packet.  \<open>Run\<close> returns
  a value in the range of \<open>uint32\<close>, or the error for an instruction the machine does not implement
  (\<open>NegateA\<close> or a raw instruction) at a position of the program.\<close>

theorem Run_safe:
  assumes "NewVM f = (Some v, None)"
  shows "(\<exists>n. Run v pkt = Return n \<and> 0 \<le> n \<and> n < 2 ^ 32) \<or>
    (\<exists>i < length f. Run v pkt = Fail (UnknownInstruction i) \<and> (f ! i = NegateA \<or> is_Raw (f ! i)))"
proof -
  have "valid_program f" using assms NewVM_accepts_valid [of f] by simp
  moreover from this have "0 < length f" by (rule bpf_vm.valid_nonempty)
  moreover have "vm_filter v = f" using assms by (rule NewVM_machine)
  ultimately show ?thesis
    using run_result [of f 0 init_state pkt] by (simp add: Run_def init_state_def)
qed

lemma sample_filter_accepted: "NewVM sample_filter = (Some \<lparr>vm_filter = sample_filter\<rparr>, None)"
  by (simp add: NewVM_def sample_filter_def Assemble_def assembleLoad_def jumpToRaw_def opcode)

theorem Run_safe_witness:
  "NewVM sample_filter = (Some \<lparr>vm_filter = sample_filter\<rparr>, None) \<and>
   ((\<exists>n. Run \<lparr>vm_filter = sample_filter\<rparr> [] = Return n \<and> 0 \<le> n \<and> n < 2 ^ 32) \<or>
    (\<exists>i < length sample_filter. Run \<lparr>vm_filter = sample_filter\<rparr> [] = Fail (UnknownInstruction i) \<and>
       (sample_filter ! i = NegateA \<or> is_Raw (sample_filter ! i))))"
  using sample_filter_accepted Run_safe [OF sample_filter_accepted, of "[]"] by blast

text \<open>C20: \<open>Run\<close> computes the halting value of the transition system, and a program that \<open>NewVM\<close>
  accepted halts within as many steps as it has instructions.\<close>

theorem Run_halts_within:
  assumes "NewVM f = (Some v, None)"
  shows "\<exists>m \<le> length f.
    (vm_step (length f) (fetch_exec f pkt) ^^ m) (Running 0 init_state) (Halted (Run v pkt))"
proof -
  have v: "valid_program f" using assms NewVM_accepts_valid [of f] by simp
  have f: "vm_filter v = f" using assms by (rule NewVM_machine)
  obtain m r where m: "m \<le> length f"
    "(vm_step (length f) (fetch_exec f pkt) ^^ m) (Running 0 init_state) (Halted r)"
    using bpf_vm.valid_halts_within [OF v, of init_state pkt] by (auto simp: init_state_def)
  then have "r = Run v pkt"
    using vm_steps_run_config [OF relpowp_imp_rtranclp [OF m(2)]] by (simp add: Run_def f)
  with m show ?thesis by blast
qed

theorem Run_halts_within_witness:
  "\<exists>m \<le> length sample_filter.
    (vm_step (length sample_filter) (fetch_exec sample_filter [1, 2, 3]) ^^ m) (Running 0 init_state)
      (Halted (Run \<lparr>vm_filter = sample_filter\<rparr> [1, 2, 3]))"
  by (rule Run_halts_within [OF sample_filter_accepted])

text \<open>C21: in every reachable state of an accepted program the program counter is inside the program
  and the scratch memory has its sixteen slots.\<close>

theorem Run_stays_in_program:
  assumes "NewVM f = (Some v, None)"
    and "(vm_step (length f) (fetch_exec f pkt))\<^sup>*\<^sup>* (Running 0 init_state) (Running i s)"
  shows "i < length f \<and> length (regScratch s) = 16"
proof -
  have v: "valid_program f" using assms(1) NewVM_accepts_valid [of f] by simp
  then have "bpf_vm.config_ok f (Running 0 init_state)"
    using bpf_vm.valid_nonempty by (simp add: init_state_def)
  from bpf_vm.reachable_ok [OF assms(2) v this] show ?thesis by simp
qed

theorem Run_stays_in_program_witness:
  "\<exists>s. (vm_step (length sample_filter) (fetch_exec sample_filter (replicate 14 0)))\<^sup>*\<^sup>*
      (Running 0 init_state) (Running 1 s) \<and>
    1 < length sample_filter \<and> length (regScratch s) = 16"
proof -
  let ?pkt = "replicate 14 (0 :: byte)"
  have "fetch_exec sample_filter ?pkt 0 init_state = Return (Continue 0 (init_state\<lparr>regA := 0\<rparr>) True)"
    by (simp add: sample_filter_def loadAbsolute_def loadCommon_def inBounds_def)
  from vm_step.advance [of 0 "length sample_filter" "fetch_exec sample_filter ?pkt", OF _ this]
  have "vm_step (length sample_filter) (fetch_exec sample_filter ?pkt) (Running 0 init_state)
      (Running 1 (init_state\<lparr>regA := 0\<rparr>))"
    by (simp add: sample_filter_def)
  then have reach: "(vm_step (length sample_filter) (fetch_exec sample_filter ?pkt))\<^sup>*\<^sup>* (Running 0 init_state)
      (Running 1 (init_state\<lparr>regA := 0\<rparr>))"
    by blast
  from reach Run_stays_in_program [OF sample_filter_accepted reach] show ?thesis by blast
qed

section \<open>Assembling preserves behaviour\<close>

lemma jump_flip:
  assumes "cond \<in> positive_tests \<union> negative_tests" "operand \<in> {opOperandConstant, opOperandX}"
  shows "\<exists>r cond' st' sf'. jumpToRaw cond operand k st sf = Return r \<and>
    disassemble r = Return (if operand = opOperandX then JumpIfX cond' st' sf' else JumpIf cond' k st' sf') \<and>
    (\<forall>a v. jumpIfCommon cond' st' sf' a v = jumpIfCommon cond st sf a v)"
proof -
  have "cond \<in> {0, 1, 2, 3, 4, 5, 6, 7}"
    using assms(1) by (auto simp: instr_sets opcode)
  then show ?thesis
    using assms(2) unfolding insert_iff empty_iff
    by (elim disjE; cases "st = 0"; cases "sf = 0";
        simp add: jumpToRaw_def disassemble_defs jumpIfCommon_def opcode; auto)
qed


lemma encodable_round_trip:
  assumes "encodable ins"
  shows "\<exists>r j. assemble ins = Return r \<and> disassemble r = Return j \<and> \<not> is_Raw j \<and>
    (\<forall>i pkt s. exec i j pkt s = exec i ins pkt s)"
proof -
  consider (jump) cond val st sf where "ins = JumpIf cond val st sf"
    | (jumpx) cond st sf where "ins = JumpIfX cond st sf"
    | (plain) "canonical ins" "\<not> is_Raw ins"
    using assms by (cases ins) simp_all
  then show ?thesis
  proof cases
    case jump
    with assms jump_flip [of cond opOperandConstant val st sf] show ?thesis
      by (auto simp: opcode jumpIf_def)
  next
    case jumpx
    with assms jump_flip [of cond opOperandX 0 st sf] show ?thesis
      by (auto simp: jumpIfX_def)
  next
    case plain
    from plain(1) obtain r where "assemble ins = Return r" "disassemble r = Return ins"
      by (rule bpf_asm.asm_disasmE)
    with plain(2) show ?thesis by blast
  qed
qed

lemma encodable_program:
  assumes "list_all encodable f"
  shows "\<exists>raw g. list_all2 (\<lambda>ins r. assemble ins = Return r) f raw \<and>
    list_all2 (\<lambda>r j. disassemble r = Return j) raw g \<and> list_all (\<lambda>j. \<not> is_Raw j) g \<and>
    list_all2 (\<lambda>ins j. \<forall>i pkt s. exec i j pkt s = exec i ins pkt s) f g"
  using assms
proof (induction f)
  case (Cons ins f)
  then obtain raw g where "list_all2 (\<lambda>ins r. assemble ins = Return r) f raw"
    "list_all2 (\<lambda>r j. disassemble r = Return j) raw g" "list_all (\<lambda>j. \<not> is_Raw j) g"
    "list_all2 (\<lambda>ins j. \<forall>i pkt s. exec i j pkt s = exec i ins pkt s) f g" by auto
  moreover from Cons.prems obtain r j where "assemble ins = Return r" "disassemble r = Return j"
    "\<not> is_Raw j" "\<forall>i pkt s. exec i j pkt s = exec i ins pkt s"
    using encodable_round_trip [of ins] by auto
  ultimately show ?case
    by (intro exI [of _ "r # raw"] exI [of _ "j # g"]) simp
qed simp

lemma run_cong:
  assumes eq: "list_all2 (\<lambda>ins j. \<forall>i pkt s. exec i j pkt s = exec i ins pkt s) f g"
  shows "run g pkt i s ok = run f pkt i s ok"
proof (induction "length f - i" arbitrary: i s ok rule: less_induct)
  case less
  note len = list_all2_lengthD [OF eq]
  show ?case
  proof (cases "i < length f \<and> ok")
    case True
    then have "exec i (g ! i) pkt s = exec i (f ! i) pkt s"
      using list_all2_nthD [OF eq] by blast
    moreover have "run g pkt (i + k + 1) = run f pkt (i + k + 1)" for k
      using True by (intro ext less) auto
    ultimately show ?thesis
      using len by (simp only: run.simps [of f pkt i s ok] run.simps [of g pkt i s ok])
  next
    case False
    with len show ?thesis
      by (simp only: run.simps [of f pkt i s ok] run.simps [of g pkt i s ok] if_False)
  qed
qed

text \<open>C22: assembling an encodable program and disassembling the result gives a program that runs
  identically on every packet.\<close>

theorem Assemble_preserves_Run:
  assumes "list_all encodable f"
  shows "\<exists>raw g. Assemble f = Return raw \<and> Disassemble raw = Return (g, True) \<and>
    (\<forall>pkt. Run \<lparr>vm_filter = g\<rparr> pkt = Run \<lparr>vm_filter = f\<rparr> pkt)"
proof -
  obtain raw g where "list_all2 (\<lambda>ins r. assemble ins = Return r) f raw"
    "list_all2 (\<lambda>r j. disassemble r = Return j) raw g" "list_all (\<lambda>j. \<not> is_Raw j) g"
    and eq: "list_all2 (\<lambda>ins j. \<forall>i pkt s. exec i j pkt s = exec i ins pkt s) f g"
    using encodable_program [OF assms] by blast
  then have "Assemble f = Return raw" "Disassemble raw = Return (g, True)"
    by (simp_all add: Assemble_Return_iff Disassemble_Return_iff)
  with run_cong [OF eq] show ?thesis by (auto simp: Run_def)
qed

theorem Assemble_preserves_Run_witness:
  "\<exists>raw g. Assemble [JumpIf JumpEqual 5 0 1, RetConstant 1, RetConstant 2] = Return raw \<and>
    Disassemble raw = Return (g, True) \<and>
    (\<forall>pkt. Run \<lparr>vm_filter = g\<rparr> pkt =
       Run \<lparr>vm_filter = [JumpIf JumpEqual 5 0 1, RetConstant 1, RetConstant 2]\<rparr> pkt)"
  by (rule Assemble_preserves_Run) (simp add: positive_tests_def)

end
