(* ===== verification/BPF_Print.thy ===== *)
theory BPF_Print
  imports BPF_VM
begin

text \<open>
  The \<open>String\<close> methods of \<open>src/bpf/instructions.go\<close>.  \<open>RawInstruction\<close> has no such method, so
  \<open>String\<close> is partial.  The theory shows that the printed form of a negated conditional jump omits
  its false branch, so it does not determine the instruction.
\<close>

definition dec_word :: "'a::len word \<Rightarrow> string" where
  "dec_word w = dec (unat w)"

definition hex_word :: "'a::len word \<Rightarrow> string" where
  "hex_word w = hex_v (unat w)"

definition unknown_instruction :: "string \<Rightarrow> string \<Rightarrow> string" where
  "unknown_instruction ty fs = ''unknown instruction: bpf.'' @ ty @ ''{'' @ fs @ ''}''"

definition conditionalJump :: "string \<Rightarrow> u8 \<Rightarrow> u8 \<Rightarrow> string \<Rightarrow> string \<Rightarrow> string" where
  "conditionalJump operand skipTrue skipFalse positiveJump negativeJump =
     (if skipTrue > 0 then
        (if skipFalse > 0
         then positiveJump @ '' '' @ operand @ '','' @ dec_word skipTrue @ '','' @ dec_word skipFalse
         else positiveJump @ '' '' @ operand @ '','' @ dec_word skipTrue)
      else negativeJump @ '' '' @ operand @ '','' @ dec_word skipFalse)"

definition jumpBitsSet_string :: "string \<Rightarrow> u8 \<Rightarrow> u8 \<Rightarrow> string" where
  "jumpBitsSet_string operand skipTrue skipFalse =
     (if skipFalse > 0
      then ''jset '' @ operand @ '','' @ dec_word skipTrue @ '','' @ dec_word skipFalse
      else ''jset '' @ operand @ '','' @ dec_word skipTrue)"

text \<open>The recursive call for \<open>JumpBitsNotSet\<close> always takes the \<open>JumpBitsSet\<close> branch.\<close>

definition jumpToString :: "JumpTest \<Rightarrow> string \<Rightarrow> u8 \<Rightarrow> u8 \<Rightarrow> string" where
  "jumpToString cond operand skipTrue skipFalse =
     (if cond = JumpEqual then conditionalJump operand skipTrue skipFalse ''jeq'' ''jneq''
      else if cond = JumpNotEqual then ''jneq '' @ operand @ '','' @ dec_word skipTrue
      else if cond = JumpGreaterThan then conditionalJump operand skipTrue skipFalse ''jgt'' ''jle''
      else if cond = JumpLessThan then ''jlt '' @ operand @ '','' @ dec_word skipTrue
      else if cond = JumpGreaterOrEqual then conditionalJump operand skipTrue skipFalse ''jge'' ''jlt''
      else if cond = JumpLessOrEqual then ''jle '' @ operand @ '','' @ dec_word skipTrue
      else if cond = JumpBitsSet then jumpBitsSet_string operand skipTrue skipFalse
      else if cond = JumpBitsNotSet then jumpBitsSet_string operand skipFalse skipTrue
      else ''unknown JumpTest '' @ hex_word cond)"

definition LoadExtension_String :: "Extension \<Rightarrow> string" where
  "LoadExtension_String num =
     (if num = ExtLen then ''ld #len''
      else if num = ExtProto then ''ld #proto''
      else if num = ExtType then ''ld #type''
      else if num = ExtPayloadOffset then ''ld #poff''
      else if num = ExtInterfaceIndex then ''ld #ifidx''
      else if num = ExtNetlinkAttr then ''ld #nla''
      else if num = ExtNetlinkAttrNested then ''ld #nlan''
      else if num = ExtMark then ''ld #mark''
      else if num = ExtQueue then ''ld #queue''
      else if num = ExtLinkLayerType then ''ld #hatype''
      else if num = ExtRXHash then ''ld #rxhash''
      else if num = ExtCPUID then ''ld #cpu''
      else if num = ExtVLANTag then ''ld #vlan_tci''
      else if num = ExtVLANTagPresent then ''ld #vlan_avail''
      else if num = ExtVLANProto then ''ld #vlan_tpid''
      else if num = ExtRand then ''ld #rand''
      else unknown_instruction ''LoadExtension'' (''Num:'' @ dec_int num))"

definition alu_mnemonic :: "ALUOp \<Rightarrow> string option" where
  "alu_mnemonic op =
     (if op = ALUOpAdd then Some ''add''
      else if op = ALUOpSub then Some ''sub''
      else if op = ALUOpMul then Some ''mul''
      else if op = ALUOpDiv then Some ''div''
      else if op = ALUOpMod then Some ''mod''
      else if op = ALUOpAnd then Some ''and''
      else if op = ALUOpOr then Some ''or''
      else if op = ALUOpXor then Some ''xor''
      else if op = ALUOpShiftLeft then Some ''lsh''
      else if op = ALUOpShiftRight then Some ''rsh''
      else None)"

definition LoadConstant_String :: "Register \<Rightarrow> u32 \<Rightarrow> string" where
  [simp]: "LoadConstant_String dst val =
     (if dst = RegA then ''ld #'' @ dec_word val
      else if dst = RegX then ''ldx #'' @ dec_word val
      else unknown_instruction ''LoadConstant'' (''Dst:'' @ hex_word dst @ '', Val:'' @ hex_word val))"

definition LoadScratch_String :: "Register \<Rightarrow> int \<Rightarrow> string" where
  [simp]: "LoadScratch_String dst n =
     (if dst = RegA then ''ld M['' @ dec_int n @ '']''
      else if dst = RegX then ''ldx M['' @ dec_int n @ '']''
      else unknown_instruction ''LoadScratch'' (''Dst:'' @ hex_word dst @ '', N:'' @ dec_int n))"

definition LoadAbsolute_String :: "u32 \<Rightarrow> int \<Rightarrow> string" where
  [simp]: "LoadAbsolute_String off sz =
     (if sz = 1 then ''ldb ['' @ dec_word off @ '']''
      else if sz = 2 then ''ldh ['' @ dec_word off @ '']''
      else if sz = 4 then
        (if uint off > extOffset + 0xffffffff
         then LoadExtension_String (uint (off + 0x1000))
         else ''ld ['' @ dec_word off @ '']'')
      else unknown_instruction ''LoadAbsolute'' (''Off:'' @ hex_word off @ '', Size:'' @ dec_int sz))"

definition LoadIndirect_String :: "u32 \<Rightarrow> int \<Rightarrow> string" where
  [simp]: "LoadIndirect_String off sz =
     (if sz = 1 then ''ldb [x + '' @ dec_word off @ '']''
      else if sz = 2 then ''ldh [x + '' @ dec_word off @ '']''
      else if sz = 4 then ''ld [x + '' @ dec_word off @ '']''
      else unknown_instruction ''LoadIndirect'' (''Off:'' @ hex_word off @ '', Size:'' @ dec_int sz))"

definition LoadMemShift_String :: "u32 \<Rightarrow> string" where
  [simp]: "LoadMemShift_String off =
     (''ldx 4*(['' @ dec_word off @ '']&0xf)'')"

definition StoreScratch_String :: "Register \<Rightarrow> int \<Rightarrow> string" where
  [simp]: "StoreScratch_String src n =
     (if src = RegA then ''st M['' @ dec_int n @ '']''
      else if src = RegX then ''stx M['' @ dec_int n @ '']''
      else unknown_instruction ''StoreScratch'' (''Src:'' @ hex_word src @ '', N:'' @ dec_int n))"

definition ALUOpConstant_String :: "ALUOp \<Rightarrow> u32 \<Rightarrow> string" where
  [simp]: "ALUOpConstant_String op val =
     (case alu_mnemonic op of
        Some m \<Rightarrow> m @ '' #'' @ dec_word val
      | None \<Rightarrow> unknown_instruction ''ALUOpConstant'' (''Op:'' @ hex_word op @ '', Val:'' @ hex_word val))"

definition ALUOpX_String :: "ALUOp \<Rightarrow> string" where
  [simp]: "ALUOpX_String op =
     (case alu_mnemonic op of
        Some m \<Rightarrow> m @ '' x''
      | None \<Rightarrow> unknown_instruction ''ALUOpX'' (''Op:'' @ hex_word op))"

definition NegateA_String :: "string" where
  [simp]: "NegateA_String =
     ''neg''"

definition Jump_String :: "u32 \<Rightarrow> string" where
  [simp]: "Jump_String skip =
     (''ja '' @ dec_word skip)"

definition JumpIf_String :: "JumpTest \<Rightarrow> u32 \<Rightarrow> u8 \<Rightarrow> u8 \<Rightarrow> string" where
  [simp]: "JumpIf_String cond val st sf =
     (jumpToString cond (''#'' @ dec_word val) st sf)"

definition JumpIfX_String :: "JumpTest \<Rightarrow> u8 \<Rightarrow> u8 \<Rightarrow> string" where
  [simp]: "JumpIfX_String cond st sf =
     (jumpToString cond ''x'' st sf)"

definition RetA_String :: "string" where
  [simp]: "RetA_String =
     ''ret a''"

definition RetConstant_String :: "u32 \<Rightarrow> string" where
  [simp]: "RetConstant_String val =
     (''ret #'' @ dec_word val)"

definition TXA_String :: "string" where
  [simp]: "TXA_String =
     ''txa''"

definition TAX_String :: "string" where
  [simp]: "TAX_String =
     ''tax''"

text \<open>Calling \<open>String\<close> on an instruction that has the method.\<close>

fun String :: "Instruction \<Rightarrow> string option" where
  "String (Raw ri) = None"
| "String (LoadConstant dst val) = Some (LoadConstant_String dst val)"
| "String (LoadScratch dst n) = Some (LoadScratch_String dst n)"
| "String (LoadAbsolute off sz) = Some (LoadAbsolute_String off sz)"
| "String (LoadIndirect off sz) = Some (LoadIndirect_String off sz)"
| "String (LoadMemShift off) = Some (LoadMemShift_String off)"
| "String (LoadExtension num) = Some (LoadExtension_String num)"
| "String (StoreScratch src n) = Some (StoreScratch_String src n)"
| "String (ALUOpConstant op val) = Some (ALUOpConstant_String op val)"
| "String (ALUOpX op) = Some (ALUOpX_String op)"
| "String NegateA = Some NegateA_String"
| "String (Jump skip) = Some (Jump_String skip)"
| "String (JumpIf cond val st sf) = Some (JumpIf_String cond val st sf)"
| "String (JumpIfX cond st sf) = Some (JumpIfX_String cond st sf)"
| "String RetA = Some RetA_String"
| "String (RetConstant val) = Some (RetConstant_String val)"
| "String TXA = Some TXA_String"
| "String TAX = Some TAX_String"

text \<open>The tests printed without \<open>conditionalJump\<close>, and when a jump with one of them takes its true branch.\<close>

definition negated_tests :: "JumpTest set" where
  "negated_tests = {JumpNotEqual, JumpLessThan, JumpLessOrEqual}"

definition negated_holds :: "JumpTest \<Rightarrow> u32 \<Rightarrow> u32 \<Rightarrow> bool" where
  "negated_holds cond a v \<longleftrightarrow> (if cond = JumpNotEqual then a \<noteq> v else if cond = JumpLessThan then a < v else a \<le> v)"

lemma jumpToString_negated: "cond \<in> negated_tests \<Longrightarrow> jumpToString cond operand st sf = jumpToString cond operand st sf'"
  by (auto simp: negated_tests_def jumpToString_def opcode)

lemma jumpIfCommon_negated:
  "cond \<in> negated_tests \<Longrightarrow> jumpIfCommon cond st sf a v = unat (if negated_holds cond a v then st else sf)"
  by (auto simp: negated_tests_def negated_holds_def jumpIfCommon_def opcode)

text \<open>C34: the printed form does not determine the instruction.  For the tests not equal, less than and less or equal, against a
  constant as well as against register X, two jumps that differ in the false branch print the same, but
  they continue at different instructions in every state in which the test fails.\<close>

theorem String_ambiguous:
  assumes "cond \<in> negated_tests" and "sf \<noteq> sf'"
  shows "String (JumpIf cond val st sf) = String (JumpIf cond val st sf') \<and> String (JumpIfX cond st sf) = String (JumpIfX cond st sf') \<and>
    (exec i (JumpIf cond val st sf) pkt s = exec i (JumpIf cond val st sf') pkt s \<longleftrightarrow> negated_holds cond (regA s) val) \<and>
    (exec i (JumpIfX cond st sf) pkt s = exec i (JumpIfX cond st sf') pkt s \<longleftrightarrow> negated_holds cond (regA s) (regX s))"
proof -
  have "unat sf \<noteq> unat sf'" using assms(2) by (simp add: word_unat_eq_iff)
  then show ?thesis using jumpToString_negated [OF assms(1), of _ st sf sf']
    by (simp add: jumpIf_def jumpIfX_def jumpIfCommon_negated [OF assms(1)])
qed

theorem String_ambiguous_witness:
  "String (JumpIf JumpLessThan 7 1 2) = String (JumpIf JumpLessThan 7 1 3) \<and>
   exec 0 (JumpIf JumpLessThan 7 1 2) [] (init_state\<lparr>regA := 9\<rparr>) \<noteq> exec 0 (JumpIf JumpLessThan 7 1 3) [] (init_state\<lparr>regA := 9\<rparr>) \<and>
   exec 0 (JumpIf JumpLessThan 7 1 2) [] (init_state\<lparr>regA := 5\<rparr>) = exec 0 (JumpIf JumpLessThan 7 1 3) [] (init_state\<lparr>regA := 5\<rparr>)"
proof -
  note ambiguous = String_ambiguous [of JumpLessThan 2 3 7 1 0 "[]"]
  show ?thesis using ambiguous [of "init_state\<lparr>regA := 9\<rparr>"] ambiguous [of "init_state\<lparr>regA := 5\<rparr>"]
    by (simp add: negated_tests_def negated_holds_def opcode)
qed

end
