(* ===== verification/DNS_Wire.thy ===== *)
theory DNS_Wire
  imports Prelude
begin

text \<open>
  The base layer of \<open>src/dns/dnsmessage/message.go\<close>: types, constants and errors of the package,
  the fixed-width and counted-string fields (\<open>packUint16\<close>, \<open>unpackUint32\<close>, \<open>packText\<close>, ...) and the
  message header in its structured form (\<open>Header\<close>) and its wire form (\<open>header\<close>).

  Every field format interprets the locale \<open>codec\<close> (or \<open>skip_codec\<close> where the package has a skip
  function), so that the layers above reason with \<open>found_at\<close> and the wire layouts only.  The last
  part shows that \<open>Header\<close> survives the translation to the 16 header bits and back.
\<close>

section \<open>Types and constants\<close>

type_synonym Type = u16
type_synonym Class = u16
type_synonym OpCode = u16
type_synonym RCode = u16

named_theorems dns_const \<open>numeric constants of dnsmessage\<close>

definition TypeA :: Type where [dns_const]: "TypeA = 1"
definition TypeNS :: Type where [dns_const]: "TypeNS = 2"
definition TypeCNAME :: Type where [dns_const]: "TypeCNAME = 5"
definition TypeSOA :: Type where [dns_const]: "TypeSOA = 6"
definition TypePTR :: Type where [dns_const]: "TypePTR = 12"
definition TypeMX :: Type where [dns_const]: "TypeMX = 15"
definition TypeTXT :: Type where [dns_const]: "TypeTXT = 16"
definition TypeAAAA :: Type where [dns_const]: "TypeAAAA = 28"
definition TypeSRV :: Type where [dns_const]: "TypeSRV = 33"
definition TypeOPT :: Type where [dns_const]: "TypeOPT = 41"
definition TypeWKS :: Type where [dns_const]: "TypeWKS = 11"
definition TypeHINFO :: Type where [dns_const]: "TypeHINFO = 13"
definition TypeMINFO :: Type where [dns_const]: "TypeMINFO = 14"
definition TypeAXFR :: Type where [dns_const]: "TypeAXFR = 252"
definition TypeALL :: Type where [dns_const]: "TypeALL = 255"

definition ClassINET :: Class where [dns_const]: "ClassINET = 1"
definition ClassCSNET :: Class where [dns_const]: "ClassCSNET = 2"
definition ClassCHAOS :: Class where [dns_const]: "ClassCHAOS = 3"
definition ClassHESIOD :: Class where [dns_const]: "ClassHESIOD = 4"
definition ClassANY :: Class where [dns_const]: "ClassANY = 255"

definition RCodeSuccess :: RCode where [dns_const]: "RCodeSuccess = 0"
definition RCodeFormatError :: RCode where [dns_const]: "RCodeFormatError = 1"
definition RCodeServerFailure :: RCode where [dns_const]: "RCodeServerFailure = 2"
definition RCodeNameError :: RCode where [dns_const]: "RCodeNameError = 3"
definition RCodeNotImplemented :: RCode where [dns_const]: "RCodeNotImplemented = 4"
definition RCodeRefused :: RCode where [dns_const]: "RCodeRefused = 5"

definition headerBitQR :: u16 where [dns_const]: "headerBitQR = push_bit 15 1"
definition headerBitAA :: u16 where [dns_const]: "headerBitAA = push_bit 10 1"
definition headerBitTC :: u16 where [dns_const]: "headerBitTC = push_bit 9 1"
definition headerBitRD :: u16 where [dns_const]: "headerBitRD = push_bit 8 1"
definition headerBitRA :: u16 where [dns_const]: "headerBitRA = push_bit 7 1"
definition headerBitAD :: u16 where [dns_const]: "headerBitAD = push_bit 5 1"
definition headerBitCD :: u16 where [dns_const]: "headerBitCD = push_bit 4 1"

definition uint16Len :: nat where [dns_const]: "uint16Len = 2"
definition uint32Len :: nat where [dns_const]: "uint32Len = 4"
definition headerLen :: nat where [dns_const]: "headerLen = 6 * uint16Len"
definition nameLen :: nat where [dns_const]: "nameLen = 255"

text \<open>\<open>int(^uint16(0))\<close>, the largest section count and resource length.\<close>

definition maxUint16 :: nat where [dns_const]: "maxUint16 = 65535"

section \<open>Errors\<close>

datatype dns_error =
    ErrNotStarted | ErrSectionDone
  | errBaseLen | errCalcLen | errReserved | errTooManyPtr | errInvalidPtr | errNilResouceBody
  | errResourceLen | errSegTooLong | errZeroSegLen | errResTooLong
  | errTooManyQuestions | errTooManyAnswers | errTooManyAuthorities | errTooManyAdditionals
  | errNonCanonicalName | errStringTooLong | errCompressedSRV
  | nestedError string dns_error

type_synonym 'a dns = "(dns_error, 'a) outcome"

fun Error :: "dns_error \<Rightarrow> string" where
  "Error ErrNotStarted = ''parsing/packing of this type isn''@ [CHR 0x27] @ ''t available yet''"
| "Error ErrSectionDone = ''parsing/packing of this section has completed''"
| "Error errBaseLen = ''insufficient data for base length type''"
| "Error errCalcLen = ''insufficient data for calculated length type''"
| "Error errReserved = ''segment prefix is reserved''"
| "Error errTooManyPtr = ''too many pointers (>10)''"
| "Error errInvalidPtr = ''invalid pointer''"
| "Error errNilResouceBody = ''nil resource body''"
| "Error errResourceLen = ''insufficient data for resource body length''"
| "Error errSegTooLong = ''segment length too long''"
| "Error errZeroSegLen = ''zero length segment''"
| "Error errResTooLong = ''resource length too long''"
| "Error errTooManyQuestions = ''too many Questions to pack (>65535)''"
| "Error errTooManyAnswers = ''too many Answers to pack (>65535)''"
| "Error errTooManyAuthorities = ''too many Authorities to pack (>65535)''"
| "Error errTooManyAdditionals = ''too many Additionals to pack (>65535)''"
| "Error errNonCanonicalName = ''name is not in canonical format (it must end with a .)''"
| "Error errStringTooLong = ''character string exceeds maximum length (255)''"
| "Error errCompressedSRV = ''compressed name in SRV resource data''"
| "Error (nestedError s err) = s @ '': '' @ Error err"

section \<open>Fields\<close>

definition packUint16 :: "bytes \<Rightarrow> u16 \<Rightarrow> bytes" where
  "packUint16 msg field = msg @ [ucast (drop_bit 8 field), ucast field]"

definition unpackUint16 :: "bytes \<Rightarrow> nat \<Rightarrow> (u16 \<times> nat) dns" where
  "unpackUint16 msg off =
     (if off + uint16Len > length msg then Fail errBaseLen
      else bind_outcome (go_index msg off) (\<lambda>b0. bind_outcome (go_index msg (off + 1)) (\<lambda>b1.
           Return (push_bit 8 (ucast b0) OR ucast b1, off + uint16Len))))"

definition skipUint16 :: "bytes \<Rightarrow> nat \<Rightarrow> nat dns" where
  "skipUint16 msg off =
     (if off + uint16Len > length msg then Fail errBaseLen else Return (off + uint16Len))"

definition packType :: "bytes \<Rightarrow> Type \<Rightarrow> bytes" where
  "packType msg field = packUint16 msg field"

definition unpackType :: "bytes \<Rightarrow> nat \<Rightarrow> (Type \<times> nat) dns" where
  "unpackType msg off = unpackUint16 msg off"

definition skipType :: "bytes \<Rightarrow> nat \<Rightarrow> nat dns" where
  "skipType msg off = skipUint16 msg off"

definition packClass :: "bytes \<Rightarrow> Class \<Rightarrow> bytes" where
  "packClass msg field = packUint16 msg field"

definition unpackClass :: "bytes \<Rightarrow> nat \<Rightarrow> (Class \<times> nat) dns" where
  "unpackClass msg off = unpackUint16 msg off"

definition skipClass :: "bytes \<Rightarrow> nat \<Rightarrow> nat dns" where
  "skipClass msg off = skipUint16 msg off"

definition packUint32 :: "bytes \<Rightarrow> u32 \<Rightarrow> bytes" where
  "packUint32 msg field =
     msg @ [ucast (drop_bit 24 field), ucast (drop_bit 16 field), ucast (drop_bit 8 field), ucast field]"

definition unpackUint32 :: "bytes \<Rightarrow> nat \<Rightarrow> (u32 \<times> nat) dns" where
  "unpackUint32 msg off =
     (if off + uint32Len > length msg then Fail errBaseLen
      else bind_outcome (go_index msg off) (\<lambda>b0. bind_outcome (go_index msg (off + 1)) (\<lambda>b1.
           bind_outcome (go_index msg (off + 2)) (\<lambda>b2. bind_outcome (go_index msg (off + 3)) (\<lambda>b3.
           Return (push_bit 24 (ucast b0) OR push_bit 16 (ucast b1) OR push_bit 8 (ucast b2) OR ucast b3,
             off + uint32Len))))))"

definition skipUint32 :: "bytes \<Rightarrow> nat \<Rightarrow> nat dns" where
  "skipUint32 msg off =
     (if off + uint32Len > length msg then Fail errBaseLen else Return (off + uint32Len))"

text \<open>A Go string is a byte sequence.\<close>

definition packText :: "bytes \<Rightarrow> bytes \<Rightarrow> bytes dns" where
  "packText msg field =
     (let l = length field in
      if l > 255 then Fail errStringTooLong else Return ((msg @ [of_nat l]) @ field))"

definition unpackText :: "bytes \<Rightarrow> nat \<Rightarrow> (bytes \<times> nat) dns" where
  "unpackText msg off =
     (if off \<ge> length msg then Fail errBaseLen
      else bind_outcome (go_index msg off) (\<lambda>b.
        let beginOff = off + 1; endOff = beginOff + unat b in
        if endOff > length msg then Fail errCalcLen
        else bind_outcome (go_slice msg beginOff endOff) (\<lambda>t. Return (t, endOff))))"

definition packBytes :: "bytes \<Rightarrow> bytes \<Rightarrow> bytes" where
  "packBytes msg field = msg @ field"

text \<open>\<open>unpackBytes\<close> fills a slice of \<open>n\<close> bytes; the result is the filled slice.\<close>

definition unpackBytes :: "bytes \<Rightarrow> nat \<Rightarrow> nat \<Rightarrow> (bytes \<times> nat) dns" where
  "unpackBytes msg off n =
     (let newOff = off + n in
      if newOff > length msg then Fail errBaseLen
      else bind_outcome (go_slice msg off newOff) (\<lambda>field. Return (field, newOff)))"

section \<open>The message header\<close>

record Header =
  ID :: u16
  Response :: bool
  OpCode :: OpCode
  Authoritative :: bool
  Truncated :: bool
  RecursionDesired :: bool
  RecursionAvailable :: bool
  AuthenticData :: bool
  CheckingDisabled :: bool
  RCode :: RCode

definition Header_pack :: "Header \<Rightarrow> u16 \<times> u16" where
  "Header_pack m =
     (let bits = push_bit 11 (OpCode m) OR RCode m;
          bits = (if RecursionAvailable m then bits OR headerBitRA else bits);
          bits = (if RecursionDesired m then bits OR headerBitRD else bits);
          bits = (if Truncated m then bits OR headerBitTC else bits);
          bits = (if Authoritative m then bits OR headerBitAA else bits);
          bits = (if Response m then bits OR headerBitQR else bits);
          bits = (if AuthenticData m then bits OR headerBitAD else bits);
          bits = (if CheckingDisabled m then bits OR headerBitCD else bits)
      in (ID m, bits))"

record header =
  hid :: u16
  bits :: u16
  questions :: u16
  answers :: u16
  authorities :: u16
  additionals :: u16

definition header_pack :: "header \<Rightarrow> bytes \<Rightarrow> bytes" where
  "header_pack h msg =
     (let msg = packUint16 msg (hid h);
          msg = packUint16 msg (bits h);
          msg = packUint16 msg (questions h);
          msg = packUint16 msg (answers h);
          msg = packUint16 msg (authorities h)
      in packUint16 msg (additionals h))"

text \<open>\<open>h.id, newOff, err = unpackUint16(msg, newOff)\<close> assigns the field even when the read fails,
  and then assigns zero.\<close>

definition unpack_field ::
    "(u16 \<Rightarrow> header \<Rightarrow> header) \<Rightarrow> string \<Rightarrow> bytes \<Rightarrow> nat \<Rightarrow> (header, dns_error, nat) meth" where
  "unpack_field upd s msg off h =
     (case unpackUint16 msg off of
        Return (v, newOff) \<Rightarrow> (Return newOff, upd v h)
      | Fail err \<Rightarrow> (Fail (nestedError s err), upd 0 h)
      | Panic \<Rightarrow> (Panic, h))"

definition header_unpack :: "bytes \<Rightarrow> nat \<Rightarrow> (header, dns_error, nat) meth" where
  "header_unpack msg off =
     bind_meth (unpack_field (\<lambda>v. hid_update (\<lambda>_. v)) ''id'' msg off) (\<lambda>newOff.
     bind_meth (unpack_field (\<lambda>v. bits_update (\<lambda>_. v)) ''bits'' msg newOff) (\<lambda>newOff.
     bind_meth (unpack_field (\<lambda>v. questions_update (\<lambda>_. v)) ''questions'' msg newOff) (\<lambda>newOff.
     bind_meth (unpack_field (\<lambda>v. answers_update (\<lambda>_. v)) ''answers'' msg newOff) (\<lambda>newOff.
     bind_meth (unpack_field (\<lambda>v. authorities_update (\<lambda>_. v)) ''authorities'' msg newOff) (\<lambda>newOff.
     unpack_field (\<lambda>v. additionals_update (\<lambda>_. v)) ''additionals'' msg newOff)))))"

definition header_header :: "header \<Rightarrow> Header" where
  "header_header h =
     \<lparr>ID = hid h,
      Response = bits h AND headerBitQR \<noteq> 0,
      OpCode = drop_bit 11 (bits h) AND 0xF,
      Authoritative = bits h AND headerBitAA \<noteq> 0,
      Truncated = bits h AND headerBitTC \<noteq> 0,
      RecursionDesired = bits h AND headerBitRD \<noteq> 0,
      RecursionAvailable = bits h AND headerBitRA \<noteq> 0,
      AuthenticData = bits h AND headerBitAD \<noteq> 0,
      CheckingDisabled = bits h AND headerBitCD \<noteq> 0,
      RCode = bits h AND 0xF\<rparr>"

section \<open>Wire layouts\<close>

definition wireText :: "bytes \<Rightarrow> bytes" where
  "wireText t = of_nat (length t) # t"

definition wireHeader :: "header \<Rightarrow> bytes" where
  "wireHeader h = wire16 (hid h) @ wire16 (bits h) @ wire16 (questions h) @
     wire16 (answers h) @ wire16 (authorities h) @ wire16 (additionals h)"

lemma length_wireText [simp]: "length (wireText t) = Suc (length t)"
  by (simp add: wireText_def)

lemma length_wireHeader [simp]: "length (wireHeader h) = 12"
  by (simp add: wireHeader_def)

lemma unpackUint16_wire: "found_at msg off (wire16 v) \<Longrightarrow> unpackUint16 msg off = Return (v, off + 2)"
  by (auto simp: unpackUint16_def wire16_def dns_const wire_simps join16)

lemma unpackUint32_wire: "found_at msg off (wire32 v) \<Longrightarrow> unpackUint32 msg off = Return (v, off + 4)"
  by (auto simp: unpackUint32_def wire32_def dns_const wire_simps numeral_2_eq_2 numeral_3_eq_3 join32)

lemma unpackUint32_sound:
  "unpackUint32 msg off = Return (v, off') \<Longrightarrow> found_at msg off (wire32 v) \<and> off' = off + 4"
  by (auto simp: unpackUint32_def dns_const wire_simps numeral_2_eq_2 numeral_3_eq_3 split: if_splits)

interpretation u16c: skip_codec wire16 "\<lambda>_. True" "\<lambda>msg v. Return (packUint16 msg v) :: bytes dns"
  unpackUint16 skipUint16
proof unfold_locales
  show "(Return (packUint16 msg v) :: bytes dns) = Return msg' \<longleftrightarrow> True \<and> msg' = msg @ wire16 v" for msg v msg'
    by (auto simp: packUint16_def wire16_def)
qed (auto simp: unpackUint16_wire, auto simp: unpackUint16_def skipUint16_def dns_const wire_simps split: if_splits)

interpretation u32c: skip_codec wire32 "\<lambda>_. True" "\<lambda>msg v. Return (packUint32 msg v) :: bytes dns"
  unpackUint32 skipUint32
proof unfold_locales
  show "(Return (packUint32 msg v) :: bytes dns) = Return msg' \<longleftrightarrow> True \<and> msg' = msg @ wire32 v" for msg v msg'
    by (auto simp: packUint32_def wire32_def)
qed (auto simp: unpackUint32_wire dest: unpackUint32_sound,
  auto simp: unpackUint32_def skipUint32_def dns_const split: if_splits)

interpretation textc: codec wireText "\<lambda>t. length t \<le> 255" packText unpackText
proof unfold_locales
  show "unpackText msg off = Return (t, off + length (wireText t))"
    if "length t \<le> 255" "found_at msg off (wireText t)" for t msg off
  proof -
    have "unat (of_nat (length t) :: byte) = length t"
      using that(1) by (simp add: unat_of_nat)
    then show ?thesis
      using that(2)
      by (auto simp: unpackText_def wireText_def wire_simps dest: found_at_bound found_at_takeD)
  qed
  show "length t \<le> 255 \<and> found_at msg off (wireText t) \<and> off' = off + length (wireText t)"
    if "unpackText msg off = Return (t, off')" for t msg off off'
    using that byte_unat_less [of "msg ! off"]
    by (auto simp: unpackText_def wireText_def wire_simps Let_def found_at_take split: if_splits)
qed (auto simp: packText_def wireText_def unpackText_def Let_def)

lemma packUint16_wire [simp]: "packUint16 msg v = msg @ wire16 v"
  by (simp add: packUint16_def wire16_def)

lemma packUint32_wire [simp]: "packUint32 msg v = msg @ wire32 v"
  by (simp add: packUint32_def wire32_def)

lemmas type_class_defs [simp] =
  packType_def unpackType_def skipType_def packClass_def unpackClass_def skipClass_def

lemma unpackBytes_iff:
  "unpackBytes msg off n = Return (bs, off') \<longleftrightarrow> length bs = n \<and> found_at msg off bs \<and> off' = off + n"
  by (auto simp: unpackBytes_def Let_def found_at_def)

lemma unpackBytes_no_panic [simp]: "unpackBytes msg off n \<noteq> Panic"
  by (auto simp: unpackBytes_def Let_def)

section \<open>Header\<close>

lemma header_pack_wire [simp]: "header_pack h msg = msg @ wireHeader h"
  by (simp add: header_pack_def wireHeader_def)

lemma unpack_field_wire:
  "found_at msg off (wire16 v) \<Longrightarrow> unpack_field upd s msg off h = (Return (off + 2), upd v h)"
  by (simp add: unpack_field_def unpackUint16_wire)

lemma unpack_field_sound:
  "unpack_field upd s msg off h = (Return off', h') \<Longrightarrow>
     \<exists>v. found_at msg off (wire16 v) \<and> off' = off + 2 \<and> h' = upd v h"
  by (auto simp: unpack_field_def u16c.unpack_iff split: outcome.splits prod.splits)

lemma unpack_field_no_panic [simp]: "fst (unpack_field upd s msg off h) \<noteq> Panic"
  by (auto simp: unpack_field_def u16c.unpack_no_panic split: outcome.splits)

lemma header_unpack_wire:
  assumes "found_at msg off (wireHeader h)"
  shows "header_unpack msg off h0 = (Return (off + 12), h)"
proof -
  have "found_at msg off (wire16 (hid h))" "found_at msg (off + 2) (wire16 (bits h))"
    "found_at msg (off + 2 + 2) (wire16 (questions h))" "found_at msg (off + 2 + 2 + 2) (wire16 (answers h))"
    "found_at msg (off + 2 + 2 + 2 + 2) (wire16 (authorities h))"
    "found_at msg (off + 2 + 2 + 2 + 2 + 2) (wire16 (additionals h))"
    using assms by (simp_all add: wireHeader_def found_at_append)
  then show ?thesis
    by (simp add: header_unpack_def unpack_field_wire [of _ _ "hid h"] unpack_field_wire [of _ _ "bits h"]
      unpack_field_wire [of _ _ "questions h"] unpack_field_wire [of _ _ "answers h"]
      unpack_field_wire [of _ _ "authorities h"] unpack_field_wire [of _ _ "additionals h"])
qed

lemma header_unpack_sound:
  "header_unpack msg off h0 = (Return off', h) \<Longrightarrow> found_at msg off (wireHeader h) \<and> off' = off + 12"
  by (auto simp: header_unpack_def bind_meth_Return_iff wireHeader_def found_at_append add.assoc
      dest!: unpack_field_sound)

lemma header_unpack_no_panic [simp]: "fst (header_unpack msg off h) \<noteq> Panic"
  by (simp add: header_unpack_def bind_meth_Panic_iff)

section \<open>The header bits\<close>

text \<open>The header word has four bits for \<open>OpCode\<close> and four for \<open>RCode\<close>; both are \<open>uint16\<close> in \<open>Header\<close>.\<close>

definition header_in_range :: "Header \<Rightarrow> bool" where
  "header_in_range m \<longleftrightarrow> OpCode m < 16 \<and> RCode m < 16"

definition sample_Header :: Header where
  "sample_Header = \<lparr>ID = 7, Response = True, OpCode = 4, Authoritative = True, Truncated = False,
     RecursionDesired = True, RecursionAvailable = False, AuthenticData = True,
     CheckingDisabled = False, RCode = 3\<rparr>"

definition sample_header :: header where
  "sample_header = \<lparr>hid = fst (Header_pack sample_Header), bits = snd (Header_pack sample_Header),
     questions = 1, answers = 0, authorities = 0, additionals = 0\<rparr>"

lemma flag_iff: "w AND push_bit n 1 \<noteq> 0 \<longleftrightarrow> bit (w :: u16) n"
  using and_exp_eq_0_iff_not_bit [of w n] by (simp add: push_bit_eq_mult)

lemma bit_nibble: "bit (0xF :: u16) n \<longleftrightarrow> n < 4"
proof -
  have "(0xF :: u16) = mask 4" by (simp add: mask_eq_exp_minus_1)
  then show ?thesis by (simp only: bit_mask_iff) auto
qed

lemma nibble_bit: "(w :: u16) < 16 \<Longrightarrow> bit w n \<Longrightarrow> n < 4"
proof (rule ccontr)
  assume w: "w < 16" "bit w n" and "\<not> n < 4"
  have "take_bit 4 w = w" using w(1)
    by (simp add: take_bit_eq_mod word_less_nat_alt unat_mod word_unat_eq_iff)
  with w(2) \<open>\<not> n < 4\<close> show False by (metis bit_take_bit_iff)
qed

lemma bit_set_flag:
  "bit (if c then w OR push_bit k 1 else w :: u16) n \<longleftrightarrow> bit w n \<or> (c \<and> n = k \<and> k < 16)"
  by (cases c) (auto simp: bit_or_iff bit_push_bit_iff bit_1_iff simp del: push_bit_of_1)

lemma fst_Header_pack: "fst (Header_pack m) = ID m"
  unfolding Header_pack_def Let_def by simp

lemma bit_Header_pack:
  "bit (snd (Header_pack m)) n \<longleftrightarrow> bit (RCode m) n \<or> (11 \<le> n \<and> n < 16 \<and> bit (OpCode m) (n - 11)) \<or>
      (n = 7 \<and> RecursionAvailable m) \<or> (n = 8 \<and> RecursionDesired m) \<or> (n = 9 \<and> Truncated m) \<or>
      (n = 10 \<and> Authoritative m) \<or> (n = 15 \<and> Response m) \<or> (n = 5 \<and> AuthenticData m) \<or>
      (n = 4 \<and> CheckingDisabled m)"
  unfolding Header_pack_def Let_def dns_const bit_set_flag snd_conv bit_or_iff bit_push_bit_iff
  by auto

lemma header_bits_round_trip:
  assumes "header_in_range m" and "hid h = fst (Header_pack m)" and "bits h = snd (Header_pack m)"
  shows "header_header h = m"
proof -
  have o: "bit (OpCode m) n \<Longrightarrow> n < 4" and r: "bit (RCode m) n \<Longrightarrow> n < 4" for n
    using assms(1) nibble_bit [of "OpCode m" n] nibble_bit [of "RCode m" n] by (auto simp: header_in_range_def)
  have "drop_bit 11 (bits h) AND 0xF = OpCode m"
  proof (rule bit_word_eqI)
    fix n :: nat
    show "bit (drop_bit 11 (bits h) AND 0xF) n = bit (OpCode m) n"
      unfolding bit_and_iff bit_drop_bit_eq bit_nibble comp_apply assms(3) bit_Header_pack
      using o [of n] r [of "11 + n"] by auto
  qed
  moreover have "bits h AND 0xF = RCode m"
  proof (rule bit_word_eqI)
    fix n :: nat
    show "bit (bits h AND 0xF) n = bit (RCode m) n"
      unfolding bit_and_iff bit_nibble assms(3) bit_Header_pack using r [of n] by auto
  qed
  moreover have flag: "bits h AND push_bit n 1 \<noteq> 0 \<longleftrightarrow> bit (snd (Header_pack m)) n" for n
    unfolding flag_iff assms(3) ..
  ultimately show ?thesis
    unfolding header_header_def dns_const flag bit_Header_pack assms(2)
    using o [of 4] r [of 4] r [of 5] r [of 7] r [of 8] r [of 9] r [of 10] r [of 15]
    by (intro Header.equality) (auto simp: fst_Header_pack)
qed

lemma header_header_in_range: "header_in_range (header_header h)"
proof -
  have "w AND 0xF < (16 :: u16)" for w by (rule le_less_trans [OF word_and_le1]) simp
  then show ?thesis by (simp add: header_in_range_def header_header_def)
qed
text \<open>A \<open>Header\<close> whose codes fit their four bits survives packing into the message and unpacking
  at the same offset, with anything before and after it.\<close>

theorem Header_round_trip:
  assumes "header_in_range m" and "hid h = fst (Header_pack m)" and "bits h = snd (Header_pack m)"
  shows "header_unpack (header_pack h msg @ post) (length msg) h0 = (Return (length msg + headerLen), h) \<and>
    header_header h = m"
proof -
  have "header_unpack (msg @ wireHeader h @ post) (length msg) h0 = (Return (length msg + 12), h)"
    by (rule header_unpack_wire) simp
  then show ?thesis
    using header_bits_round_trip [OF assms] by (simp add: headerLen_def uint16Len_def)
qed

theorem Header_round_trip_witness:
  "header_unpack (header_pack sample_header [1, 2] @ [3]) (length [1, 2 :: byte]) sample_header =
     (Return (length [1, 2 :: byte] + headerLen), sample_header) \<and>
   header_header sample_header = sample_Header"
  by (rule Header_round_trip)
    (simp_all add: header_in_range_def sample_header_def sample_Header_def)

text \<open>Reading any header word and packing it again reproduces every bit but the reserved bit 6,
  which \<open>Header\<close> does not represent and \<open>Header.pack\<close> clears.\<close>

theorem Header_pack_clears_reserved:
  "Header_pack (header_header h) = (hid h, bits h AND NOT (push_bit 6 1))"
proof -
  have flags: "bit (snd (Header_pack (header_header h))) n \<longleftrightarrow> bit (bits h) n \<and> n \<noteq> 6" if "n < 16" for n
  proof -
    have "n < 4 \<or> (11 \<le> n \<and> n < 15) \<or> n \<in> {4, 5, 6, 7, 8, 9, 10, 15}"
      using that unfolding insert_iff empty_iff by presburger
    then show ?thesis
      unfolding bit_Header_pack header_header_def Header.select_convs dns_const flag_iff bit_and_iff
        bit_nibble bit_drop_bit_eq comp_apply
      by (elim disjE conjE insertE emptyE) auto
  qed
  have "snd (Header_pack (header_header h)) = bits h AND NOT (push_bit 6 1)"
  proof (rule bit_word_eqI)
    fix n :: nat assume "n < LENGTH(16)"
    then show "bit (snd (Header_pack (header_header h))) n = bit (bits h AND NOT (push_bit 6 1)) n"
      unfolding bit_and_iff bit_not_iff bit_push_bit_iff bit_1_iff by (auto simp: flags)
  qed
  moreover have "fst (Header_pack (header_header h)) = hid h"
    unfolding fst_Header_pack header_header_def by simp
  ultimately show ?thesis by (metis prod.collapse)
qed

end
