(* ===== verification/DNS_Name.thy ===== *)
theory DNS_Name
  imports DNS_Wire
begin

text \<open>
  Domain names of \<open>src/dns/dnsmessage/message.go\<close>: \<open>Name\<close> (a 255 byte array and a length), \<open>NewName\<close>,
  \<open>Name.pack\<close> with its compression map, \<open>Name.unpackCompressed\<close> and \<open>skipName\<close>.

  The loops of the code run over bytes.  The specification is about label lists: \<open>pack_labels\<close> is
  \<open>Name.pack\<close> with one step per label (\<open>Name_pack_labels\<close> shows they agree), and \<open>wire_name\<close> is the
  inductive relation "at this offset the message holds these labels, through this many pointers".
  The compression map is a part of the state that survives failures; \<open>comp_ok\<close> says that every entry
  points to a place of the message where its key decodes.  Packing keeps it, emits a name that
  decodes to the packed one, and never builds a pointer chain longer than the number of labels.
\<close>

unbundle bit_operations_syntax

section \<open>Names\<close>

record Name =
  Data :: bytes
  Length :: u8

text \<open>\<open>Name{}\<close>; \<open>Data\<close> is a Go array of 255 bytes, so every name of the program has \<open>array_ok\<close>.\<close>

definition zero_Name :: Name where
  "zero_Name = \<lparr>Data = replicate nameLen 0, Length = 0\<rparr>"

definition array_ok :: "Name \<Rightarrow> bool" where
  "array_ok n \<longleftrightarrow> length (Data n) = nameLen"

definition dot :: byte where
  "dot = 0x2E"

definition NewName :: "bytes \<Rightarrow> Name dns" where
  "NewName name =
     (if length name > nameLen then Fail errCalcLen
      else Return \<lparr>Data = name @ drop (length name) (Data zero_Name), Length = of_nat (length name)\<rparr>)"

definition MustNewName :: "bytes \<Rightarrow> Name dns" where
  "MustNewName name = (case NewName name of Return n \<Rightarrow> Return n | _ \<Rightarrow> Panic)"

definition Name_String :: "Name \<Rightarrow> bytes" where
  "Name_String n = take (unat (Length n)) (Data n)"

section \<open>Packing\<close>

text \<open>The compression map: \<open>None\<close> is the nil map.  Values are offsets from \<open>compressionOff\<close>.\<close>

type_synonym compression = "(bytes \<rightharpoonup> nat) option"

type_synonym packer = "bytes \<Rightarrow> (compression, dns_error, bytes) meth"

text \<open>\<open>byte(ptr>>8|0xC0), byte(ptr)\<close>\<close>

definition ptr_bytes :: "nat \<Rightarrow> bytes" where
  "ptr_bytes ptr = [of_nat (drop_bit 8 ptr OR 0xC0), of_nat ptr]"

text \<open>The loop of \<open>Name.pack\<close> at index \<open>i\<close>, with the current segment starting at \<open>beg\<close>.  \<open>i\<close> is below
  \<open>n.Length\<close>, which is at most 255, so all reads of the array are in range.\<close>

function name_loop ::
    "Name \<Rightarrow> nat \<Rightarrow> nat \<Rightarrow> nat \<Rightarrow> bytes \<Rightarrow> compression \<Rightarrow> bytes dns \<times> compression" where
  "name_loop n compressionOff i beg msg cmap =
     (if \<not> i < unat (Length n) then (Return (msg @ [0]), cmap)
      else if Data n ! i = dot then
        if i - beg \<ge> 2 ^ 6 then (Fail errSegTooLong, cmap)
        else if i - beg = 0 then (Fail errZeroSegLen, cmap)
        else name_loop n compressionOff (i + 1) (i + 1)
               ((msg @ [of_nat (i - beg)]) @ map (\<lambda>j. Data n ! j) [beg..<i]) cmap
      else (case cmap of
          None \<Rightarrow> name_loop n compressionOff (i + 1) beg msg cmap
        | Some m \<Rightarrow>
            if i = 0 \<or> Data n ! (i - 1) = dot then
              (case m (drop i (Data n)) of
                 Some ptr \<Rightarrow> (Return (msg @ ptr_bytes ptr), cmap)
               | None \<Rightarrow> name_loop n compressionOff (i + 1) beg msg
                   (if length msg \<le> 0x3FFF then Some (m(drop i (Data n) \<mapsto> length msg - compressionOff))
                    else cmap))
            else name_loop n compressionOff (i + 1) beg msg cmap))"
  by pat_completeness auto
termination by (relation "measure (\<lambda>(n, _, i, _). unat (Length n) - i)") auto

declare name_loop.simps [simp del]

definition Name_pack :: "Name \<Rightarrow> nat \<Rightarrow> packer" where
  "Name_pack n compressionOff msg cmap =
     (if Length n = 0 \<or> Data n ! unat (Length n - 1) \<noteq> dot then (Fail errNonCanonicalName, cmap)
      else if Data n ! 0 = dot \<and> Length n = 1 then (Return (msg @ [0]), cmap)
      else name_loop n compressionOff 0 0 msg cmap)"

section \<open>Unpacking\<close>

text \<open>The loop of \<open>unpackCompressed\<close>; it returns \<open>currOff\<close>, \<open>newOff\<close>, \<open>ptr\<close> and \<open>name\<close> at the break.\<close>

function unpack_loop ::
    "bytes \<Rightarrow> bool \<Rightarrow> nat \<Rightarrow> nat \<Rightarrow> nat \<Rightarrow> bytes \<Rightarrow> (nat \<times> nat \<times> nat \<times> bytes) dns" where
  "unpack_loop msg allowCompression currOff newOff ptr name =
     (if currOff \<ge> length msg then Fail errBaseLen
      else bind_outcome (go_index msg currOff) (\<lambda>c.
        if c AND 0xC0 = 0x00 then
          if c = 0 then Return (currOff + 1, newOff, ptr, name)
          else let endOff = currOff + 1 + unat c in
            if endOff > length msg then Fail errCalcLen
            else bind_outcome (go_slice msg (currOff + 1) endOff) (\<lambda>seg.
              unpack_loop msg allowCompression endOff newOff ptr ((name @ seg) @ [dot]))
        else if c AND 0xC0 = 0xC0 then
          if \<not> allowCompression then Fail errCompressedSRV
          else if currOff + 1 \<ge> length msg then Fail errInvalidPtr
          else bind_outcome (go_index msg (currOff + 1)) (\<lambda>c1.
            if ptr + 1 > 10 then Fail errTooManyPtr
            else unpack_loop msg allowCompression (push_bit 8 (unat (c XOR 0xC0)) OR unat c1)
                   (if ptr = 0 then currOff + 2 else newOff) (ptr + 1) name)
        else Fail errReserved))"
  by pat_completeness auto
termination
  by (relation "measures [\<lambda>(_, _, _, _, ptr, _). 11 - ptr, \<lambda>(msg, _, currOff, _). length msg - currOff]")
     auto

declare unpack_loop.simps [simp del]

text \<open>The segments are appended to \<open>n.Data[:0]\<close>, that is, written over the start of the array.\<close>

definition unpackCompressed :: "Name \<Rightarrow> bytes \<Rightarrow> nat \<Rightarrow> bool \<Rightarrow> (Name \<times> nat) dns" where
  "unpackCompressed n msg off allowCompression =
     bind_outcome (unpack_loop msg allowCompression off off 0 []) (\<lambda>(currOff, newOff, ptr, name).
       let name = (if length name = 0 then name @ [dot] else name) in
       if length name > nameLen then Fail errCalcLen
       else Return (\<lparr>Data = name @ drop (length name) (Data n), Length = of_nat (length name)\<rparr>,
              if ptr = 0 then currOff else newOff))"

definition Name_unpack :: "Name \<Rightarrow> bytes \<Rightarrow> nat \<Rightarrow> (Name \<times> nat) dns" where
  "Name_unpack n msg off = unpackCompressed n msg off True"

function skip_loop :: "bytes \<Rightarrow> nat \<Rightarrow> nat dns" where
  "skip_loop msg newOff =
     (if newOff \<ge> length msg then Fail errBaseLen
      else bind_outcome (go_index msg newOff) (\<lambda>c.
        if c AND 0xC0 = 0x00 then
          if c = 0 then Return (newOff + 1)
          else if newOff + 1 + unat c > length msg then Fail errCalcLen
          else skip_loop msg (newOff + 1 + unat c)
        else if c AND 0xC0 = 0xC0 then Return (newOff + 1 + 1)
        else Fail errReserved))"
  by pat_completeness auto
termination by (relation "measure (\<lambda>(msg, newOff). length msg - newOff)") auto

declare skip_loop.simps [simp del]

definition skipName :: "bytes \<Rightarrow> nat \<Rightarrow> nat dns" where
  "skipName msg off = skip_loop msg off"

section \<open>Labels\<close>

definition flat :: "bytes list \<Rightarrow> bytes" where
  "flat ls = concat (map (\<lambda>l. l @ [dot]) ls)"

definition label_text :: "bytes list \<Rightarrow> bytes" where
  "label_text ls = (if ls = [] then [dot] else flat ls)"

definition label_ok :: "bytes \<Rightarrow> bool" where
  "label_ok l \<longleftrightarrow> l \<noteq> [] \<and> length l < 2 ^ 6 \<and> dot \<notin> set l"

definition labels_ok :: "bytes list \<Rightarrow> bool" where
  "labels_ok ls \<longleftrightarrow> list_all label_ok ls \<and> length (label_text ls) \<le> nameLen"

definition name_of :: "bytes list \<Rightarrow> Name" where
  "name_of ls = \<lparr>Data = label_text ls @ replicate (nameLen - length (label_text ls)) 0,
     Length = of_nat (length (label_text ls))\<rparr>"

fun split_dots :: "bytes \<Rightarrow> bytes \<Rightarrow> bytes list" where
  "split_dots acc [] = []"
| "split_dots acc (b # bs) = (if b = dot then acc # split_dots [] bs else split_dots (acc @ [b]) bs)"

fun pack_labels :: "nat \<Rightarrow> bytes \<Rightarrow> bytes list \<Rightarrow> packer" where
  "pack_labels compressionOff rest [] msg cmap = (Return (msg @ [0]), cmap)"
| "pack_labels compressionOff rest (l # ls) msg cmap =
     (if l = [] then (Fail errZeroSegLen, cmap)
      else (case cmap of
          None \<Rightarrow>
            if length l \<ge> 2 ^ 6 then (Fail errSegTooLong, cmap)
            else pack_labels compressionOff rest ls (msg @ of_nat (length l) # l) cmap
        | Some m \<Rightarrow>
            let key = flat (l # ls) @ rest in
            case m key of
              Some ptr \<Rightarrow> (Return (msg @ ptr_bytes ptr), cmap)
            | None \<Rightarrow>
                let cmap' = (if length msg \<le> 0x3FFF then Some (m(key \<mapsto> length msg - compressionOff))
                             else cmap) in
                if length l \<ge> 2 ^ 6 then (Fail errSegTooLong, cmap')
                else pack_labels compressionOff rest ls (msg @ of_nat (length l) # l) cmap'))"

lemma flat_simps [simp]: "flat [] = []" "flat (l # ls) = l @ dot # flat ls"
  by (simp_all add: flat_def)

lemma flat_eq_Nil [simp]: "flat ls = [] \<longleftrightarrow> ls = []"
  by (cases ls) simp_all

lemma last_flat [simp]: "ls \<noteq> [] \<Longrightarrow> last (flat ls) = dot"
  by (induction ls) auto

lemma flat_split_dots:
  "bs = [] \<or> last bs = dot \<Longrightarrow> flat (split_dots acc bs) = (if bs = [] then [] else acc @ bs)"
  by (induction acc bs rule: split_dots.induct) (auto split: if_splits)

lemma split_dots_no_dot:
  "dot \<notin> set acc \<Longrightarrow> l \<in> set (split_dots acc bs) \<Longrightarrow> dot \<notin> set l"
  by (induction acc bs rule: split_dots.induct) (auto split: if_splits)

lemma split_dots_flat:
  "\<forall>l \<in> set ls. dot \<notin> set l \<Longrightarrow> split_dots [] (flat ls) = ls"
proof (induction ls)
  case (Cons l ls)
  have "split_dots acc (l' @ dot # flat ls) = (acc @ l') # split_dots [] (flat ls)"
    if "dot \<notin> set l'" for acc l' using that
    by (induction l' arbitrary: acc) auto
  with Cons show ?case by simp
qed simp

text \<open>Inside a label the loop only moves on.\<close>

lemma name_loop_inside:
  assumes "Data n = pre @ l @ dot # post" "dot \<notin> set l" "length pre + length l < unat (Length n)"
    and "j \<le> length l" "0 < j"
  shows "name_loop n off (length pre + j) beg msg cmap = name_loop n off (length pre + length l) beg msg cmap"
  using assms(4,5)
proof (induction "length l - j" arbitrary: j)
  case (Suc d)
  then have j: "j < length l" by simp
  have nd: "l ! j \<noteq> dot" "l ! (j - 1) \<noteq> dot"
    using j assms(2) by (metis nth_mem) (metis j assms(2) less_imp_diff_less nth_mem)
  have d: "Data n ! (length pre + j) = l ! j" "Data n ! (length pre + j - 1) = l ! (j - 1)"
    using j \<open>0 < j\<close> by (auto simp: assms(1) nth_append)
  have "name_loop n off (length pre + j) beg msg cmap = name_loop n off (length pre + Suc j) beg msg cmap"
    using j \<open>0 < j\<close> assms(3) d nd
    by (subst name_loop.simps) (auto split: option.splits)
  also have "\<dots> = name_loop n off (length pre + length l) beg msg cmap"
    using Suc j by (intro Suc.hyps(1)) auto
  finally show ?case .
qed (use assms in simp)

lemma map_nth_middle: "map ((!) (pre @ l @ post)) [length pre..<length pre + length l] = l"
  by (rule nth_equalityI) (auto simp: nth_append)

lemma name_loop_labels:
  assumes "Data n = pre @ flat ls @ rest" "unat (Length n) = length pre + length (flat ls)"
    and "\<forall>l \<in> set ls. dot \<notin> set l" "pre = [] \<or> last pre = dot"
  shows "name_loop n off (length pre) (length pre) msg cmap = pack_labels off rest ls msg cmap"
  using assms
proof (induction ls arbitrary: pre msg cmap)
  case Nil
  then show ?case by (subst name_loop.simps) simp
next
  case (Cons l ls)
  let ?n' = "length pre + length l"
  have D: "Data n = pre @ l @ dot # (flat ls @ rest)" and nd: "dot \<notin> set l"
    and len: "length pre + length l < unat (Length n)"
    using Cons.prems by auto
  have next_label: "name_loop n off (length pre + length l) (length pre) msg' cm =
      (if length l \<ge> 2 ^ 6 then (Fail errSegTooLong, cm)
       else pack_labels off rest ls (msg' @ of_nat (length l) # l) cm)" if "l \<noteq> []" for msg' cm
  proof -
    have "Data n ! ?n' = dot" by (simp add: D nth_append)
    moreover have "name_loop n off (Suc ?n') (Suc ?n') m cm = pack_labels off rest ls m cm" for m
      using Cons.IH [of "pre @ l @ [dot]" m cm] Cons.prems by simp
    moreover have "map ((!) (Data n)) [length pre..<?n'] = l"
      unfolding D by (rule map_nth_middle)
    ultimately show ?thesis
      using len that by (subst name_loop.simps) simp
  qed
  show ?case
  proof (cases "l = []")
    case True
    then show ?thesis using len by (subst name_loop.simps) (simp add: D)
  next
    case False
    have one: "name_loop n off (Suc (length pre)) (length pre) msg' cm =
        name_loop n off (length pre + length l) (length pre) msg' cm" for msg' cm
      using name_loop_inside [OF D nd len, of 1 off "length pre" msg' cm] False
      by (simp add: Suc_le_eq)
    have "Data n ! length pre \<noteq> dot"
      using False nd by (cases l) (auto simp: D nth_append)
    moreover have "pre = [] \<or> Data n ! (length pre - 1) = dot"
      using Cons.prems(4) by (cases pre rule: rev_cases) (auto simp: D nth_append)
    moreover have "drop (length pre) (Data n) = l @ dot # flat ls @ rest" by (simp add: D)
    ultimately show ?thesis
      using len False by (subst name_loop.simps) (auto simp: one next_label Let_def split: option.splits)
  qed
qed

lemma Length_le: "unat (Length n) \<le> 255"
  using byte_unat_less [of "Length n"] by simp

lemma Name_String_last:
  assumes "array_ok n" "Length n \<noteq> 0"
  shows "Name_String n \<noteq> [] \<and> last (Name_String n) = Data n ! unat (Length n - 1)"
proof -
  have l: "length (Name_String n) = unat (Length n)"
    using assms(1) Length_le [of n] by (simp add: Name_String_def array_ok_def nameLen_def)
  have u: "unat (Length n - 1) = unat (Length n) - 1"
    using assms(2) by (simp add: unat_minus_one)
  have p: "unat (Length n) > 0" using assms(2) by (simp add: unat_gt_0)
  then have "Name_String n \<noteq> []" using l by auto
  moreover have "last (Name_String n) = Data n ! (unat (Length n) - 1)"
    using calculation p l by (simp add: last_conv_nth) (simp add: Name_String_def)
  ultimately show ?thesis using u by simp
qed

lemma Name_pack_labels:
  assumes "array_ok n"
  shows "Name_pack n off msg cmap =
     (let t = Name_String n in
      if t = [] \<or> last t \<noteq> dot then (Fail errNonCanonicalName, cmap)
      else if t = [dot] then (Return (msg @ [0]), cmap)
      else pack_labels off (drop (unat (Length n)) (Data n)) (split_dots [] t) msg cmap)"
proof (cases "Length n = 0")
  case True
  then show ?thesis by (simp add: Name_pack_def Name_String_def)
next
  case False
  note last = Name_String_last [OF assms False]
  have l: "length (Name_String n) = unat (Length n)"
    using assms Length_le [of n] by (simp add: Name_String_def array_ok_def nameLen_def)
  have root: "Data n ! 0 = dot \<and> Length n = 1 \<longleftrightarrow> Name_String n = [dot]"
  proof -
    have "Length n = 1 \<longleftrightarrow> length (Name_String n) = 1"
      unfolding l by (metis unat_1 unat_eqD of_nat_1)
    moreover have "Data n ! 0 = hd (Name_String n)"
      using last l False by (cases "Data n") (auto simp: Name_String_def take_Cons' unat_eq_zero)
    ultimately show ?thesis
      by (cases "Name_String n") auto
  qed
  show ?thesis
  proof (cases "last (Name_String n) = dot")
    case True
    have f: "flat (split_dots [] (Name_String n)) = Name_String n"
      using flat_split_dots [of "Name_String n" "[]"] True last by simp
    have "name_loop n off 0 0 msg cmap =
        pack_labels off (drop (unat (Length n)) (Data n)) (split_dots [] (Name_String n)) msg cmap"
      by (rule name_loop_labels [of n "[]", simplified])
        (auto simp: f l, auto simp: Name_String_def dest: split_dots_no_dot [rotated])
    then show ?thesis using False True last root by (simp add: Name_pack_def Let_def)
  qed (use False last in \<open>simp add: Name_pack_def\<close>)
qed

section \<open>Names on the wire\<close>

inductive wire_name :: "bytes \<Rightarrow> nat \<Rightarrow> nat \<Rightarrow> nat \<Rightarrow> bytes list \<Rightarrow> bool" for msg where
  wire_end: "found_at msg p [0] \<Longrightarrow> wire_name msg p (p + 1) 0 []"
| wire_label: "\<lbrakk>found_at msg p (of_nat (length l) # l); l \<noteq> []; length l < 64;
    wire_name msg (p + 1 + length l) q k ls\<rbrakk> \<Longrightarrow> wire_name msg p q k (l # ls)"
| wire_ptr: "\<lbrakk>found_at msg p (ptr_bytes t); t < 2 ^ 14; wire_name msg t q k ls\<rbrakk> \<Longrightarrow>
    wire_name msg p (p + 2) (Suc k) ls"

lemma wire_name_extend: "wire_name msg p q k ls \<Longrightarrow> wire_name (msg @ post) p q k ls"
  by (induction rule: wire_name.induct) (auto intro: wire_name.intros [simplified] found_at_extend)

lemma bit_of_nat_byte: "bit (of_nat m :: byte) n \<longleftrightarrow> n < 8 \<and> bit m n"
  by (simp add: bit_of_nat_iff)

lemma bit_unat_byte: "bit (unat (b :: byte)) n \<longleftrightarrow> bit b n"
  by (simp add: bit_unsigned_iff)

lemma bit_C0:
  "bit (0xC0 :: byte) n \<longleftrightarrow> n = 6 \<or> n = 7" "bit (0xC0 :: nat) n \<longleftrightarrow> n = 6 \<or> n = 7"
proof -
  have "(0xC0 :: byte) = push_bit 6 (mask 2)" by (simp add: push_bit_eq_mult mask_eq_exp_minus_1)
  then show "bit (0xC0 :: byte) n \<longleftrightarrow> n = 6 \<or> n = 7"
    by (simp only: bit_push_bit_iff bit_mask_iff) auto
  have "(0xC0 :: nat) = push_bit 6 (mask 2)" by (simp add: push_bit_eq_mult mask_eq_exp_minus_1)
  then show "bit (0xC0 :: nat) n \<longleftrightarrow> n = 6 \<or> n = 7"
    by (simp only: bit_push_bit_iff bit_mask_iff) auto
qed

lemma bit_less: "m < 2 ^ k \<Longrightarrow> bit (m :: nat) n \<Longrightarrow> n < k"
  by (metis bit_take_bit_iff take_bit_nat_eq_self)

lemma small_byte:
  assumes "m < 64"
  shows "(of_nat m :: byte) AND 0xC0 = 0" "unat (of_nat m :: byte) = m"
proof -
  have "\<not> bit m 6" "\<not> bit m 7" using assms bit_less [of m 6] by force+
  then show "(of_nat m :: byte) AND 0xC0 = 0"
    by (intro bit_word_eqI) (unfold bit_and_iff bit_of_nat_byte bit_C0, auto)
  show "unat (of_nat m :: byte) = m" using assms by (simp add: unat_of_nat)
qed

lemma ptr_byte:
  assumes "t < 2 ^ 14"
  shows "(of_nat (drop_bit 8 t OR 0xC0) :: byte) AND 0xC0 = 0xC0"
    and "push_bit 8 (unat ((of_nat (drop_bit 8 t OR 0xC0) :: byte) XOR 0xC0)) OR unat (of_nat t :: byte) = t"
proof -
  have t: "bit t n \<Longrightarrow> n < 14" for n by (rule bit_less [OF assms])
  show "(of_nat (drop_bit 8 t OR 0xC0) :: byte) AND 0xC0 = 0xC0"
    by (rule bit_word_eqI) (unfold bit_and_iff bit_of_nat_byte bit_or_iff bit_C0, auto)
  have "bit (push_bit 8 (unat ((of_nat (drop_bit 8 t OR 0xC0) :: byte) XOR 0xC0)) OR unat (of_nat t :: byte)) n
      \<longleftrightarrow> bit t n" for n
  proof (cases "n < 8")
    case True
    then show ?thesis
      unfolding bit_or_iff bit_push_bit_iff bit_unat_byte bit_of_nat_byte by simp
  next
    case False
    then show ?thesis
      unfolding bit_or_iff bit_push_bit_iff bit_unat_byte bit_of_nat_byte bit_xor_iff bit_C0 bit_drop_bit_eq
      using t [of n] by (cases "n - 8 = 6 \<or> n - 8 = 7") auto
  qed
  then show "push_bit 8 (unat ((of_nat (drop_bit 8 t OR 0xC0) :: byte) XOR 0xC0)) OR unat (of_nat t :: byte) = t"
    by (intro bit_eqI) simp
qed

text \<open>The unpacking loop reads what \<open>wire_name\<close> says.\<close>

lemma unpack_loop_wire:
  assumes "wire_name msg p q k ls" "k + ptr \<le> 10" "k = 0 \<or> allow"
  shows "\<exists>e. unpack_loop msg allow p newOff ptr name =
     Return (e, if k = 0 \<or> ptr \<noteq> 0 then newOff else q, k + ptr, name @ flat ls) \<and> (k = 0 \<longrightarrow> e = q)"
  using assms
proof (induction arbitrary: ptr newOff name rule: wire_name.induct)
  case (wire_end p)
  then show ?case by (subst unpack_loop.simps) (simp add: wire_simps)
next
  case (wire_label p l q k ls)
  have b: "msg ! p = of_nat (length l)" "p < length msg" "found_at msg (p + 1) l"
    using wire_label.hyps(1) by (simp_all add: found_at_Cons)
  have nz: "of_nat (length l) \<noteq> (0 :: byte)"
    using small_byte(2) [of "length l"] wire_label.hyps(2,3) by (metis length_0_conv unat_0)
  have "unpack_loop msg allow p newOff ptr name =
      unpack_loop msg allow (p + 1 + length l) newOff ptr (name @ l @ [dot])"
    using b nz wire_label.hyps(3) small_byte [of "length l"] found_at_bound [OF b(3)] found_at_takeD [OF b(3)]
    by (subst unpack_loop.simps) (simp add: Let_def)
  then show ?case using wire_label.IH [of ptr newOff "name @ l @ [dot]"] wire_label.prems by auto
next
  case (wire_ptr p t q k ls)
  have b: "msg ! p = of_nat (drop_bit 8 t OR 0xC0)" "msg ! (p + 1) = of_nat t" "p + 1 < length msg"
    using wire_ptr.hyps(1) by (simp_all add: found_at_Cons ptr_bytes_def)
  note pb = ptr_byte [OF wire_ptr.hyps(2)]
  have "unpack_loop msg allow p newOff ptr name =
      unpack_loop msg allow t (if ptr = 0 then p + 2 else newOff) (ptr + 1) name"
    unfolding unpack_loop.simps [of msg allow p] b(1,2)
    using b pb wire_ptr.prems by simp
  then show ?case using wire_ptr.IH [of "ptr + 1" "if ptr = 0 then p + 2 else newOff" name] wire_ptr.prems
    by auto
qed

lemma unpackCompressed_wire:
  assumes "wire_name msg p q k ls" "k \<le> 10" "k = 0 \<or> allow" "length (label_text ls) \<le> nameLen"
  shows "unpackCompressed zero_Name msg p allow = Return (name_of ls, q)"
proof -
  obtain e where u: "unpack_loop msg allow p p 0 [] = Return (e, if k = 0 then p else q, k, flat ls)"
      "k = 0 \<longrightarrow> e = q"
    using unpack_loop_wire [OF assms(1), of 0 allow p "[]"] assms(2,3) by auto
  have "(if length (flat ls) = 0 then flat ls @ [dot] else flat ls) = label_text ls"
    by (simp add: label_text_def)
  then show ?thesis
    using u(2) assms(4) unfolding unpackCompressed_def u(1) bind_outcome.simps prod.case Let_def
    by (simp add: name_of_def zero_Name_def)
qed

section \<open>The compression map\<close>

definition entry_ok :: "nat \<Rightarrow> bytes \<Rightarrow> bytes \<Rightarrow> nat \<Rightarrow> bool" where
  "entry_ok off msg key p \<longleftrightarrow>
     (\<exists>ls z k q. key = flat ls @ replicate z 0 \<and> ls \<noteq> [] \<and> list_all label_ok ls \<and> p < 2 ^ 14 \<and>
        k < length ls \<and> wire_name (drop off msg) p q k ls)"

definition comp_ok :: "nat \<Rightarrow> compression \<Rightarrow> bytes \<Rightarrow> bool" where
  "comp_ok off cmap msg \<longleftrightarrow> (\<forall>m key p. cmap = Some m \<longrightarrow> m key = Some p \<longrightarrow> entry_ok off msg key p)"

lemma entry_ok_extend: "off \<le> length msg \<Longrightarrow> entry_ok off msg key p \<Longrightarrow> entry_ok off (msg @ post) key p"
  using wire_name_extend [of "drop off msg" _ _ _ _ post] by (simp add: entry_ok_def) blast

lemma comp_ok_extend: "off \<le> length msg \<Longrightarrow> comp_ok off cmap msg \<Longrightarrow> comp_ok off cmap (msg @ post)"
  by (auto simp: comp_ok_def entry_ok_extend)

lemma comp_ok_None [simp]: "comp_ok off None msg"
  by (simp add: comp_ok_def)

lemma comp_ok_empty [simp]: "comp_ok off (Some Map.empty) msg"
  by (simp add: comp_ok_def)

lemma strip_zeros:
  assumes "xs @ replicate z 0 = ys @ replicate z' (0 :: byte)" "last xs \<noteq> 0" "last ys \<noteq> 0" "xs \<noteq> []" "ys \<noteq> []"
  shows "xs = ys"
proof -
  have strip: "dropWhile (\<lambda>b. b = 0) (rev (us @ replicate n 0)) = rev us"
    if "us \<noteq> []" "last us \<noteq> 0" for us :: bytes and n
    using that by (cases us rule: rev_cases) (auto intro: trans [OF dropWhile_append2])
  show ?thesis using strip [of xs z] strip [of ys z'] assms by (metis rev_rev_ident)
qed

lemma flat_eqI:
  assumes "flat ls @ replicate z 0 = flat ls' @ replicate z' 0" "ls \<noteq> []" "ls' \<noteq> []"
    and "\<forall>l \<in> set ls. dot \<notin> set l" "\<forall>l \<in> set ls'. dot \<notin> set l"
  shows "ls = ls'"
proof -
  have "flat ls = flat ls'"
    by (rule strip_zeros [OF assms(1)]) (use assms in \<open>simp_all add: dot_def\<close>)
  then show ?thesis using split_dots_flat [OF assms(4)] split_dots_flat [OF assms(5)] by metis
qed

lemma label_ok_no_dot: "list_all label_ok ls \<Longrightarrow> \<forall>l \<in> set ls. dot \<notin> set l"
  by (auto simp: list_all_iff label_ok_def)

lemma flat_inj:
  "\<lbrakk>flat ls @ replicate z 0 = flat ls' @ replicate z' 0; ls \<noteq> []; ls' \<noteq> []; list_all label_ok ls;
    list_all label_ok ls'\<rbrakk> \<Longrightarrow> ls = ls'"
  by (rule flat_eqI) (simp_all add: label_ok_no_dot)

text \<open>What packing the labels \<open>ls\<close> achieves when it appends \<open>w\<close>: the name is readable at the old end of
  the message, and every entry of the new map is an old one or readable.\<close>

definition name_packed :: "nat \<Rightarrow> bytes list \<Rightarrow> bytes \<Rightarrow> compression \<Rightarrow> bytes \<Rightarrow> bool" where
  "name_packed off ls msg cmap w \<longleftrightarrow>
     (\<exists>k. k \<le> length ls \<and> (cmap = None \<longrightarrow> k = 0) \<and>
        wire_name (drop off (msg @ w)) (length msg - off) (length (msg @ w) - off) k ls)"

definition map_packed :: "nat \<Rightarrow> bytes \<Rightarrow> compression \<Rightarrow> bytes \<Rightarrow> compression \<Rightarrow> bool" where
  "map_packed off msg cmap w cmap' \<longleftrightarrow>
     (cmap = None \<longleftrightarrow> cmap' = None) \<and>
     (\<forall>m m' key p. cmap = Some m \<longrightarrow> cmap' = Some m' \<longrightarrow> m' key = Some p \<longrightarrow>
        m key = Some p \<or> entry_ok off (msg @ w) key p)"

lemma name_packed_label:
  assumes "name_packed off ls (msg @ of_nat (length l) # l) cm w" "off \<le> length msg" "label_ok l"
  shows "\<exists>k. k \<le> length ls \<and> (cm = None \<longrightarrow> k = 0) \<and>
    wire_name (drop off (msg @ (of_nat (length l) # l) @ w)) (length msg - off)
      (length (msg @ (of_nat (length l) # l) @ w) - off) k (l # ls)"
proof -
  let ?seg = "of_nat (length l) # l"
  have pos: "length (msg @ ?seg) - off = length msg - off + 1 + length l" using assms(2) by simp
  obtain k where k: "k \<le> length ls" "cm = None \<longrightarrow> k = 0"
    "wire_name (drop off (msg @ ?seg @ w)) (length msg - off + 1 + length l) (length (msg @ ?seg @ w) - off) k ls"
    using assms(1) unfolding name_packed_def pos append_assoc by blast
  have "found_at (drop off (msg @ ?seg @ w)) (length msg - off) ?seg"
    using assms(2) by (simp add: found_at_def)
  moreover have "l \<noteq> []" "length l < 64" using assms(3) by (simp_all add: label_ok_def)
  ultimately have "wire_name (drop off (msg @ ?seg @ w)) (length msg - off) (length (msg @ ?seg @ w) - off) k (l # ls)"
    using k(3) by (rule wire_label)
  then show ?thesis using k by blast
qed

lemma name_packed_Cons:
  assumes "name_packed off ls (msg @ of_nat (length l) # l) cm w" "off \<le> length msg" "label_ok l"
    and "cmap = None \<longrightarrow> cm = None"
  shows "name_packed off (l # ls) msg cmap ((of_nat (length l) # l) @ w)"
proof -
  let ?msg' = "msg @ (of_nat (length l) # l) @ w"
  obtain k where "k \<le> length ls" "cm = None \<longrightarrow> k = 0"
    "wire_name (drop off ?msg') (length msg - off) (length ?msg' - off) k (l # ls)"
    using name_packed_label [OF assms(1-3)] by blast
  then show ?thesis using assms(4) unfolding name_packed_def by (intro exI [of _ k]) simp
qed

lemma entry_new:
  assumes "name_packed off ls (msg @ of_nat (length l) # l) cm w" "off \<le> length msg" "list_all label_ok (l # ls)"
    and "length msg \<le> 0x3FFF"
  shows "entry_ok off (msg @ (of_nat (length l) # l) @ w) (flat (l # ls) @ replicate z 0) (length msg - off)"
proof -
  let ?msg' = "msg @ (of_nat (length l) # l) @ w"
  obtain k where "k \<le> length ls" "wire_name (drop off ?msg') (length msg - off) (length ?msg' - off) k (l # ls)"
    using name_packed_label [OF assms(1,2)] assms(3) unfolding list.pred_inject by blast
  then show ?thesis using assms(3,4) unfolding entry_ok_def
    by (intro exI [of _ "l # ls"] exI [of _ z] exI [of _ k] exI [of _ "length ?msg' - off"]) simp
qed

lemma pack_hit:
  assumes "entry_ok off msg (flat ls @ replicate z 0) p" "ls \<noteq> []" "list_all label_ok ls" "off \<le> length msg"
  shows "name_packed off ls msg (Some m) (ptr_bytes p)"
proof -
  obtain ls' z' k q where e: "flat ls @ replicate z 0 = flat ls' @ replicate z' 0" "ls' \<noteq> []"
    "list_all label_ok ls'" "p < 2 ^ 14" "k < length ls'" "wire_name (drop off msg) p q k ls'"
    using assms(1) unfolding entry_ok_def by auto
  have ls: "ls' = ls" using flat_inj [OF e(1) assms(2) e(2) assms(3) e(3)] by simp
  have "found_at (drop off (msg @ ptr_bytes p)) (length msg - off) (ptr_bytes p)"
    using assms(4) by (simp add: found_at_def)
  moreover have "wire_name (drop off (msg @ ptr_bytes p)) p q k ls"
    using wire_name_extend [OF e(6)] assms(4) ls by simp
  ultimately have "wire_name (drop off (msg @ ptr_bytes p)) (length msg - off) (length msg - off + 2) (Suc k) ls"
    using e(4) by (intro wire_ptr [of _ _ p q])
  moreover have "length (msg @ ptr_bytes p) - off = length msg - off + 2"
    using assms(4) by (simp add: ptr_bytes_def)
  ultimately show ?thesis using e(5) ls unfolding name_packed_def
    by (intro exI [of _ "Suc k"]) (simp del: length_append)
qed

lemma pack_labels_packed:
  assumes "list_all label_ok ls" "off \<le> length msg"
    and "\<And>m key p. \<lbrakk>cmap = Some m; m key = Some p; length key \<le> length (flat ls) + z\<rbrakk> \<Longrightarrow> entry_ok off msg key p"
  shows "\<exists>w cmap'. pack_labels off (replicate z 0) ls msg cmap = (Return (msg @ w), cmap') \<and>
    name_packed off ls msg cmap w \<and> map_packed off msg cmap w cmap'"
  using assms
proof (induction ls arbitrary: msg cmap)
  case Nil
  have "wire_name (drop off (msg @ [0])) (length msg - off) (length msg - off + 1) 0 []"
    using Nil by (intro wire_end) (simp add: found_at_def)
  then show ?case using Nil.prems(2)
    by (auto simp: name_packed_def map_packed_def Suc_diff_le)
next
  case (Cons l ls)
  have lok: "label_ok l" "list_all label_ok ls" using Cons.prems(1) by simp_all
  then have l: "l \<noteq> []" "length l < 64" by (simp_all add: label_ok_def)
  let ?seg = "of_nat (length l) # l" and ?key = "flat (l # ls) @ replicate z 0"
  have rest: "\<exists>w cmap''. pack_labels off (replicate z 0) ls (msg @ ?seg) cm = (Return (msg @ ?seg @ w), cmap'') \<and>
      name_packed off ls (msg @ ?seg) cm w \<and> map_packed off (msg @ ?seg) cm w cmap''"
    if "\<And>m key p. \<lbrakk>cm = Some m; m key = Some p; length key \<le> length (flat ls) + z\<rbrakk> \<Longrightarrow> entry_ok off msg key p" for cm
    using Cons.IH [of "msg @ ?seg" cm, OF lok(2)] Cons.prems(2) that entry_ok_extend [of off msg _ _ ?seg]
    by simp
  show ?case
  proof (cases cmap)
    case None
    obtain w cmap'' where w: "pack_labels off (replicate z 0) ls (msg @ ?seg) None = (Return (msg @ ?seg @ w), cmap'')"
      "name_packed off ls (msg @ ?seg) None w" "map_packed off (msg @ ?seg) None w cmap''"
      using rest [of None] by auto
    have "name_packed off (l # ls) msg cmap (?seg @ w)"
      using name_packed_Cons [OF w(2) Cons.prems(2) lok(1)] None by blast
    then show ?thesis using w l None by (auto simp: map_packed_def intro!: exI [of _ "?seg @ w"])
  next
    case (Some m)
    show ?thesis
    proof (cases "m ?key")
      case None
      define cm where "cm = (if length msg \<le> 0x3FFF then Some (m(?key \<mapsto> length msg - off)) else cmap)"
      have "\<exists>w cmap''. pack_labels off (replicate z 0) ls (msg @ ?seg) cm = (Return (msg @ ?seg @ w), cmap'') \<and>
          name_packed off ls (msg @ ?seg) cm w \<and> map_packed off (msg @ ?seg) cm w cmap''"
        by (rule rest) (use Cons.prems(3) Some in \<open>auto simp: cm_def split: if_splits\<close>)
      then obtain w cmap'' where w: "pack_labels off (replicate z 0) ls (msg @ ?seg) cm = (Return (msg @ ?seg @ w), cmap'')"
        "name_packed off ls (msg @ ?seg) cm w" "map_packed off (msg @ ?seg) cm w cmap''" by blast
      have "map_packed off msg cmap (?seg @ w) cmap''"
        using w(3) entry_new [OF w(2) Cons.prems(2,1), of z] Some
        unfolding map_packed_def cm_def append_assoc by (auto split: if_splits)
      moreover have "name_packed off (l # ls) msg cmap (?seg @ w)"
        using name_packed_Cons [OF w(2) Cons.prems(2) lok(1)] Some by blast
      moreover have "pack_labels off (replicate z 0) (l # ls) msg cmap = (Return (msg @ ?seg @ w), cmap'')"
        using w(1) l Some None by (cases "length msg \<le> 0x3FFF") (simp_all add: cm_def Let_def)
      ultimately show ?thesis by blast
    next
      case (Some p)
      have "name_packed off (l # ls) msg (Some m) (ptr_bytes p)"
        by (rule pack_hit [where z = z]) (use Cons.prems Some \<open>cmap = Some m\<close> in auto)
      then show ?thesis using l \<open>cmap = Some m\<close> Some by (auto simp: Let_def map_packed_def)
    qed
  qed
qed

lemma pack_labels_ok:
  assumes "pack_labels off (replicate z 0) ls msg cmap = (Return msg', cmap')" "\<forall>l \<in> set ls. dot \<notin> set l"
    and "\<And>m key p. \<lbrakk>cmap = Some m; m key = Some p; length key \<le> length (flat ls) + z\<rbrakk> \<Longrightarrow>
      \<exists>ls' z'. key = flat ls' @ replicate z' 0 \<and> ls' \<noteq> [] \<and> list_all label_ok ls'"
  shows "list_all label_ok ls"
  using assms
proof (induction ls arbitrary: msg cmap)
  case (Cons l ls)
  have l: "l \<noteq> []" using Cons.prems(1) by (auto split: if_splits)
  let ?key = "flat (l # ls) @ replicate z 0"
  show ?case
  proof (cases "\<exists>m p. cmap = Some m \<and> m ?key = Some p")
    case True
    then obtain ls' z' where e: "?key = flat ls' @ replicate z' 0" "ls' \<noteq> []" "list_all label_ok ls'"
      using Cons.prems(3) [of _ ?key] by force
    then have "ls' = l # ls" using flat_eqI [OF e(1)] Cons.prems(2) label_ok_no_dot by auto
    then show ?thesis using e(3) by simp
  next
    case False
    define cm where "cm = (case cmap of None \<Rightarrow> None | Some m \<Rightarrow>
      if length msg \<le> 0x3FFF then Some (m(?key \<mapsto> length msg - off)) else cmap)"
    have step: "length l < 64 \<and>
        pack_labels off (replicate z 0) ls (msg @ of_nat (length l) # l) cm = (Return msg', cmap')"
      using Cons.prems(1) False l by (auto simp: cm_def Let_def split: option.splits if_splits)
    have "list_all label_ok ls"
      by (rule Cons.IH [OF conjunct2 [OF step]])
        (use Cons.prems(2,3) in \<open>auto simp: cm_def split: option.splits if_splits\<close>)
    moreover have "label_ok l" using step l Cons.prems(2) by (simp add: label_ok_def)
    ultimately show ?thesis by simp
  qed
qed simp

lemma NewName_array_ok: "NewName t = Return n \<Longrightarrow> array_ok n"
  by (auto simp: NewName_def array_ok_def zero_Name_def split: if_splits)

lemma NewName_parts:
  assumes "NewName t = Return n"
  shows "Name_String n = t" "drop (unat (Length n)) (Data n) = replicate (nameLen - length t) 0"
    "length t \<le> nameLen" "n = \<lparr>Data = t @ replicate (nameLen - length t) 0, Length = of_nat (length t)\<rparr>"
proof -
  show len: "length t \<le> nameLen" using assms by (auto simp: NewName_def split: if_splits)
  show n: "n = \<lparr>Data = t @ replicate (nameLen - length t) 0, Length = of_nat (length t)\<rparr>"
    using assms by (auto simp: NewName_def zero_Name_def split: if_splits)
  have "unat (of_nat (length t) :: u8) = length t" using len by (simp add: unat_of_nat nameLen_def)
  then show "Name_String n = t" "drop (unat (Length n)) (Data n) = replicate (nameLen - length t) 0"
    by (simp_all add: n Name_String_def)
qed

lemma NewName_name_of: "labels_ok ls \<Longrightarrow> NewName (label_text ls) = Return (name_of ls)"
  by (simp add: NewName_def name_of_def labels_ok_def zero_Name_def)

lemma map_packed_comp_ok:
  "\<lbrakk>map_packed off msg cmap w cmap'; comp_ok off cmap msg; off \<le> length msg\<rbrakk> \<Longrightarrow> comp_ok off cmap' (msg @ w)"
  unfolding map_packed_def comp_ok_def using entry_ok_extend by (metis option.exhaust)

lemma Name_pack_success:
  assumes "NewName t = Return n" "comp_ok off cmap msg" "off \<le> length msg"
    and "Name_pack n off msg cmap = (Return msg', cmap')"
  shows "\<exists>ls w. t = label_text ls \<and> n = name_of ls \<and> labels_ok ls \<and> msg' = msg @ w \<and>
    name_packed off ls msg cmap w \<and> (cmap = None \<longleftrightarrow> cmap' = None) \<and> comp_ok off cmap' (msg @ w)"
proof -
  note p = NewName_parts [OF assms(1)]
  have pack: "Name_pack n off msg cmap = (if t = [] \<or> last t \<noteq> dot then (Fail errNonCanonicalName, cmap)
      else if t = [dot] then (Return (msg @ [0]), cmap)
      else pack_labels off (replicate (nameLen - length t) 0) (split_dots [] t) msg cmap)"
    using Name_pack_labels [OF NewName_array_ok [OF assms(1)]] p by (simp add: Let_def)
  show ?thesis
  proof (cases "t = [dot]")
    case True
    then have "msg' = msg @ [0]" "cmap' = cmap" using assms(4) pack by auto
    moreover have "name_packed off [] msg cmap [0] \<and> map_packed off msg cmap [0] cmap"
      using pack_labels_packed [of "[]" off msg cmap 0] assms(2,3) by (auto simp: comp_ok_def)
    ultimately show ?thesis using True p assms(2,3) map_packed_comp_ok
      by (intro exI [of _ "[]"] exI [of _ "[0]"]) (auto simp: label_text_def labels_ok_def name_of_def)
  next
    case False
    let ?ls = "split_dots [] t" and ?z = "nameLen - length t"
    have t: "t \<noteq> []" "last t = dot" using assms(4) pack by (auto split: if_splits)
    have ret: "pack_labels off (replicate ?z 0) ?ls msg cmap = (Return msg', cmap')"
      using assms(4) pack t False by simp
    have f: "flat ?ls = t" using flat_split_dots [of t "[]"] t by simp
    have nd: "\<forall>l \<in> set ?ls. dot \<notin> set l" using split_dots_no_dot [of "[]"] by simp
    have ent: "\<exists>ls' z'. key = flat ls' @ replicate z' 0 \<and> ls' \<noteq> [] \<and> list_all label_ok ls'"
      if "cmap = Some m" "m key = Some p" for m key p
      using assms(2) that unfolding comp_ok_def entry_ok_def by blast
    have ok: "list_all label_ok ?ls" by (rule pack_labels_ok [OF ret nd]) (rule ent)
    have lt: "label_text ?ls = t" using f t by (auto simp: label_text_def)
    have lok: "labels_ok ?ls" "n = name_of ?ls"
      using ok lt p by (simp_all add: labels_ok_def name_of_def)
    obtain w cmap'' where w: "pack_labels off (replicate ?z 0) ?ls msg cmap = (Return (msg @ w), cmap'')"
      "name_packed off ?ls msg cmap w" "map_packed off msg cmap w cmap''"
      using pack_labels_packed [OF ok assms(3), of cmap ?z] assms(2) unfolding comp_ok_def by blast
    then have "msg' = msg @ w" "cmap' = cmap''" using ret by auto
    then show ?thesis
      using lok lt w map_packed_comp_ok [OF w(3) assms(2,3)] w(3) unfolding map_packed_def
      by (intro exI [of _ ?ls] exI [of _ w]) simp
  qed
qed

lemma Name_unpack_packed:
  assumes "name_packed off ls msg cmap w" "labels_ok ls" "length ls \<le> 10" "off \<le> length msg"
  shows "Name_unpack zero_Name (drop off (msg @ w) @ post) (length msg - off) =
    Return (name_of ls, length (msg @ w) - off)"
proof -
  obtain k where k: "k \<le> length ls"
    "wire_name (drop off (msg @ w)) (length msg - off) (length (msg @ w) - off) k ls"
    using assms(1) unfolding name_packed_def by blast
  show ?thesis unfolding Name_unpack_def
    by (rule unpackCompressed_wire [OF wire_name_extend [OF k(2)]]) (use assms k in \<open>auto simp: labels_ok_def\<close>)
qed

lemma Name_unpack_uncompressed:
  assumes "name_packed off ls msg None w" "labels_ok ls" "off \<le> length msg"
  shows "unpackCompressed zero_Name (drop off (msg @ w) @ post) (length msg - off) allow =
    Return (name_of ls, length (msg @ w) - off)"
proof -
  have k: "wire_name (drop off (msg @ w)) (length msg - off) (length (msg @ w) - off) 0 ls"
    using assms(1) unfolding name_packed_def by auto
  show ?thesis
    by (rule unpackCompressed_wire [OF wire_name_extend [OF k]]) (use assms in \<open>auto simp: labels_ok_def\<close>)
qed

section \<open>Reading arbitrary bytes\<close>

lemma unpack_loop_no_panic [simp]: "unpack_loop msg allow currOff newOff ptr name \<noteq> Panic"
proof (induction msg allow currOff newOff ptr name rule: unpack_loop.induct)
  case (1 msg allow currOff newOff ptr name)
  then show ?case by (subst unpack_loop.simps) (auto simp: Let_def)
qed

lemma byte_of_ptr:
  fixes c c1 :: byte
  assumes "c AND 0xC0 = (0xC0 :: byte)"
  defines "t \<equiv> push_bit 8 (unat (c XOR 0xC0)) OR unat c1"
  shows "ptr_bytes t = [c, c1]" "t < 2 ^ 14"
proof -
  have hi: "bit c n" if "n = 6 \<or> n = 7" for n
    using that bit_C0(1) [of n] assms(1) by (metis bit_and_iff)
  have bt: "bit t n \<longleftrightarrow> (if n < 8 then bit c1 n else bit c (n - 8) \<and> n < 14)" for n
  proof (cases "n < 8")
    case True
    then show ?thesis unfolding t_def bit_or_iff bit_push_bit_iff bit_unat_byte by simp
  next
    case False
    then obtain j where n: "n = j + 8" using le_Suc_ex [of 8 n] by (auto simp: not_less add.commute)
    have "\<not> bit c1 n" "bit c j \<Longrightarrow> j < 8" using False byte_bit [of c1 n] byte_bit [of c j] by auto
    then show ?thesis
      unfolding t_def bit_or_iff bit_push_bit_iff bit_unat_byte bit_xor_iff bit_C0 using hi [of j]
      by (cases "j = 6 \<or> j = 7") (auto simp: n)
  qed
  have "of_nat (drop_bit 8 t OR 0xC0) = c"
  proof (rule bit_word_eqI)
    fix n assume "n < LENGTH(8)"
    then have "n < 6 \<or> n = 6 \<or> n = 7" by auto
    then show "bit (of_nat (drop_bit 8 t OR 0xC0) :: byte) n = bit c n"
      unfolding bit_of_nat_byte bit_or_iff bit_drop_bit_eq comp_apply bt bit_C0 using hi by auto
  qed
  moreover have "of_nat t = c1"
    by (rule bit_word_eqI) (unfold bit_of_nat_byte bt, auto)
  ultimately show "ptr_bytes t = [c, c1]" by (simp add: ptr_bytes_def)
  have "take_bit 14 t = t" by (rule bit_eqI) (auto simp: bit_take_bit_iff bt)
  then show "t < 2 ^ 14" by (metis take_bit_nat_less_exp)
qed

lemma byte_of_label: "c AND 0xC0 = (0 :: byte) \<Longrightarrow> unat c < 64"
proof -
  assume "c AND 0xC0 = 0"
  then have "\<not> (bit c n \<and> bit (0xC0 :: byte) n)" for n by (metis bit_and_iff bit_0_eq bot_apply bot_bool_def)
  then have "\<not> bit c 6" "\<not> bit c 7" unfolding bit_C0 by auto
  then have "bit c n \<Longrightarrow> n < 6" for n
    using byte_bit [of c n] by (cases "n = 6 \<or> n = 7") auto
  then have "take_bit 6 (unat c) = unat c" by (intro bit_eqI) (auto simp: bit_take_bit_iff bit_unat_byte)
  then show ?thesis using take_bit_nat_less_exp [of 6 "unat c"] by simp
qed

lemma unpack_loop_cases:
  assumes "unpack_loop msg allow p newOff ptr name = Return r"
  obtains (stop) "found_at msg p [0]" "r = (p + 1, newOff, ptr, name)"
  | (label) l where "found_at msg p (of_nat (length l) # l)" "l \<noteq> []" "length l < 64"
      "unpack_loop msg allow (p + 1 + length l) newOff ptr (name @ l @ [dot]) = Return r"
  | (ptr) t where "found_at msg p (ptr_bytes t)" "t < 2 ^ 14" "allow" "ptr < 10"
      "unpack_loop msg allow t (if ptr = 0 then p + 2 else newOff) (ptr + 1) name = Return r"
proof -
  have p: "p < length msg"
    using assms by (subst (asm) unpack_loop.simps) (auto split: if_splits)
  let ?c = "msg ! p"
  consider "?c AND 0xC0 = 0" "?c = 0" | "?c AND 0xC0 = 0" "?c \<noteq> 0" | "?c AND 0xC0 = 0xC0"
    | "?c AND 0xC0 \<noteq> 0" "?c AND 0xC0 \<noteq> 0xC0" by blast
  then show ?thesis
  proof cases
    case 1
    then show ?thesis using assms p
      by (intro stop) (auto simp: unpack_loop.simps [of msg allow p] wire_simps)
  next
    case 2
    let ?l = "take (unat ?c) (drop (p + 1) msg)"
    have e: "p + 1 + unat ?c \<le> length msg"
      using assms p 2 by (auto simp: unpack_loop.simps [of msg allow p] Let_def split: if_splits)
    have "unat ?c < 64" using 2 by (intro byte_of_label)
    moreover have "length ?l = unat ?c" using e by simp
    moreover have "found_at msg p (of_nat (length ?l) # ?l)"
      using e p by (simp add: wire_simps found_at_take)
    moreover have "unat ?c \<noteq> 0" using 2 by (simp add: unat_eq_0)
    moreover have "unpack_loop msg allow (p + 1 + unat ?c) newOff ptr (name @ ?l @ [dot]) = Return r"
      using assms p 2 e by (simp add: unpack_loop.simps [of msg allow p] Let_def)
    ultimately show ?thesis using e by (intro label [of ?l]) auto
  next
    case 3
    then have n: "?c AND 0xC0 \<noteq> 0" by simp
    have e: "allow" "p + 1 < length msg" "ptr < 10"
      using assms p 3 n by (auto simp: unpack_loop.simps [of msg allow p] split: if_splits)
    note b = byte_of_ptr [OF 3, of "msg ! (p + 1)"]
    have "unpack_loop msg allow (push_bit 8 (unat (?c XOR 0xC0)) OR unat (msg ! (p + 1)))
        (if ptr = 0 then p + 2 else newOff) (ptr + 1) name = Return r"
      using assms p 3 n e by (subst (asm) unpack_loop.simps) simp
    moreover have "found_at msg p (ptr_bytes (push_bit 8 (unat (?c XOR 0xC0)) OR unat (msg ! (p + 1))))"
      unfolding b(1) using e p by (simp add: wire_simps)
    ultimately show ?thesis using e b(2) by (intro ptr)
  next
    case 4
    then show ?thesis using assms p by (simp add: unpack_loop.simps [of msg allow p])
  qed
qed

lemma unpack_loop_sound:
  assumes "unpack_loop msg allow p newOff ptr name = Return r" "ptr \<le> 10"
  shows "\<exists>e q k ls. wire_name msg p q k ls \<and> k + ptr \<le> 10 \<and> (k = 0 \<or> allow) \<and> (k = 0 \<longrightarrow> e = q) \<and>
    r = (e, if k = 0 \<or> ptr \<noteq> 0 then newOff else q, k + ptr, name @ flat ls)"
  using assms
proof (induction "(10 - ptr) * (length msg + 1) + (length msg - p)" arbitrary: p newOff ptr name
    rule: less_induct)
  case less
  show ?case using less.prems(1)
  proof (cases rule: unpack_loop_cases)
    case stop
    then show ?thesis using wire_end less.prems(2) by fastforce
  next
    case (label l)
    have "p < length msg" using label(1) by (simp add: found_at_Cons)
    then obtain e q k ls where "wire_name msg (p + 1 + length l) q k ls" "k + ptr \<le> 10" "k = 0 \<or> allow"
      "k = 0 \<longrightarrow> e = q" "r = (e, if k = 0 \<or> ptr \<noteq> 0 then newOff else q, k + ptr, (name @ l @ [dot]) @ flat ls)"
      using less.hyps [OF _ label(4) less.prems(2)] by fastforce
    then show ?thesis using wire_label [OF label(1-3)]
      by (intro exI [of _ e] exI [of _ q] exI [of _ k] exI [of _ "l # ls"]) auto
  next
    case (ptr t)
    have "(10 - (ptr + 1)) * (length msg + 1) + (length msg - t) < (10 - ptr) * (length msg + 1) + (length msg - p)"
    proof -
      have "10 - ptr = Suc (10 - (ptr + 1))" using ptr(4) by simp
      then show ?thesis by (simp add: add_mult_distrib)
    qed
    then obtain e q k ls where "wire_name msg t q k ls" "k + (ptr + 1) \<le> 10" "k = 0 \<longrightarrow> e = q"
      "r = (e, if k = 0 \<or> ptr + 1 \<noteq> 0 then (if ptr = 0 then p + 2 else newOff) else q, k + (ptr + 1), name @ flat ls)"
      using less.hyps [OF _ ptr(5)] ptr(4) by fastforce
    then show ?thesis using wire_ptr [OF ptr(1,2)] ptr(3)
      by (intro exI [of _ e] exI [of _ "p + 2"] exI [of _ "Suc k"] exI [of _ ls]) auto
  qed
qed

lemma wire_name_bounds: "wire_name msg p q k ls \<Longrightarrow> p < q \<and> q \<le> length msg"
  by (induction rule: wire_name.induct) (auto simp: wire_simps ptr_bytes_def dest: found_at_bound)

lemma wire_name_labels: "wire_name msg p q k ls \<Longrightarrow> \<forall>l \<in> set ls. l \<noteq> [] \<and> length l < 64"
  by (induction rule: wire_name.induct) auto

lemma unpackCompressed_iff:
  "unpackCompressed zero_Name msg p allow = Return (n, q) \<longleftrightarrow>
     (\<exists>k ls. wire_name msg p q k ls \<and> k \<le> 10 \<and> (k = 0 \<or> allow) \<and>
        length (label_text ls) \<le> nameLen \<and> n = name_of ls)"
proof
  assume u: "unpackCompressed zero_Name msg p allow = Return (n, q)"
  then obtain r where r: "unpack_loop msg allow p p 0 [] = Return r"
    by (auto simp: unpackCompressed_def)
  obtain e q' k ls where w: "wire_name msg p q' k ls" "k \<le> 10" "k = 0 \<or> allow" "k = 0 \<longrightarrow> e = q'"
    "r = (e, if k = 0 then p else q', k, flat ls)"
    using unpack_loop_sound [OF r] by auto
  have t: "(if length (flat ls) = 0 then flat ls @ [dot] else flat ls) = label_text ls"
    by (simp add: label_text_def)
  have ret: "(if length (label_text ls) > nameLen then Fail errCalcLen
      else Return (\<lparr>Data = label_text ls @ drop (length (label_text ls)) (Data zero_Name),
        Length = of_nat (length (label_text ls))\<rparr>, q')) = Return (n, q)"
    using u w(4) unfolding unpackCompressed_def r bind_outcome.simps w(5) prod.case Let_def t by (simp split: if_splits)
  then have "length (label_text ls) \<le> nameLen" "n = name_of ls" "q' = q"
    by (auto simp: name_of_def zero_Name_def split: if_splits)
  with w show "\<exists>k ls. wire_name msg p q k ls \<and> k \<le> 10 \<and> (k = 0 \<or> allow) \<and>
        length (label_text ls) \<le> nameLen \<and> n = name_of ls" by blast
next
  assume "\<exists>k ls. wire_name msg p q k ls \<and> k \<le> 10 \<and> (k = 0 \<or> allow) \<and>
        length (label_text ls) \<le> nameLen \<and> n = name_of ls"
  then show "unpackCompressed zero_Name msg p allow = Return (n, q)" using unpackCompressed_wire by blast
qed

lemma unpackCompressed_no_panic [simp]: "unpackCompressed n msg off allow \<noteq> Panic"
  by (auto simp: unpackCompressed_def Let_def split: if_splits)

lemma Name_unpack_no_panic [simp]: "Name_unpack n msg off \<noteq> Panic"
  by (simp add: Name_unpack_def)

lemma unpackCompressed_bounds:
  "unpackCompressed zero_Name msg p allow = Return (n, q) \<Longrightarrow> p < q \<and> q \<le> length msg"
  using wire_name_bounds by (auto simp: unpackCompressed_iff)

lemma Name_unpack_bounds: "Name_unpack zero_Name msg p = Return (n, q) \<Longrightarrow> p < q \<and> q \<le> length msg"
  unfolding Name_unpack_def by (rule unpackCompressed_bounds)

lemma skip_loop_wire: "wire_name msg p q k ls \<Longrightarrow> skip_loop msg p = Return q"
proof (induction rule: wire_name.induct)
  case (wire_end p)
  then show ?case by (subst skip_loop.simps) (simp add: wire_simps)
next
  case (wire_label p l q k ls)
  have b: "msg ! p = of_nat (length l)" "p < length msg" "found_at msg (p + 1) l"
    using wire_label.hyps(1) by (simp_all add: found_at_Cons)
  have "of_nat (length l) \<noteq> (0 :: byte)"
    using small_byte(2) [of "length l"] wire_label.hyps(2,3) by (metis length_0_conv unat_0)
  then show ?case
    using b wire_label small_byte [of "length l"] found_at_bound [OF b(3)]
    by (subst skip_loop.simps) simp
next
  case (wire_ptr p t q k ls)
  have b: "msg ! p = of_nat (drop_bit 8 t OR 0xC0)" "p < length msg"
    using wire_ptr.hyps(1) by (simp_all add: found_at_Cons ptr_bytes_def)
  show ?case
    unfolding skip_loop.simps [of msg p] b(1) using b ptr_byte(1) [OF wire_ptr.hyps(2)] by simp
qed

lemma skip_loop_no_panic [simp]: "skip_loop msg off \<noteq> Panic"
proof (induction msg off rule: skip_loop.induct)
  case (1 msg newOff)
  then show ?case by (subst skip_loop.simps) auto
qed

lemma skipName_no_panic [simp]: "skipName msg off \<noteq> Panic"
  by (simp add: skipName_def)

lemma skip_loop_gt: "skip_loop msg off = Return off' \<Longrightarrow> off < off'"
proof (induction msg off rule: skip_loop.induct)
  case (1 msg newOff)
  show ?case
    using 1(2) [unfolded skip_loop.simps [of msg newOff]] 1(1) [of "msg ! newOff"]
    by (auto split: if_splits)
qed

lemma skipName_unpack:
  assumes "unpackCompressed zero_Name msg off allow = Return (n, off')"
  shows "skipName msg off = Return off'"
  using assms skip_loop_wire by (auto simp: unpackCompressed_iff skipName_def)

section \<open>Properties\<close>

text \<open>The uncompressed wire form of labels.\<close>

definition wire_labels :: "bytes list \<Rightarrow> bytes" where
  "wire_labels ls = concat (map (\<lambda>l. of_nat (length l) # l) ls)"

lemma pack_labels_uncompressed:
  "pack_labels off rest ls msg None =
     (case find (\<lambda>l. l = [] \<or> length l \<ge> 2 ^ 6) ls of
        Some l \<Rightarrow> Fail (if l = [] then errZeroSegLen else errSegTooLong)
      | None \<Rightarrow> Return (msg @ wire_labels ls @ [0]), None)"
  by (induction ls arbitrary: msg) (auto simp: wire_labels_def split: option.splits)

text \<open>C25: The name decoder is exact: it succeeds with a name and an end offset precisely when the message holds the
  labels of that name there, reached through at most ten pointers (none where compression is not allowed) and
  with a text of at most 255 bytes.\<close>

theorem Name_unpack_exact:
  "unpackCompressed zero_Name msg p allow = Return (n, q) \<longleftrightarrow>
     (\<exists>k ls. wire_name msg p q k ls \<and> k \<le> 10 \<and> (k = 0 \<or> allow) \<and>
        length (label_text ls) \<le> nameLen \<and> n = name_of ls)"
  by (rule unpackCompressed_iff)

text \<open>C26: Packing a name without compression reports precisely what is wrong with it: no final dot, or else the
  first empty or overlong label; otherwise it appends the labels with their lengths and the end marker.\<close>

theorem Name_pack_errors:
  assumes "NewName t = Return n"
  shows "Name_pack n off msg None =
    (if t = [] \<or> last t \<noteq> dot then Fail errNonCanonicalName
     else if t = [dot] then Return (msg @ [0])
     else case find (\<lambda>l. l = [] \<or> length l \<ge> 2 ^ 6) (split_dots [] t) of
        Some l \<Rightarrow> Fail (if l = [] then errZeroSegLen else errSegTooLong)
      | None \<Rightarrow> Return (msg @ wire_labels (split_dots [] t) @ [0]), None)"
proof -
  note p = NewName_parts [OF assms]
  show ?thesis
    using Name_pack_labels [OF NewName_array_ok [OF assms], of off msg None] p
    by (simp add: Let_def pack_labels_uncompressed)
qed

theorem Name_pack_errors_witness:
  "NewName [97, 46, 46] = Return (name_of [[97], []]) \<and> Name_pack (name_of [[97], []]) 0 [] None = (Fail errZeroSegLen, None)"
proof -
  have n: "NewName [97, 46, 46] = Return (name_of [[97], []])" by code_simp
  show ?thesis using Name_pack_errors [OF n, of 0 "[]"] n by (simp add: dot_def)
qed

text \<open>C27: Where a name can be decoded, skipping it stops at the same offset.\<close>

theorem skipName_agrees:
  assumes "unpackCompressed zero_Name msg off allow = Return (n, off')"
  shows "skipName msg off = Return off' \<and> off < off' \<and> off' \<le> length msg"
  using skipName_unpack [OF assms] unpackCompressed_bounds [OF assms] by simp

theorem skipName_agrees_witness:
  "unpackCompressed zero_Name [1, 98, 0, 1, 97, 192, 0, 7] 3 True = Return (name_of [[97], [98]], 7) \<and>
   skipName [1, 98, 0, 1, 97, 192, 0, 7] 3 = Return 7"
proof -
  have u: "unpackCompressed zero_Name [1, 98, 0, 1, 97, 192, 0, 7] 3 True = Return (name_of [[97], [98]], 7)" by code_simp
  show ?thesis using skipName_agrees [OF u] u by simp
qed

text \<open>Labels on the wire may contain dots.\<close>

definition wire_label_ok :: "bytes \<Rightarrow> bool" where
  "wire_label_ok l \<longleftrightarrow> l \<noteq> [] \<and> length l < 64"

lemma length_wire_labels: "length (wire_labels ls) = length (flat ls)"
  by (induction ls) (simp_all add: wire_labels_def)

lemma wire_name_wire_labels:
  "\<forall>l \<in> set ls. wire_label_ok l \<Longrightarrow> wire_name (pre @ wire_labels ls @ 0 # post) (length pre) (length pre + length (flat ls) + 1) 0 ls"
proof (induction ls arbitrary: pre)
  case Nil
  then show ?case using wire_end [of "pre @ 0 # post" "length pre"] by (simp add: wire_labels_def found_at_def)
next
  case (Cons l ls)
  let ?msg = "pre @ wire_labels (l # ls) @ 0 # post"
  have "wire_name ?msg (length pre + 1 + length l) (length pre + length (flat (l # ls)) + 1) 0 ls"
    using Cons.IH [of "pre @ of_nat (length l) # l"] Cons.prems by (simp add: wire_labels_def add_ac)
  moreover have "found_at ?msg (length pre) (of_nat (length l) # l)" by (simp add: wire_labels_def found_at_def)
  ultimately show ?case using wire_label Cons.prems by (simp add: wire_label_ok_def)
qed

lemma Name_unpack_labels:
  assumes "\<forall>l \<in> set ls. wire_label_ok l" "length (label_text ls) \<le> nameLen"
  shows "Name_unpack zero_Name (pre @ wire_labels ls @ 0 # post) (length pre) = Return (name_of ls, length pre + length (flat ls) + 1)"
  unfolding Name_unpack_def by (rule unpackCompressed_wire [OF wire_name_wire_labels [OF assms(1)] _ _ assms(2)]) simp_all

lemma wire_labels_inject:
  "\<lbrakk>\<forall>l \<in> set ls. wire_label_ok l; \<forall>l \<in> set ls'. wire_label_ok l; wire_labels ls = wire_labels ls'\<rbrakk> \<Longrightarrow> ls = ls'"
proof (induction ls arbitrary: ls')
  case Nil
  then show ?case by (cases ls') (simp_all add: wire_labels_def)
next
  case (Cons l ls)
  then obtain l' ls'' where ls': "ls' = l' # ls''" by (cases ls') (simp_all add: wire_labels_def)
  have eq: "(of_nat (length l) :: byte) = of_nat (length l')" "l @ wire_labels ls = l' @ wire_labels ls''"
    using Cons.prems(3) by (simp_all add: wire_labels_def ls')
  have "length l = length l'"
    using arg_cong [OF eq(1), of unat] Cons.prems(1,2) by (simp add: ls' wire_label_ok_def unat_of_nat)
  then show ?case using eq(2) Cons.IH [of ls''] Cons.prems(1,2) by (simp add: ls')
qed

lemma split_dots_shorter: "l \<in> set (split_dots [] (flat ls)) \<Longrightarrow> \<exists>l' \<in> set ls. length l \<le> length l'"
proof (induction ls)
  case (Cons l' ls)
  have "\<exists>ks. split_dots acc (m @ dot # t) = ks @ split_dots [] t \<and> (\<forall>k \<in> set ks. length k \<le> length acc + length m)" for acc m t
  proof (induction m arbitrary: acc)
    case (Cons b m)
    from Cons.IH [of "[]"] Cons.IH [of "acc @ [b]"] obtain ks ks' where
      "split_dots [] (m @ dot # t) = ks @ split_dots [] t" "\<forall>k \<in> set ks. length k \<le> length m"
      "split_dots (acc @ [b]) (m @ dot # t) = ks' @ split_dots [] t" "\<forall>k \<in> set ks'. length k \<le> length acc + length (b # m)" by auto
    then show ?case by (cases "b = dot") (auto intro: exI [of _ "acc # ks"])
  qed (auto intro: exI [of _ "[acc]" for acc])
  from this [of "[]" l' "flat ls"] obtain ks where "split_dots [] (l' @ dot # flat ls) = ks @ split_dots [] (flat ls)"
    "\<forall>k \<in> set ks. length k \<le> length l'" by auto
  then show ?case using Cons by auto
qed simp

lemma find_empty_label:
  "\<forall>l \<in> set ls. length l < 2 ^ 6 \<Longrightarrow> find (\<lambda>l. l = [] \<or> length l \<ge> 2 ^ 6) ls = (if [] \<in> set ls then Some [] else None)"
  by (induction ls) auto

lemma Name_pack_name_of:
  assumes "ls \<noteq> []" "\<forall>l \<in> set ls. wire_label_ok l" "length (flat ls) \<le> nameLen"
  shows "fst (Name_pack (name_of ls) off msg None) =
    (let ls' = split_dots [] (flat ls) in if [] \<in> set ls' then Fail errZeroSegLen else Return (msg @ wire_labels ls' @ [0]))"
proof -
  let ?ls = "split_dots [] (flat ls)"
  have name: "array_ok (name_of ls)" "Name_String (name_of ls) = flat ls"
    using assms(1,3) by (simp_all add: name_of_def label_text_def array_ok_def Name_String_def nameLen_def unat_of_nat)
  have "flat ls \<noteq> [dot]" using assms(1,2) by (cases ls; cases "hd ls") (simp_all add: wire_label_ok_def)
  moreover have "\<forall>l \<in> set ?ls. length l < 2 ^ 6" using split_dots_shorter [of _ ls] assms(2) by (fastforce simp: wire_label_ok_def)
  then have "find (\<lambda>l. l = [] \<or> length l \<ge> 2 ^ 6) ?ls = (if [] \<in> set ?ls then Some [] else None)"
    by (rule find_empty_label)
  ultimately show ?thesis using Name_pack_labels [OF name(1), of off msg None] assms(1) by (simp add: name Let_def pack_labels_uncompressed)
qed



end
