(* ===== verification/DNS_Resource.thy ===== *)
theory DNS_Resource
  imports DNS_Name
begin

text \<open>
  Questions, resource headers and resource bodies of \<open>src/dns/dnsmessage/message.go\<close>: one constructor
  of \<open>ResourceBody\<close> per body struct with its \<open>realType\<close>, \<open>pack\<close> and \<open>unpack\<close> functions, the EDNS(0)
  accessors, \<open>Resource.pack\<close> with the fix-up of the length field, and \<open>skipResource\<close>.

  A packer is related to its unpacker by \<open>encodes\<close>: under a correct compression map it only appends,
  keeps the map correct, and the unpacker reads the value back at the old end of the message,
  whatever follows.  \<open>append_only\<close> says that a packer looks at the message only through its length;
  it is what makes the later overwriting of the length field harmless.
\<close>

unbundle bit_operations_syntax

section \<open>Data\<close>

record Question =
  QName :: Name
  QType :: Type
  QClass :: Class

record ResourceHeader =
  RName :: Name
  RType :: Type
  RClass :: Class
  TTL :: u32
  RLength :: u16

record DNSOption =
  Code :: u16
  OData :: bytes

datatype ResourceBody =
    CNAMEResource (CNAME: Name)
  | MXResource (Pref: u16) (MX: Name)
  | NSResource (NS: Name)
  | PTRResource (PTR: Name)
  | SOAResource (SOA_NS: Name) (MBox: Name) (Serial: u32) (Refresh: u32) (Retry: u32) (Expire: u32) (MinTTL: u32)
  | TXTResource (TXT: "bytes list")
  | SRVResource (Priority: u16) (Weight: u16) (Port: u16) (Target: Name)
  | AResource (A: bytes)
  | AAAAResource (AAAA: bytes)
  | OPTResource (Options: "DNSOption list")
  | UnknownResource (UType: Type) (UData: bytes)

text \<open>\<open>Body\<close> is \<open>None\<close> for a nil interface.\<close>

record Resource =
  Res_Header :: ResourceHeader
  Body :: "ResourceBody option"

fun realType :: "ResourceBody \<Rightarrow> Type" where
  "realType (CNAMEResource _) = TypeCNAME"
| "realType (MXResource _ _) = TypeMX"
| "realType (NSResource _) = TypeNS"
| "realType (PTRResource _) = TypePTR"
| "realType (SOAResource _ _ _ _ _ _ _) = TypeSOA"
| "realType (TXTResource _) = TypeTXT"
| "realType (SRVResource _ _ _ _) = TypeSRV"
| "realType (AResource _) = TypeA"
| "realType (AAAAResource _) = TypeAAAA"
| "realType (OPTResource _) = TypeOPT"
| "realType (UnknownResource t _) = t"

section \<open>Packing\<close>

text \<open>A step that appends and cannot fail.\<close>

definition emit :: "(bytes \<Rightarrow> bytes) \<Rightarrow> packer" where
  "emit f msg cmap = (Return (f msg), cmap)"

definition Question_pack :: "Question \<Rightarrow> nat \<Rightarrow> packer" where
  "Question_pack q compressionOff msg =
     bind_meth (wrap_meth (nestedError ''Name'') (Name_pack (QName q) compressionOff msg)) (\<lambda>msg.
     emit (\<lambda>msg. packClass (packType msg (QType q)) (QClass q)) msg)"

definition CNAMEResource_pack :: "Name \<Rightarrow> nat \<Rightarrow> packer" where
  "CNAMEResource_pack cname compressionOff msg = Name_pack cname compressionOff msg"

definition MXResource_pack :: "u16 \<Rightarrow> Name \<Rightarrow> nat \<Rightarrow> packer" where
  "MXResource_pack pref mx compressionOff msg =
     bind_meth (emit (\<lambda>msg. packUint16 msg pref) msg) (\<lambda>msg.
     wrap_meth (nestedError ''MXResource.MX'') (Name_pack mx compressionOff msg))"

definition NSResource_pack :: "Name \<Rightarrow> nat \<Rightarrow> packer" where
  "NSResource_pack ns compressionOff msg = Name_pack ns compressionOff msg"

definition PTRResource_pack :: "Name \<Rightarrow> nat \<Rightarrow> packer" where
  "PTRResource_pack ptr compressionOff msg = Name_pack ptr compressionOff msg"

definition SOAResource_pack ::
    "Name \<Rightarrow> Name \<Rightarrow> u32 \<Rightarrow> u32 \<Rightarrow> u32 \<Rightarrow> u32 \<Rightarrow> u32 \<Rightarrow> nat \<Rightarrow> packer" where
  "SOAResource_pack ns mbox serial refresh retry expire minTTL compressionOff msg =
     bind_meth (wrap_meth (nestedError ''SOAResource.NS'') (Name_pack ns compressionOff msg)) (\<lambda>msg.
     bind_meth (wrap_meth (nestedError ''SOAResource.MBox'') (Name_pack mbox compressionOff msg)) (\<lambda>msg.
     bind_meth (emit (\<lambda>msg. packUint32 msg serial) msg) (\<lambda>msg.
     bind_meth (emit (\<lambda>msg. packUint32 msg refresh) msg) (\<lambda>msg.
     bind_meth (emit (\<lambda>msg. packUint32 msg retry) msg) (\<lambda>msg.
     bind_meth (emit (\<lambda>msg. packUint32 msg expire) msg) (\<lambda>msg.
     emit (\<lambda>msg. packUint32 msg minTTL) msg))))))"

fun TXTResource_pack :: "bytes list \<Rightarrow> packer" where
  "TXTResource_pack [] msg = emit (\<lambda>msg. msg) msg"
| "TXTResource_pack (s # txts) msg =
     bind_meth (lift_meth (packText msg s)) (\<lambda>msg. TXTResource_pack txts msg)"

text \<open>The target of an SRV record is packed with a nil compression map.\<close>

definition Name_pack_uncompressed :: "Name \<Rightarrow> nat \<Rightarrow> packer" where
  "Name_pack_uncompressed n compressionOff msg cmap = (fst (Name_pack n compressionOff msg None), cmap)"

definition SRVResource_pack :: "u16 \<Rightarrow> u16 \<Rightarrow> u16 \<Rightarrow> Name \<Rightarrow> nat \<Rightarrow> packer" where
  "SRVResource_pack priority weight port target compressionOff msg =
     bind_meth (emit (\<lambda>msg. packUint16 msg priority) msg) (\<lambda>msg.
     bind_meth (emit (\<lambda>msg. packUint16 msg weight) msg) (\<lambda>msg.
     bind_meth (emit (\<lambda>msg. packUint16 msg port) msg) (\<lambda>msg.
     wrap_meth (nestedError ''SRVResource.Target'') (Name_pack_uncompressed target compressionOff msg))))"

definition AResource_pack :: "bytes \<Rightarrow> packer" where
  "AResource_pack a msg = emit (\<lambda>msg. packBytes msg a) msg"

definition AAAAResource_pack :: "bytes \<Rightarrow> packer" where
  "AAAAResource_pack aaaa msg = emit (\<lambda>msg. packBytes msg aaaa) msg"

fun OPTResource_pack :: "DNSOption list \<Rightarrow> packer" where
  "OPTResource_pack [] msg = emit (\<lambda>msg. msg) msg"
| "OPTResource_pack (opt # opts) msg =
     (let msg = packUint16 msg (Code opt);
          l = of_nat (length (OData opt)) :: u16;
          msg = packUint16 msg l;
          msg = packBytes msg (OData opt)
      in OPTResource_pack opts msg)"

definition UnknownResource_pack :: "bytes \<Rightarrow> packer" where
  "UnknownResource_pack data msg = emit (\<lambda>msg. packBytes msg data) msg"

text \<open>The interface call \<open>r.Body.pack(msg, compression, compressionOff)\<close>.\<close>

fun ResourceBody_pack :: "ResourceBody \<Rightarrow> nat \<Rightarrow> packer" where
  "ResourceBody_pack (CNAMEResource n) off = CNAMEResource_pack n off"
| "ResourceBody_pack (MXResource p n) off = MXResource_pack p n off"
| "ResourceBody_pack (NSResource n) off = NSResource_pack n off"
| "ResourceBody_pack (PTRResource n) off = PTRResource_pack n off"
| "ResourceBody_pack (SOAResource n m s rf rt e t) off = SOAResource_pack n m s rf rt e t off"
| "ResourceBody_pack (TXTResource ts) off = TXTResource_pack ts"
| "ResourceBody_pack (SRVResource p w q n) off = SRVResource_pack p w q n off"
| "ResourceBody_pack (AResource a) off = AResource_pack a"
| "ResourceBody_pack (AAAAResource a) off = AAAAResource_pack a"
| "ResourceBody_pack (OPTResource os) off = OPTResource_pack os"
| "ResourceBody_pack (UnknownResource t d) off = UnknownResource_pack d"

definition ResourceHeader_pack ::
    "ResourceHeader \<Rightarrow> nat \<Rightarrow> bytes \<Rightarrow> (compression, dns_error, bytes \<times> nat) meth" where
  "ResourceHeader_pack h compressionOff oldMsg =
     bind_meth (wrap_meth (nestedError ''Name'') (Name_pack (RName h) compressionOff oldMsg)) (\<lambda>msg.
       let msg = packType msg (RType h);
           msg = packClass msg (RClass h);
           msg = packUint32 msg (TTL h);
           lenOff = length msg;
           msg = packUint16 msg (RLength h)
       in lift_meth (Return (msg, lenOff)))"

text \<open>Writing through a zero-length slice \<open>msg[off:off]\<close> with enough capacity overwrites \<open>msg\<close>.\<close>

definition overwrite :: "bytes \<Rightarrow> nat \<Rightarrow> bytes \<Rightarrow> bytes" where
  "overwrite msg off bs = take off msg @ bs @ drop (off + length bs) msg"

definition fixLen :: "ResourceHeader \<Rightarrow> bytes \<Rightarrow> nat \<Rightarrow> nat \<Rightarrow> (bytes \<times> ResourceHeader) dns" where
  "fixLen h msg lenOff preLen =
     (let conLen = length msg - preLen in
      if conLen > maxUint16 then Fail errResTooLong
      else Return (overwrite msg lenOff (packUint16 [] (of_nat conLen)), h\<lparr>RLength := of_nat conLen\<rparr>))"

text \<open>\<open>Resource.pack\<close> sets \<open>Type\<close> and \<open>Length\<close> in the header of the resource it packs; the updated
  resource is part of the result, on the error paths too.\<close>

definition Resource_pack ::
    "nat \<Rightarrow> bytes \<Rightarrow> (Resource \<times> compression, dns_error, bytes) meth" where
  "Resource_pack compressionOff msg = (\<lambda>(r, cmap).
     case Body r of
       None \<Rightarrow> (Fail errNilResouceBody, r, cmap)
     | Some b \<Rightarrow>
         let h = (Res_Header r)\<lparr>RType := realType b\<rparr>; r = r\<lparr>Res_Header := h\<rparr> in
         (case ResourceHeader_pack h compressionOff msg cmap of
            (Fail err, cmap) \<Rightarrow> (Fail (nestedError ''ResourceHeader'' err), r, cmap)
          | (Panic, cmap) \<Rightarrow> (Panic, r, cmap)
          | (Return (msg, lenOff), cmap) \<Rightarrow>
              let preLen = length msg in
              (case ResourceBody_pack b compressionOff msg cmap of
                 (Fail err, cmap) \<Rightarrow> (Fail (nestedError ''content'' err), r, cmap)
               | (Panic, cmap) \<Rightarrow> (Panic, r, cmap)
               | (Return msg, cmap) \<Rightarrow>
                   (case fixLen h msg lenOff preLen of
                      Fail err \<Rightarrow> (Fail err, r, cmap)
                    | Panic \<Rightarrow> (Panic, r, cmap)
                    | Return (msg, h) \<Rightarrow> (Return msg, r\<lparr>Res_Header := h\<rparr>, cmap)))))"

section \<open>Unpacking\<close>

definition ResourceHeader_unpack :: "bytes \<Rightarrow> nat \<Rightarrow> (ResourceHeader \<times> nat) dns" where
  "ResourceHeader_unpack msg off =
     bind_outcome (map_error (nestedError ''Name'') (Name_unpack zero_Name msg off)) (\<lambda>(n, newOff).
     bind_outcome (map_error (nestedError ''Type'') (unpackType msg newOff)) (\<lambda>(t, newOff).
     bind_outcome (map_error (nestedError ''Class'') (unpackClass msg newOff)) (\<lambda>(c, newOff).
     bind_outcome (map_error (nestedError ''TTL'') (unpackUint32 msg newOff)) (\<lambda>(ttl, newOff).
     bind_outcome (map_error (nestedError ''Length'') (unpackUint16 msg newOff)) (\<lambda>(l, newOff).
     Return (\<lparr>RName = n, RType = t, RClass = c, TTL = ttl, RLength = l\<rparr>, newOff))))))"

definition unpackCNAMEResource :: "bytes \<Rightarrow> nat \<Rightarrow> ResourceBody dns" where
  "unpackCNAMEResource msg off =
     bind_outcome (Name_unpack zero_Name msg off) (\<lambda>(cname, _). Return (CNAMEResource cname))"

definition unpackMXResource :: "bytes \<Rightarrow> nat \<Rightarrow> ResourceBody dns" where
  "unpackMXResource msg off =
     bind_outcome (map_error (nestedError ''Pref'') (unpackUint16 msg off)) (\<lambda>(pref, off).
     bind_outcome (map_error (nestedError ''MX'') (Name_unpack zero_Name msg off)) (\<lambda>(mx, _).
     Return (MXResource pref mx)))"

definition unpackNSResource :: "bytes \<Rightarrow> nat \<Rightarrow> ResourceBody dns" where
  "unpackNSResource msg off =
     bind_outcome (Name_unpack zero_Name msg off) (\<lambda>(ns, _). Return (NSResource ns))"

definition unpackPTRResource :: "bytes \<Rightarrow> nat \<Rightarrow> ResourceBody dns" where
  "unpackPTRResource msg off =
     bind_outcome (Name_unpack zero_Name msg off) (\<lambda>(ptr, _). Return (PTRResource ptr))"

definition unpackSOAResource :: "bytes \<Rightarrow> nat \<Rightarrow> ResourceBody dns" where
  "unpackSOAResource msg off =
     bind_outcome (map_error (nestedError ''NS'') (Name_unpack zero_Name msg off)) (\<lambda>(ns, off).
     bind_outcome (map_error (nestedError ''MBox'') (Name_unpack zero_Name msg off)) (\<lambda>(mbox, off).
     bind_outcome (map_error (nestedError ''Serial'') (unpackUint32 msg off)) (\<lambda>(serial, off).
     bind_outcome (map_error (nestedError ''Refresh'') (unpackUint32 msg off)) (\<lambda>(refresh, off).
     bind_outcome (map_error (nestedError ''Retry'') (unpackUint32 msg off)) (\<lambda>(retry, off).
     bind_outcome (map_error (nestedError ''Expire'') (unpackUint32 msg off)) (\<lambda>(expire, off).
     bind_outcome (map_error (nestedError ''MinTTL'') (unpackUint32 msg off)) (\<lambda>(minTTL, _).
     Return (SOAResource ns mbox serial refresh retry expire minTTL))))))))"

lemma txt_step:
  assumes "n < len" "unpackText msg off = Return (t, off')" "\<not> len - n < of_nat (length t) + 1"
  shows "unat (n + (of_nat (length t) + 1)) = unat n + length t + 1" "unat n + length t + 1 \<le> unat (len :: u16)"
proof -
  have "length t \<le> 255" using textc.unpack_sound [OF assms(2)] by simp
  then have t: "unat (of_nat (length t) + 1 :: u16) = length t + 1"
    by (simp add: unat_word_ariths unat_of_nat)
  have "unat (len - n) = unat len - unat n" using assms(1) by (intro unat_sub) simp
  then show le: "unat n + length t + 1 \<le> unat len"
    using assms(1,3) t by (simp add: word_less_nat_alt)
  have "unat len < 2 ^ 16" using unsigned_less [of len] by simp
  then show "unat (n + (of_nat (length t) + 1)) = unat n + length t + 1"
    using le t by (simp add: unat_word_ariths(1))
qed

function txt_loop :: "bytes \<Rightarrow> nat \<Rightarrow> u16 \<Rightarrow> u16 \<Rightarrow> bytes list \<Rightarrow> ResourceBody dns" where
  "txt_loop msg off len n txts =
     (if \<not> n < len then Return (TXTResource txts)
      else bind_outcome (map_error (nestedError ''text'') (unpackText msg off)) (\<lambda>(t, off).
        if len - n < of_nat (length t) + 1 then Fail errCalcLen
        else txt_loop msg off len (n + (of_nat (length t) + 1)) (txts @ [t])))"
  by pat_completeness auto
termination
proof (relation "measure (\<lambda>(_, _, len, n, _). unat len - unat n)")
  fix msg :: bytes and off :: nat and len n :: u16 and txts :: "bytes list" and r t off'
  assume "\<not> \<not> n < len" "map_error (nestedError ''text'') (unpackText msg off) = Return r" "(t, off') = r"
    "\<not> len - n < of_nat (length t) + 1"
  then show "((msg, off', len, n + (of_nat (length t) + 1), txts @ [t]), msg, off, len, n, txts)
      \<in> measure (\<lambda>(_, _, len, n, _). unat len - unat n)"
    using txt_step [of n len msg off t off'] by (auto simp del: of_nat_Suc)
qed simp

declare txt_loop.simps [simp del]

definition unpackTXTResource :: "bytes \<Rightarrow> nat \<Rightarrow> u16 \<Rightarrow> ResourceBody dns" where
  "unpackTXTResource msg off len = txt_loop msg off len 0 []"

definition unpackSRVResource :: "bytes \<Rightarrow> nat \<Rightarrow> ResourceBody dns" where
  "unpackSRVResource msg off =
     bind_outcome (map_error (nestedError ''Priority'') (unpackUint16 msg off)) (\<lambda>(priority, off).
     bind_outcome (map_error (nestedError ''Weight'') (unpackUint16 msg off)) (\<lambda>(weight, off).
     bind_outcome (map_error (nestedError ''Port'') (unpackUint16 msg off)) (\<lambda>(port, off).
     bind_outcome (map_error (nestedError ''Target'') (unpackCompressed zero_Name msg off False)) (\<lambda>(target, _).
     Return (SRVResource priority weight port target)))))"

definition unpackAResource :: "bytes \<Rightarrow> nat \<Rightarrow> ResourceBody dns" where
  "unpackAResource msg off = bind_outcome (unpackBytes msg off 4) (\<lambda>(a, _). Return (AResource a))"

definition unpackAAAAResource :: "bytes \<Rightarrow> nat \<Rightarrow> ResourceBody dns" where
  "unpackAAAAResource msg off = bind_outcome (unpackBytes msg off 16) (\<lambda>(aaaa, _). Return (AAAAResource aaaa))"

function opt_loop :: "bytes \<Rightarrow> nat \<Rightarrow> nat \<Rightarrow> DNSOption list \<Rightarrow> ResourceBody dns" where
  "opt_loop msg off endOff opts =
     (if \<not> off < endOff then Return (OPTResource opts)
      else bind_outcome (map_error (nestedError ''Code'') (unpackUint16 msg off)) (\<lambda>(code, off1).
        bind_outcome (map_error (nestedError ''Data'') (unpackUint16 msg off1)) (\<lambda>(l, off2).
        bind_outcome (go_slice msg off2 (length msg)) (\<lambda>rest.
          if min (unat l) (length rest) \<noteq> unat l then Fail (nestedError ''Data'' errCalcLen)
          else opt_loop msg (off2 + unat l) endOff (opts @ [\<lparr>Code = code, OData = take (unat l) rest\<rparr>])))))"
  by pat_completeness auto
termination
  by (relation "measure (\<lambda>(_, off, endOff, _). endOff - off)") (auto dest!: u16c.unpack_sound)

declare opt_loop.simps [simp del]

definition unpackOPTResource :: "bytes \<Rightarrow> nat \<Rightarrow> u16 \<Rightarrow> ResourceBody dns" where
  "unpackOPTResource msg off len = opt_loop msg off (off + unat len) []"

definition unpackUnknownResource :: "Type \<Rightarrow> bytes \<Rightarrow> nat \<Rightarrow> u16 \<Rightarrow> ResourceBody dns" where
  "unpackUnknownResource recordType msg off len =
     bind_outcome (unpackBytes msg off (unat len)) (\<lambda>(data, _). Return (UnknownResource recordType data))"

definition unpackResourceBody :: "bytes \<Rightarrow> nat \<Rightarrow> ResourceHeader \<Rightarrow> (ResourceBody \<times> nat) dns" where
  "unpackResourceBody msg off hdr =
     (let (r, name) =
        (if RType hdr = TypeA then (unpackAResource msg off, ''A'')
         else if RType hdr = TypeNS then (unpackNSResource msg off, ''NS'')
         else if RType hdr = TypeCNAME then (unpackCNAMEResource msg off, ''CNAME'')
         else if RType hdr = TypeSOA then (unpackSOAResource msg off, ''SOA'')
         else if RType hdr = TypePTR then (unpackPTRResource msg off, ''PTR'')
         else if RType hdr = TypeMX then (unpackMXResource msg off, ''MX'')
         else if RType hdr = TypeTXT then (unpackTXTResource msg off (RLength hdr), ''TXT'')
         else if RType hdr = TypeAAAA then (unpackAAAAResource msg off, ''AAAA'')
         else if RType hdr = TypeSRV then (unpackSRVResource msg off, ''SRV'')
         else if RType hdr = TypeOPT then (unpackOPTResource msg off (RLength hdr), ''OPT'')
         else (unpackUnknownResource (RType hdr) msg off (RLength hdr), ''Unknown''))
      in bind_outcome (map_error (nestedError (name @ '' record'')) r) (\<lambda>b.
         Return (b, off + unat (RLength hdr))))"

definition skipResource :: "bytes \<Rightarrow> nat \<Rightarrow> nat dns" where
  "skipResource msg off =
     bind_outcome (map_error (nestedError ''Name'') (skipName msg off)) (\<lambda>newOff.
     bind_outcome (map_error (nestedError ''Type'') (skipType msg newOff)) (\<lambda>newOff.
     bind_outcome (map_error (nestedError ''Class'') (skipClass msg newOff)) (\<lambda>newOff.
     bind_outcome (map_error (nestedError ''TTL'') (skipUint32 msg newOff)) (\<lambda>newOff.
     bind_outcome (map_error (nestedError ''Length'') (unpackUint16 msg newOff)) (\<lambda>(len, newOff).
     if newOff + unat len > length msg then Fail errResourceLen else Return (newOff + unat len))))))"

section \<open>EDNS(0)\<close>

definition edns0Version :: u32 where [dns_const]: "edns0Version = 0"
definition edns0DNSSECOK :: u32 where [dns_const]: "edns0DNSSECOK = 0x00008000"
definition ednsVersionMask :: u32 where [dns_const]: "ednsVersionMask = 0x00ff0000"
definition edns0DNSSECOKMask :: u32 where [dns_const]: "edns0DNSSECOKMask = 0x00ff8000"

definition SetEDNS0 :: "int \<Rightarrow> RCode \<Rightarrow> bool \<Rightarrow> ResourceHeader \<Rightarrow> ResourceHeader" where
  "SetEDNS0 udpPayloadLen extRCode dnssecOK h =
     (let ttl = push_bit 24 (drop_bit 4 (ucast extRCode));
          ttl = (if dnssecOK then ttl OR edns0DNSSECOK else ttl)
      in h\<lparr>RName := \<lparr>Data = dot # replicate (nameLen - 1) 0, Length = 1\<rparr>,
           RType := TypeOPT, RClass := of_int udpPayloadLen, TTL := ttl\<rparr>)"

definition DNSSECAllowed :: "ResourceHeader \<Rightarrow> bool" where
  "DNSSECAllowed h \<longleftrightarrow> TTL h AND edns0DNSSECOKMask = edns0DNSSECOK"

definition ExtendedRCode :: "ResourceHeader \<Rightarrow> RCode \<Rightarrow> RCode" where
  "ExtendedRCode h rcode =
     (if TTL h AND ednsVersionMask = edns0Version then ucast (push_bit 4 (drop_bit 24 (TTL h))) OR rcode
      else rcode)"

lemma edns_masks:
  "ednsVersionMask = push_bit 16 (mask 8)" "edns0DNSSECOKMask = push_bit 15 (mask 9)" "edns0DNSSECOK = push_bit 15 1"
  by code_simp+

lemma bit_edns_TTL:
  "bit (TTL (SetEDNS0 len c ok h)) n \<longleftrightarrow> (24 \<le> n \<and> n < 32 \<and> bit c (n - 24 + 4)) \<or> (ok \<and> n = 15)"
  unfolding SetEDNS0_def Let_def edns_masks ResourceHeader.simps
  by (auto simp: bit_simps simp del: push_bit_of_1)

lemma edns_TTL_masked:
  "TTL (SetEDNS0 len c ok h) AND edns0DNSSECOKMask = (if ok then edns0DNSSECOK else 0)"
  "TTL (SetEDNS0 len c ok h) AND ednsVersionMask = 0"
proof -
  show "TTL (SetEDNS0 len c ok h) AND edns0DNSSECOKMask = (if ok then edns0DNSSECOK else 0)"
  proof (rule bit_word_eqI)
    fix n
    show "bit (TTL (SetEDNS0 len c ok h) AND edns0DNSSECOKMask) n = bit (if ok then edns0DNSSECOK else 0) n"
      unfolding edns_masks bit_and_iff bit_edns_TTL bit_push_bit_iff bit_mask_iff
      by (cases ok) (auto simp: bit_push_bit_iff bit_1_iff simp del: push_bit_of_1)
  qed
  show "TTL (SetEDNS0 len c ok h) AND ednsVersionMask = 0"
  proof (rule bit_word_eqI)
    fix n
    show "bit (TTL (SetEDNS0 len c ok h) AND ednsVersionMask) n = bit 0 n"
      unfolding edns_masks bit_and_iff bit_edns_TTL bit_push_bit_iff bit_mask_iff by auto
  qed
qed

lemma edns_rcode_bits: "ucast (push_bit 4 (drop_bit 24 (TTL (SetEDNS0 len c ok h)))) OR (c AND 0xF) = c AND (0xFFF :: u16)"
proof (rule bit_word_eqI)
  fix n :: nat assume n: "n < LENGTH(16)"
  have m: "(0xF :: u16) = mask 4" "(0xFFF :: u16) = mask 12" by code_simp+
  show "bit (ucast (push_bit 4 (drop_bit 24 (TTL (SetEDNS0 len c ok h)))) OR (c AND 0xF)) n = bit (c AND (0xFFF :: u16)) n"
    unfolding m bit_or_iff bit_and_iff bit_ucast_iff bit_push_bit_iff bit_drop_bit_eq comp_apply bit_edns_TTL bit_mask_iff
    using n by auto
qed

text \<open>A header that \<open>SetEDNS0\<close> configured gives back what was put in: the DNSSEC flag, and, combined with the
  low four bits that travel in the message header, the low twelve bits of the extended response code, all
  that EDNS(0) can carry.\<close>

theorem EDNS0_round_trip:
  "DNSSECAllowed (SetEDNS0 len c ok h) = ok \<and>
   ExtendedRCode (SetEDNS0 len c ok h) (c AND 0xF) = c AND 0xFFF"
  by (auto simp: DNSSECAllowed_def ExtendedRCode_def edns_TTL_masked edns0Version_def edns_rcode_bits edns0DNSSECOK_def)

end
