(* ===== verification/DNS_Encoding.thy ===== *)
theory DNS_Encoding
  imports DNS_Resource
begin

text \<open>
  What packing a question or a resource promises to the code that reads it back.

  \<open>append_only\<close>: a packer looks at the message only through its length and appends; this is what
  makes the later overwriting of the length field (\<open>fixLen\<close>) harmless.  \<open>encodes\<close> and \<open>body_encodes\<close>:
  under a correct compression map the packer keeps the map correct, and the unpacker reads the value
  back at the old end of the message, whatever follows.  The lemmas establish this for every field,
  for names, for the eleven kinds of resource body, for resource headers and for whole resources,
  where the value read back is the resource as \<open>Resource.pack\<close> has updated it.

  The locale \<open>section_codec\<close> is the interface of the elements of a message section.  Questions and
  resources interpret it, and its lemma about whole sections is what packing a message rests on.
\<close>

unbundle bit_operations_syntax

section \<open>Packers only append\<close>

definition append_only :: "packer \<Rightarrow> bool" where
  "append_only pk \<longleftrightarrow> (\<forall>L c. \<exists>r c'. \<forall>msg. length msg = L \<longrightarrow> pk msg c = (map_outcome id (\<lambda>w. msg @ w) r, c'))"

lemma append_onlyD:
  assumes "append_only pk" "pk msg c = (Return msg', c')"
  shows "\<exists>w. msg' = msg @ w \<and> (\<forall>msg2. length msg2 = length msg \<longrightarrow> pk msg2 c = (Return (msg2 @ w), c'))"
proof -
  obtain r c'' where r: "\<And>m. length m = length msg \<Longrightarrow> pk m c = (map_outcome id (\<lambda>w. m @ w) r, c'')"
    using assms(1) unfolding append_only_def by metis
  then show ?thesis using assms(2) r [of msg] by (cases r) auto
qed

lemma append_only_emit [simp, intro]: "append_only (emit (\<lambda>msg. msg @ w))"
  unfolding append_only_def emit_def by (metis outcome.map(1))

lemma append_only_bind [intro]:
  assumes "append_only p" "append_only q"
  shows "append_only (\<lambda>msg. bind_meth (p msg) q)"
  unfolding append_only_def
proof (intro allI)
  fix L c
  obtain r1 c1 where p: "\<And>m. length m = L \<Longrightarrow> p m c = (map_outcome id (\<lambda>w. m @ w) r1, c1)"
    using assms(1) unfolding append_only_def by metis
  show "\<exists>r c'. \<forall>msg. length msg = L \<longrightarrow> bind_meth (p msg) q c = (map_outcome id (\<lambda>w. msg @ w) r, c')"
  proof (cases r1)
    case (Return w1)
    obtain r2 c2 where q: "\<And>m. length m = L + length w1 \<Longrightarrow> q m c1 = (map_outcome id (\<lambda>w. m @ w) r2, c2)"
      using assms(2) unfolding append_only_def by metis
    have "bind_meth (p msg) q c = (map_outcome id (\<lambda>w. msg @ w) (map_outcome id (\<lambda>w. w1 @ w) r2), c2)"
      if "length msg = L" for msg using p [OF that] q [of "msg @ w1"] that Return by (cases r2) simp_all
    then show ?thesis by blast
  next
    case (Fail e)
    then have "\<forall>msg. length msg = L \<longrightarrow> bind_meth (p msg) q c = (map_outcome id (\<lambda>w. msg @ w) (Fail e), c1)"
      using p by simp
    then show ?thesis by blast
  next
    case Panic
    then have "\<forall>msg. length msg = L \<longrightarrow> bind_meth (p msg) q c = (map_outcome id (\<lambda>w. msg @ w) Panic, c1)"
      using p by simp
    then show ?thesis by blast
  qed
qed

lemma append_only_wrap [intro]: "append_only p \<Longrightarrow> append_only (\<lambda>msg. wrap_meth f (p msg))"
  unfolding append_only_def
proof (intro allI)
  fix L c
  assume "\<forall>L c. \<exists>r c'. \<forall>msg. length msg = L \<longrightarrow> p msg c = (map_outcome id ((@) msg) r, c')"
  then obtain r c' where r: "\<And>msg. length msg = L \<Longrightarrow> p msg c = (map_outcome id (\<lambda>w. msg @ w) r, c')" by metis
  have "\<forall>msg. length msg = L \<longrightarrow> wrap_meth f (p msg) c = (map_outcome id (\<lambda>w. msg @ w) (map_error f r), c')"
    using r by (cases r) (simp_all add: wrap_meth_def)
  then show "\<exists>r c'. \<forall>msg. length msg = L \<longrightarrow> wrap_meth f (p msg) c = (map_outcome id (\<lambda>w. msg @ w) r, c')" by blast
qed

lemma name_loop_append_only:
  "\<exists>r c'. \<forall>msg. length msg = L \<longrightarrow> name_loop n off i beg msg c = (map_outcome id (\<lambda>w. msg @ w) r, c')"
proof (induction "unat (Length n) - i" arbitrary: i beg L c)
  case 0
  then have "\<forall>msg. length msg = L \<longrightarrow> name_loop n off i beg msg c = (map_outcome id (\<lambda>w. msg @ w) (Return [0]), c)"
    by (simp add: name_loop.simps [of n off i])
  then show ?case by blast
next
  case (Suc d)
  then have i: "i < unat (Length n)" by simp
  have IH: "\<exists>r c'. \<forall>msg. length msg = L' \<longrightarrow> name_loop n off (i + 1) beg' msg c2 = (map_outcome id (\<lambda>w. msg @ w) r, c')"
    for L' beg' c2 by (rule Suc.hyps(1)) (use Suc.hyps(2) in simp)
  show ?case
  proof (cases "Data n ! i = dot")
    case dot: True
    let ?w = "of_nat (i - beg) # map ((!) (Data n)) [beg..<i]"
    consider "i - beg \<ge> 2 ^ 6" | "i - beg = 0" | "i - beg < 2 ^ 6" "i - beg \<noteq> 0" by linarith
    then show ?thesis
    proof cases
      case 1
      then have "\<forall>msg. length msg = L \<longrightarrow> name_loop n off i beg msg c =
          (map_outcome id (\<lambda>w. msg @ w) (Fail errSegTooLong), c)"
        using i dot by (simp add: name_loop.simps [of n off i])
      then show ?thesis by blast
    next
      case 2
      then have "\<forall>msg. length msg = L \<longrightarrow> name_loop n off i beg msg c =
          (map_outcome id (\<lambda>w. msg @ w) (Fail errZeroSegLen), c)"
        using i dot by (simp add: name_loop.simps [of n off i])
      then show ?thesis by blast
    next
      case 3
      obtain r c' where r: "\<And>msg. length msg = L + length ?w \<Longrightarrow>
          name_loop n off (i + 1) (i + 1) msg c = (map_outcome id (\<lambda>w. msg @ w) r, c')"
        using IH [of "L + length ?w" "i + 1" c] by blast
      have "name_loop n off i beg msg c = (map_outcome id (\<lambda>w. msg @ w) (map_outcome id (\<lambda>w. ?w @ w) r), c')"
        if "length msg = L" for msg
        using i dot 3 that r [of "msg @ ?w"] by (cases r) (simp_all add: name_loop.simps [of n off i])
      then show ?thesis by blast
    qed
  next
    case False
    let ?key = "drop i (Data n)"
    consider "c = None \<or> (i \<noteq> 0 \<and> Data n ! (i - 1) \<noteq> dot)"
      | m p where "c = Some m" "i = 0 \<or> Data n ! (i - 1) = dot" "m ?key = Some p"
      | m where "c = Some m" "i = 0 \<or> Data n ! (i - 1) = dot" "m ?key = None"
      by (metis option.exhaust)
    then show ?thesis
    proof cases
      case 1
      then have "name_loop n off i beg msg c = name_loop n off (i + 1) beg msg c" for msg
        using i False by (auto simp: name_loop.simps [of n off i] split: option.splits)
      then show ?thesis using IH [of L beg c] by simp
    next
      case 2
      then have "\<forall>msg. length msg = L \<longrightarrow> name_loop n off i beg msg c =
          (map_outcome id (\<lambda>w. msg @ w) (Return (ptr_bytes p)), c)"
        using i False by (auto simp: name_loop.simps [of n off i])
      then show ?thesis by blast
    next
      case 3
      let ?c2 = "if L \<le> 0x3FFF then Some (m(?key \<mapsto> L - off)) else c"
      have "name_loop n off i beg msg c = name_loop n off (i + 1) beg msg ?c2" if "length msg = L" for msg
        using i False 3 that by (auto simp: name_loop.simps [of n off i])
      then show ?thesis using IH [of L beg ?c2] by simp
    qed
  qed
qed

lemma append_only_Name_pack [simp, intro]: "append_only (Name_pack n off)"
proof -
  have "append_only (name_loop n off 0 0)"
    unfolding append_only_def using name_loop_append_only by blast
  moreover have "append_only (\<lambda>msg c. (Fail e, c))" for e
    unfolding append_only_def by (metis outcome.map(2) id_apply)
  ultimately show ?thesis
    unfolding append_only_def Name_pack_def by (metis (no_types, lifting) outcome.map(1))
qed

text \<open>A packer and an unpacker that agree on a value.\<close>

definition encodes ::
    "nat \<Rightarrow> packer \<Rightarrow> (bytes \<Rightarrow> nat \<Rightarrow> (dns_error, 'a \<times> nat) outcome) \<Rightarrow> 'a \<Rightarrow> bool" where
  "encodes off pk up v \<longleftrightarrow> (\<forall>msg c msg' c'. off \<le> length msg \<longrightarrow> comp_ok off c msg \<longrightarrow> pk msg c = (Return msg', c') \<longrightarrow>
     (\<exists>w. msg' = msg @ w) \<and> comp_ok off c' msg' \<and>
     (\<forall>post. up (drop off msg' @ post) (length msg - off) = Return (v, length msg' - off)))"

lemma encodesD:
  assumes "encodes off pk up v" "pk msg c = (Return msg', c')" "off \<le> length msg" "comp_ok off c msg"
  shows "\<exists>w. msg' = msg @ w" "comp_ok off c' msg'" "off \<le> length msg'" "length msg \<le> length msg'"
    "up (drop off msg' @ post) (length msg - off) = Return (v, length msg' - off)"
proof -
  show w: "\<exists>w. msg' = msg @ w" and "comp_ok off c' msg'"
    "up (drop off msg' @ post) (length msg - off) = Return (v, length msg' - off)"
    using assms unfolding encodes_def by blast+
  from w show "off \<le> length msg'" "length msg \<le> length msg'" using assms(3) by auto
qed

lemma encodes_bind:
  assumes "encodes off p up v" "encodes off q (k v) u"
  shows "encodes off (\<lambda>msg. bind_meth (p msg) q) (\<lambda>m i. bind_outcome (up m i) (\<lambda>(x, j). k x m j)) u"
  unfolding encodes_def
proof (intro allI impI)
  fix msg c msg' c'
  assume a: "off \<le> length msg" "comp_ok off c msg" "bind_meth (p msg) q c = (Return msg', c')"
  then obtain msg1 c1 where s: "p msg c = (Return msg1, c1)" "q msg1 c1 = (Return msg', c')"
    by (auto simp: bind_meth_Return_iff)
  note d1 = encodesD [OF assms(1) s(1) a(1,2)]
  note d2 = encodesD [OF assms(2) s(2) d1(3,2)]
  obtain w1 w2 where w: "msg1 = msg @ w1" "msg' = msg1 @ w2" using d1(1) d2(1) by blast
  have "up (drop off msg' @ post) (length msg - off) = Return (v, length msg1 - off)" for post
    using d1(5) [of "w2 @ post"] w d1(3) by simp
  then show "(\<exists>w. msg' = msg @ w) \<and> comp_ok off c' msg' \<and>
      (\<forall>post. bind_outcome (up (drop off msg' @ post) (length msg - off)) (\<lambda>(x, j). k x (drop off msg' @ post) j) =
        Return (u, length msg' - off))"
    using d2 w by simp
qed

lemma encodes_wrap [intro]:
  "encodes off p up v \<Longrightarrow> encodes off (\<lambda>msg. wrap_meth f (p msg)) (\<lambda>m i. map_error g (up m i)) v"
  unfolding encodes_def by simp

lemma encodes_wrap_up [intro]: "encodes off p up v \<Longrightarrow> encodes off p (\<lambda>m i. map_error g (up m i)) v"
  unfolding encodes_def by simp

lemma drop_found_at: "off \<le> length msg \<Longrightarrow> found_at (drop off (msg @ w) @ post) (length msg - off) w"
  by (simp add: found_at_def)

lemma encodes_field:
  assumes "\<And>m i. found_at m i w \<Longrightarrow> up m i = Return (v, i + length w)"
  shows "encodes off (emit (\<lambda>msg. msg @ w)) up v"
  unfolding encodes_def emit_def using assms [OF drop_found_at] comp_ok_extend by auto

lemma encodes_u16: "encodes off (emit (\<lambda>msg. packUint16 msg v)) unpackUint16 v"
  unfolding packUint16_wire by (rule encodes_field) (simp add: unpackUint16_wire)

lemma encodes_u32: "encodes off (emit (\<lambda>msg. packUint32 msg v)) unpackUint32 v"
  unfolding packUint32_wire by (rule encodes_field) (simp add: unpackUint32_wire)

text \<open>Names as the package builds them, with at most ten labels.\<close>

definition name_ok :: "Name \<Rightarrow> bool" where
  "name_ok n \<longleftrightarrow> NewName (Name_String n) = Return n \<and> count_list (Name_String n) dot \<le> 10"

lemma count_label_text: "length ls \<le> count_list (label_text ls) dot"
proof -
  have "length ls \<le> count_list (flat ls) dot" by (induction ls) auto
  then show ?thesis by (simp add: label_text_def)
qed

lemma name_ok_success:
  assumes "name_ok n" "comp_ok off c msg" "off \<le> length msg" "Name_pack n off msg c = (Return msg', c')"
  shows "\<exists>ls w. n = name_of ls \<and> labels_ok ls \<and> length ls \<le> 10 \<and> msg' = msg @ w \<and> name_packed off ls msg c w \<and>
    comp_ok off c' msg'"
proof -
  have n: "NewName (Name_String n) = Return n" using assms(1) by (simp add: name_ok_def)
  obtain ls w where *: "Name_String n = label_text ls" "n = name_of ls" "labels_ok ls" "msg' = msg @ w"
    "name_packed off ls msg c w" "comp_ok off c' (msg @ w)"
    using Name_pack_success [OF n assms(2-4)] by blast
  have "length ls \<le> 10" using assms(1) * count_label_text [of ls] by (simp add: name_ok_def)
  with * show ?thesis by blast
qed

lemma encodes_Name: "name_ok n \<Longrightarrow> encodes off (Name_pack n off) (Name_unpack zero_Name) n"
  unfolding encodes_def
proof (intro allI impI)
  fix msg c msg' c'
  assume a: "name_ok n" "off \<le> length msg" "comp_ok off c msg" "Name_pack n off msg c = (Return msg', c')"
  obtain ls w where *: "n = name_of ls" "labels_ok ls" "length ls \<le> 10" "msg' = msg @ w"
    "name_packed off ls msg c w" "comp_ok off c' msg'" using name_ok_success [OF a(1,3,2,4)] by blast
  then show "(\<exists>w. msg' = msg @ w) \<and> comp_ok off c' msg' \<and>
      (\<forall>post. Name_unpack zero_Name (drop off msg' @ post) (length msg - off) = Return (n, length msg' - off))"
    using Name_unpack_packed [OF *(5,2,3) a(2)] by blast
qed

lemma encodes_Name_uncompressed:
  assumes "name_ok n"
  shows "encodes off (Name_pack_uncompressed n off) (\<lambda>m i. unpackCompressed zero_Name m i allow) n"
  unfolding encodes_def
proof (intro allI impI)
  fix msg c msg' c'
  assume a: "off \<le> length msg" "comp_ok off c msg" "Name_pack_uncompressed n off msg c = (Return msg', c')"
  obtain cn where c: "Name_pack n off msg None = (Return msg', cn)" "c' = c"
    using a(3) by (cases "Name_pack n off msg None") (auto simp: Name_pack_uncompressed_def)
  obtain ls w where *: "n = name_of ls" "labels_ok ls" "msg' = msg @ w" "name_packed off ls msg None w"
    using name_ok_success [OF assms comp_ok_None a(1) c(1)] by blast
  then show "(\<exists>w. msg' = msg @ w) \<and> comp_ok off c' msg' \<and>
      (\<forall>post. unpackCompressed zero_Name (drop off msg' @ post) (length msg - off) allow = Return (n, length msg' - off))"
    using Name_unpack_uncompressed [OF *(4,2) a(1)] comp_ok_extend [OF a(1,2)] c(2) by blast
qed

lemma emit_Return_iff [simp]: "emit f msg c = (Return msg', c') \<longleftrightarrow> msg' = f msg \<and> c' = c"
  by (auto simp: emit_def)

lemma encodes_read:
  assumes "encodes off pk up v" "pk msg c = (Return msg1, c1)" "off \<le> length msg" "comp_ok off c msg"
  shows "up (drop off (msg1 @ post)) (length msg - off) = Return (v, length msg1 - off)"
  using encodesD(3,5) [OF assms] by simp

text \<open>The same for a resource body, whose unpacker is told the length and returns no offset.\<close>

definition body_encodes :: "nat \<Rightarrow> packer \<Rightarrow> (bytes \<Rightarrow> nat \<Rightarrow> u16 \<Rightarrow> ResourceBody dns) \<Rightarrow> ResourceBody \<Rightarrow> bool" where
  "body_encodes off pk up b \<longleftrightarrow> (\<forall>msg c msg' c'. off \<le> length msg \<longrightarrow> comp_ok off c msg \<longrightarrow>
     pk msg c = (Return msg', c') \<longrightarrow> length msg' - length msg \<le> maxUint16 \<longrightarrow>
     comp_ok off c' msg' \<and>
     (\<forall>post. up (drop off (msg' @ post)) (length msg - off) (of_nat (length msg' - length msg)) = Return b))"

lemma body_encodesD:
  assumes "body_encodes off pk up b" "off \<le> length msg" "comp_ok off c msg" "pk msg c = (Return msg', c')"
    and "length msg' - length msg \<le> maxUint16"
  shows "comp_ok off c' msg'"
    "up (drop off (msg' @ post)) (length msg - off) (of_nat (length msg' - length msg)) = Return b"
  using assms unfolding body_encodes_def by blast+

lemma body_name:
  assumes "name_ok n" "\<And>msg. pk msg = Name_pack n off msg"
    "\<And>m i l. up m i l = bind_outcome (Name_unpack zero_Name m i) (\<lambda>(x, _). Return (f x))"
  shows "body_encodes off pk up (f n)"
  unfolding body_encodes_def assms(2,3)
  using encodesD(2) [OF encodes_Name [OF assms(1)]] encodes_read [OF encodes_Name [OF assms(1)]]
  by (auto simp del: bind_outcome_Return_iff)

lemma field_reads:
  assumes "off \<le> length msg"
  shows "unpackUint16 (drop off msg @ wire16 v @ post) (length msg - off) = Return (v, length msg - off + 2)"
    "unpackUint32 (drop off msg @ wire32 x @ post) (length msg - off) = Return (x, length msg - off + 4)"
  using unpackUint16_wire [of "drop off msg @ wire16 v @ post" "length msg - off" v]
    unpackUint32_wire [of "drop off msg @ wire32 x @ post" "length msg - off" x]
    found_at_middle [of "drop off msg" "wire16 v" post] found_at_middle [of "drop off msg" "wire32 x" post]
  by simp_all

lemma body_MX:
  assumes "name_ok n"
  shows "body_encodes off (MXResource_pack p n off) (\<lambda>m i l. unpackMXResource m i) (MXResource p n)"
  unfolding body_encodes_def
proof (intro allI impI)
  fix msg c msg' c'
  assume a: "off \<le> length msg" "comp_ok off c msg" "MXResource_pack p n off msg c = (Return msg', c')"
  let ?msg1 = "msg @ wire16 p"
  have s: "Name_pack n off ?msg1 c = (Return msg', c')"
    using a(3) by (auto simp: MXResource_pack_def bind_meth_Return_iff)
  have b: "off \<le> length ?msg1" "comp_ok off c ?msg1" using a comp_ok_extend by auto
  obtain w where w: "msg' = ?msg1 @ w" using encodesD(1) [OF encodes_Name [OF assms] s b] by blast
  have "unpackMXResource (drop off (msg' @ post)) (length msg - off) = Return (MXResource p n)" for post
    using encodes_read [OF encodes_Name [OF assms] s b, of post] field_reads(1) [OF a(1), of p "w @ post"] a(1)
    by (simp add: unpackMXResource_def w del: bind_outcome_Return_iff)
  then show "comp_ok off c' msg' \<and> (\<forall>post. unpackMXResource (drop off (msg' @ post)) (length msg - off) = Return (MXResource p n))"
    using encodesD(2) [OF encodes_Name [OF assms] s b] by blast
qed

lemma body_SOA:
  assumes "name_ok n" "name_ok mb"
  shows "body_encodes off (SOAResource_pack n mb s rf rt e t off) (\<lambda>m i l. unpackSOAResource m i)
    (SOAResource n mb s rf rt e t)"
  unfolding body_encodes_def
proof (intro allI impI)
  fix msg c msg' c'
  assume a: "off \<le> length msg" "comp_ok off c msg" "SOAResource_pack n mb s rf rt e t off msg c = (Return msg', c')"
  obtain msg1 msg2 c1 where p: "Name_pack n off msg c = (Return msg1, c1)"
    "Name_pack mb off msg1 c1 = (Return msg2, c')"
    and m: "msg' = msg2 @ wire32 s @ wire32 rf @ wire32 rt @ wire32 e @ wire32 t"
    using a(3) by (auto simp: SOAResource_pack_def bind_meth_Return_iff)
  note d1 = encodesD [OF encodes_Name [OF assms(1)] p(1) a(1,2)]
  note d2 = encodesD [OF encodes_Name [OF assms(2)] p(2) d1(3,2)]
  have "unpackSOAResource (drop off (msg' @ post)) (length msg - off) = Return (SOAResource n mb s rf rt e t)" for post
  proof -
    let ?m = "drop off (msg' @ post)"
    obtain w where w: "msg2 = msg1 @ w" using d2(1) by blast
    have "Name_unpack zero_Name ?m (length msg - off) = Return (n, length msg1 - off)"
      using encodes_read [OF encodes_Name [OF assms(1)] p(1) a(1,2), of "w @ drop (length msg2) msg' @ post"]
      by (simp add: m w)
    moreover have "Name_unpack zero_Name ?m (length msg1 - off) = Return (mb, length msg2 - off)"
      using encodes_read [OF encodes_Name [OF assms(2)] p(2) d1(3,2), of "drop (length msg2) msg' @ post"]
      by (simp add: m)
    moreover have "found_at ?m (length msg2 - off) (wire32 s @ wire32 rf @ wire32 rt @ wire32 e @ wire32 t)"
      using d2(3) by (simp add: m found_at_def)
    ultimately show ?thesis
      by (simp add: unpackSOAResource_def found_at_append unpackUint32_wire [of _ _ s] unpackUint32_wire [of _ _ rf]
        unpackUint32_wire [of _ _ rt] unpackUint32_wire [of _ _ e] unpackUint32_wire [of _ _ t] del: bind_outcome_Return_iff)
  qed
  then show "comp_ok off c' msg' \<and> (\<forall>post. unpackSOAResource (drop off (msg' @ post)) (length msg - off) =
      Return (SOAResource n mb s rf rt e t))"
    using comp_ok_extend [OF d2(3,2)] m by simp
qed

lemma body_SRV:
  assumes "name_ok n"
  shows "body_encodes off (SRVResource_pack p wt pt n off) (\<lambda>m i l. unpackSRVResource m i) (SRVResource p wt pt n)"
  unfolding body_encodes_def
proof (intro allI impI)
  fix msg c msg' c'
  assume a: "off \<le> length msg" "comp_ok off c msg" "SRVResource_pack p wt pt n off msg c = (Return msg', c')"
  let ?msg1 = "msg @ wire16 p @ wire16 wt @ wire16 pt"
  have s: "Name_pack_uncompressed n off ?msg1 c = (Return msg', c')"
    using a(3) by (auto simp: SRVResource_pack_def bind_meth_Return_iff)
  have b: "off \<le> length ?msg1" "comp_ok off c ?msg1" using a comp_ok_extend by auto
  note enc = encodes_Name_uncompressed [OF assms, of off False]
  obtain w where w: "msg' = ?msg1 @ w" using encodesD(1) [OF enc s b] by blast
  have "unpackSRVResource (drop off (msg' @ post)) (length msg - off) = Return (SRVResource p wt pt n)" for post
  proof -
    let ?m = "drop off (msg' @ post)"
    have "found_at ?m (length msg - off) (wire16 p @ wire16 wt @ wire16 pt)"
      using a(1) by (simp add: w found_at_def)
    moreover have "unpackCompressed zero_Name ?m (length msg - off + 2 + 2 + 2) False = Return (n, length msg' - off)"
      using encodes_read [OF enc s b, of post] a(1) by (simp add: add.commute)
    ultimately show ?thesis
      by (simp add: unpackSRVResource_def found_at_append unpackUint16_wire [of _ _ p] unpackUint16_wire [of _ _ wt]
        unpackUint16_wire [of _ _ pt] del: bind_outcome_Return_iff)
  qed
  then show "comp_ok off c' msg' \<and> (\<forall>post. unpackSRVResource (drop off (msg' @ post)) (length msg - off) =
      Return (SRVResource p wt pt n))"
    using encodesD(2) [OF enc s b] by blast
qed

definition wireTXT :: "bytes list \<Rightarrow> bytes" where
  "wireTXT ts = concat (map wireText ts)"

lemma TXTResource_pack_wire:
  "TXTResource_pack ts msg c = (Return msg', c') \<longleftrightarrow> (\<forall>t \<in> set ts. length t \<le> 255) \<and> msg' = msg @ wireTXT ts \<and> c' = c"
  by (induction ts arbitrary: msg) (auto simp: bind_meth_Return_iff textc.pack_wire wireTXT_def)

lemma txt_loop_wire:
  assumes "found_at m i (wireTXT ts)" "\<forall>t \<in> set ts. length t \<le> 255" "unat n + length (wireTXT ts) = unat len"
  shows "txt_loop m i len n acc = Return (TXTResource (acc @ ts))"
  using assms
proof (induction ts arbitrary: i n acc)
  case Nil
  then show ?case by (simp add: txt_loop.simps [of m i] wireTXT_def word_less_nat_alt)
next
  case (Cons t ts)
  have f: "found_at m i (wireText t)" "found_at m (i + length (wireText t)) (wireTXT ts)"
    using Cons.prems(1) by (simp_all add: wireTXT_def found_at_append)
  have u: "unpackText m i = Return (t, i + length (wireText t))"
    using f(1) Cons.prems(2) by (intro textc.unpack_wire) auto
  have len: "unat n + (length t + 1) + length (wireTXT ts) = unat len"
    using Cons.prems(3) by (simp add: wireTXT_def)
  then have n: "n < len" by (simp add: word_less_nat_alt)
  have t: "unat (of_nat (length t) + 1 :: u16) = length t + 1"
    using Cons.prems(2) by (simp add: unat_word_ariths unat_of_nat)
  have "unat (len - n) = unat len - unat n" using n by (intro unat_sub) simp
  then have nl: "\<not> len - n < of_nat (length t) + 1" using len t by (simp add: word_less_nat_alt)
  note st = txt_step [OF n u nl]
  have "txt_loop m i len n acc = txt_loop m (i + length (wireText t)) len (n + (of_nat (length t) + 1)) (acc @ [t])"
    using n nl u by (subst txt_loop.simps) simp
  also have "\<dots> = Return (TXTResource ((acc @ [t]) @ ts))"
    by (rule Cons.IH [OF f(2)]) (use Cons.prems(2) st len in simp_all)
  finally show ?case by simp
qed

lemma body_TXT: "body_encodes off (TXTResource_pack ts) unpackTXTResource (TXTResource ts)"
  unfolding body_encodes_def
proof (intro allI impI)
  fix msg c msg' c'
  assume a: "off \<le> length msg" "comp_ok off c msg" "TXTResource_pack ts msg c = (Return msg', c')"
    "length msg' - length msg \<le> maxUint16"
  then have m: "msg' = msg @ wireTXT ts" "c' = c" "\<forall>t \<in> set ts. length t \<le> 255"
    by (auto simp: TXTResource_pack_wire)
  have l: "length (wireTXT ts) \<le> 65535" using a(4) m by (simp add: maxUint16_def)
  have "unpackTXTResource (drop off (msg' @ post)) (length msg - off) (of_nat (length msg' - length msg)) = Return (TXTResource ts)" for post
    unfolding unpackTXTResource_def
    by (rule txt_loop_wire [of _ _ ts _ _ "[]", simplified]) (use a(1) l m in \<open>simp_all add: found_at_def unat_of_nat\<close>)
  then show "comp_ok off c' msg' \<and> (\<forall>post. unpackTXTResource (drop off (msg' @ post)) (length msg - off)
      (of_nat (length msg' - length msg)) = Return (TXTResource ts))"
    using comp_ok_extend [OF a(1,2)] m by blast
qed

definition wireOption :: "DNSOption \<Rightarrow> bytes" where
  "wireOption opt = wire16 (Code opt) @ wire16 (of_nat (length (OData opt))) @ OData opt"

definition wireOPT :: "DNSOption list \<Rightarrow> bytes" where
  "wireOPT opts = concat (map wireOption opts)"

lemma OPTResource_pack_wire: "OPTResource_pack opts msg c = (Return (msg @ wireOPT opts), c)"
  by (induction opts arbitrary: msg) (simp_all add: emit_def wireOPT_def wireOption_def packBytes_def Let_def)

lemma opt_loop_wire:
  assumes "found_at m i (wireOPT opts)" "length (wireOPT opts) \<le> 65535"
  shows "opt_loop m i (i + length (wireOPT opts)) acc = Return (OPTResource (acc @ opts))"
  using assms
proof (induction opts arbitrary: i acc)
  case Nil
  then show ?case by (simp add: opt_loop.simps [of m i] wireOPT_def)
next
  case (Cons opt opts)
  let ?d = "OData opt" and ?j = "i + 2 + 2"
  have f: "found_at m i (wire16 (Code opt))" "found_at m (i + 2) (wire16 (of_nat (length ?d)))"
    "found_at m ?j ?d" "found_at m (?j + length ?d) (wireOPT opts)"
    using Cons.prems(1) by (simp_all add: wireOPT_def wireOption_def found_at_append)
  have l: "unat (of_nat (length ?d) :: u16) = length ?d"
    using Cons.prems(2) by (simp add: wireOPT_def wireOption_def unat_of_nat)
  have tot: "length (wireOPT (opt # opts)) = 2 + 2 + length ?d + length (wireOPT opts)"
    by (simp add: wireOPT_def wireOption_def)
  have slice: "go_slice m ?j (length m) = (Return (drop ?j m) :: bytes dns)"
    using found_at_bound [OF f(3)] by (simp add: go_slice_def)
  have "opt_loop m i (i + length (wireOPT (opt # opts))) acc =
      opt_loop m (?j + length ?d) (i + length (wireOPT (opt # opts))) (acc @ [\<lparr>Code = Code opt, OData = ?d\<rparr>])"
    unfolding opt_loop.simps [of m i] unpackUint16_wire [OF f(1)] tot
    using unpackUint16_wire [OF f(2)] slice l found_at_bound [OF f(3)] found_at_takeD [OF f(3)] by simp
  also have "\<dots> = Return (OPTResource ((acc @ [\<lparr>Code = Code opt, OData = ?d\<rparr>]) @ opts))"
    using Cons.IH [OF f(4), of "acc @ [\<lparr>Code = Code opt, OData = ?d\<rparr>]"] Cons.prems(2)
    unfolding tot by (simp add: ac_simps)
  finally show ?case by simp
qed

lemma body_OPT: "body_encodes off (OPTResource_pack opts) unpackOPTResource (OPTResource opts)"
  unfolding body_encodes_def
proof (intro allI impI)
  fix msg c msg' c'
  assume a: "off \<le> length msg" "comp_ok off c msg" "OPTResource_pack opts msg c = (Return msg', c')"
    "length msg' - length msg \<le> maxUint16"
  then have m: "msg' = msg @ wireOPT opts" "c' = c" by (auto simp: OPTResource_pack_wire)
  have l: "length (wireOPT opts) \<le> 65535" using a(4) m by (simp add: maxUint16_def)
  have "unpackOPTResource (drop off (msg' @ post)) (length msg - off) (of_nat (length msg' - length msg)) = Return (OPTResource opts)" for post
    using opt_loop_wire [of "drop off (msg' @ post)" "length msg - off" opts "[]"] a(1) l m
    by (simp add: unpackOPTResource_def found_at_def unat_of_nat)
  then show "comp_ok off c' msg' \<and> (\<forall>post. unpackOPTResource (drop off (msg' @ post)) (length msg - off)
      (of_nat (length msg' - length msg)) = Return (OPTResource opts))"
    using comp_ok_extend [OF a(1,2)] m by blast
qed

lemma body_bytes:
  assumes "\<And>msg. pk msg = emit (\<lambda>msg. packBytes msg d) msg" "\<And>m i l. unat l = length d \<Longrightarrow>
    up m i l = bind_outcome (unpackBytes m i (length d)) (\<lambda>(x, _). Return (f x))"
  shows "body_encodes off pk up (f d)"
  unfolding body_encodes_def
proof (intro allI impI)
  fix msg c msg' c'
  assume a: "off \<le> length msg" "comp_ok off c msg" "pk msg c = (Return msg', c')" "length msg' - length msg \<le> maxUint16"
  then have m: "msg' = msg @ d" "c' = c" by (simp_all add: assms(1) packBytes_def)
  have l: "unat (of_nat (length msg' - length msg) :: u16) = length d" using a(4) m by (simp add: maxUint16_def unat_of_nat)
  have "unpackBytes (drop off (msg' @ post)) (length msg - off) (length d) = Return (d, length msg - off + length d)" for post
    using a(1) m by (simp add: unpackBytes_iff found_at_def)
  then show "comp_ok off c' msg' \<and> (\<forall>post. up (drop off (msg' @ post)) (length msg - off)
      (of_nat (length msg' - length msg)) = Return (f d))"
    using comp_ok_extend [OF a(1,2)] m assms(2) [OF l] by (simp del: bind_outcome_Return_iff)
qed

definition known_types :: "Type list" where
  "known_types = [TypeA, TypeNS, TypeCNAME, TypeSOA, TypePTR, TypeMX, TypeTXT, TypeAAAA, TypeSRV, TypeOPT]"

fun body_ok :: "ResourceBody \<Rightarrow> bool" where
  "body_ok (CNAMEResource n) = name_ok n"
| "body_ok (MXResource p n) = name_ok n"
| "body_ok (NSResource n) = name_ok n"
| "body_ok (PTRResource n) = name_ok n"
| "body_ok (SOAResource n m s rf rt e t) \<longleftrightarrow> name_ok n \<and> name_ok m"
| "body_ok (TXTResource ts) = True"
| "body_ok (SRVResource p w q n) = name_ok n"
| "body_ok (AResource a) \<longleftrightarrow> length a = 4"
| "body_ok (AAAAResource a) \<longleftrightarrow> length a = 16"
| "body_ok (OPTResource os) = True"
| "body_ok (UnknownResource t d) \<longleftrightarrow> t \<notin> set known_types"

fun body_reader :: "ResourceBody \<Rightarrow> bytes \<Rightarrow> nat \<Rightarrow> u16 \<Rightarrow> ResourceBody dns" where
  "body_reader (CNAMEResource _) m i l = unpackCNAMEResource m i"
| "body_reader (MXResource _ _) m i l = unpackMXResource m i"
| "body_reader (NSResource _) m i l = unpackNSResource m i"
| "body_reader (PTRResource _) m i l = unpackPTRResource m i"
| "body_reader (SOAResource _ _ _ _ _ _ _) m i l = unpackSOAResource m i"
| "body_reader (TXTResource _) m i l = unpackTXTResource m i l"
| "body_reader (SRVResource _ _ _ _) m i l = unpackSRVResource m i"
| "body_reader (AResource _) m i l = unpackAResource m i"
| "body_reader (AAAAResource _) m i l = unpackAAAAResource m i"
| "body_reader (OPTResource _) m i l = unpackOPTResource m i l"
| "body_reader (UnknownResource t _) m i l = unpackUnknownResource t m i l"

lemma unpackResourceBody_reader:
  assumes "body_ok b" "RType h = realType b" "body_reader b m i (RLength h) = Return b'"
  shows "unpackResourceBody m i h = Return (b', i + unat (RLength h))"
  using assms
  by (cases b) (simp_all add: unpackResourceBody_def Let_def dns_const known_types_def del: bind_outcome_Return_iff)

lemma body_encodes_body:
  assumes "body_ok b"
  shows "body_encodes off (ResourceBody_pack b off) (body_reader b) b"
proof (cases b)
  case (MXResource p n)
  then show ?thesis using assms body_MX [of n off p] by (simp add: fun_eq_iff body_encodes_def)
next
  case (SOAResource n m s rf rt e t)
  then show ?thesis using assms body_SOA [of n m off s rf rt e t] by (simp add: body_encodes_def)
next
  case (TXTResource ts)
  then show ?thesis using body_TXT [of off ts] by (simp add: body_encodes_def)
next
  case (SRVResource p w q n)
  then show ?thesis using assms body_SRV [of n off p w q] by (simp add: body_encodes_def)
next
  case (AResource d)
  have "body_encodes off (AResource_pack d) (\<lambda>m i l. unpackAResource m i) (AResource d)"
    by (rule body_bytes [where f = AResource])
      (use assms AResource in \<open>simp_all add: AResource_pack_def unpackAResource_def\<close>)
  then show ?thesis using AResource by (simp add: body_encodes_def)
next
  case (AAAAResource d)
  have "body_encodes off (AAAAResource_pack d) (\<lambda>m i l. unpackAAAAResource m i) (AAAAResource d)"
    by (rule body_bytes [where f = AAAAResource])
      (use assms AAAAResource in \<open>simp_all add: AAAAResource_pack_def unpackAAAAResource_def\<close>)
  then show ?thesis using AAAAResource by (simp add: body_encodes_def)
next
  case (OPTResource os)
  then show ?thesis using body_OPT [of off os] by (simp add: body_encodes_def)
next
  case (UnknownResource t d)
  have "body_encodes off (UnknownResource_pack d) (unpackUnknownResource t) (UnknownResource t d)"
    by (rule body_bytes [where f = "UnknownResource t"])
      (simp_all add: UnknownResource_pack_def unpackUnknownResource_def)
  then show ?thesis using UnknownResource by (simp add: body_encodes_def)
next
  case (CNAMEResource n)
  have "body_encodes off (CNAMEResource_pack n off) (\<lambda>m i l. unpackCNAMEResource m i) (CNAMEResource n)"
    by (rule body_name [where f = CNAMEResource])
      (use assms CNAMEResource in \<open>simp_all add: CNAMEResource_pack_def unpackCNAMEResource_def\<close>)
  then show ?thesis using CNAMEResource by (simp add: body_encodes_def)
next
  case (NSResource n)
  have "body_encodes off (NSResource_pack n off) (\<lambda>m i l. unpackNSResource m i) (NSResource n)"
    by (rule body_name [where f = NSResource])
      (use assms NSResource in \<open>simp_all add: NSResource_pack_def unpackNSResource_def\<close>)
  then show ?thesis using NSResource by (simp add: body_encodes_def)
next
  case (PTRResource n)
  have "body_encodes off (PTRResource_pack n off) (\<lambda>m i l. unpackPTRResource m i) (PTRResource n)"
    by (rule body_name [where f = PTRResource])
      (use assms PTRResource in \<open>simp_all add: PTRResource_pack_def unpackPTRResource_def\<close>)
  then show ?thesis using PTRResource by (simp add: body_encodes_def)
qed

lemma append_only_eq: "append_only p \<Longrightarrow> (\<And>msg. q msg = p msg) \<Longrightarrow> append_only q"
  by (simp add: append_only_def)

lemma append_only_TXT: "append_only (TXTResource_pack ts)"
proof (induction ts)
  case Nil
  have "append_only (emit (\<lambda>msg. msg @ []))" by blast
  then show ?case by (rule append_only_eq) simp
next
  case (Cons t ts)
  have "append_only (\<lambda>msg. lift_meth (packText msg t))"
    unfolding append_only_def
  proof (intro allI)
    fix L c
    show "\<exists>r c'. \<forall>msg. length msg = L \<longrightarrow> lift_meth (packText msg t) c = (map_outcome id ((@) msg) r, c')"
      by (cases "length t > 255"; rule exI [of _ "if length t > 255 then Fail errStringTooLong else Return (of_nat (length t) # t)"]; rule exI [of _ c])
        (simp_all add: lift_meth_def packText_def)
  qed
  then show ?case by (rule append_only_eq [OF append_only_bind [OF _ Cons.IH]]) simp
qed

lemma append_only_body: "append_only (ResourceBody_pack b off)"
proof -
  have n: "append_only (Name_pack_uncompressed n off)" for n
    unfolding append_only_def
  proof (intro allI)
    fix L c
    obtain r c' where "\<And>msg. length msg = L \<Longrightarrow> Name_pack n off msg None = (map_outcome id (\<lambda>w. msg @ w) r, c')"
      using append_only_Name_pack [of n off] unfolding append_only_def by metis
    then show "\<exists>r c'. \<forall>msg. length msg = L \<longrightarrow> Name_pack_uncompressed n off msg c = (map_outcome id ((@) msg) r, c')"
      by (auto simp: Name_pack_uncompressed_def intro: exI [of _ r])
  qed
  have o: "append_only (OPTResource_pack os)" for os
    unfolding append_only_def using OPTResource_pack_wire by (metis outcome.map(1))
  show ?thesis
    by (cases b)
      (auto simp: CNAMEResource_pack_def [abs_def] MXResource_pack_def [abs_def] NSResource_pack_def [abs_def]
        PTRResource_pack_def [abs_def] SOAResource_pack_def [abs_def] SRVResource_pack_def [abs_def]
        AResource_pack_def [abs_def] AAAAResource_pack_def [abs_def] UnknownResource_pack_def [abs_def] packBytes_def
        append_only_TXT o intro!: append_only_bind append_only_wrap n)
qed

text \<open>Reading a resource: its header, then the body the header announces.\<close>

definition read_resource :: "bytes \<Rightarrow> nat \<Rightarrow> (Resource \<times> nat) dns" where
  "read_resource m i = bind_outcome (ResourceHeader_unpack m i) (\<lambda>(h, j).
     bind_outcome (unpackResourceBody m j h) (\<lambda>(b, k). Return (\<lparr>Res_Header = h, Body = Some b\<rparr>, k)))"

definition resource_ok :: "Resource \<Rightarrow> bool" where
  "resource_ok r \<longleftrightarrow> name_ok (RName (Res_Header r)) \<and> (\<forall>b. Body r = Some b \<longrightarrow> body_ok b)"

lemma ResourceHeader_pack_wire:
  "ResourceHeader_pack h off msg c = (Return (msg', lenOff), c') \<longleftrightarrow>
     (\<exists>msg1. Name_pack (RName h) off msg c = (Return msg1, c') \<and>
        lenOff = length msg1 + 8 \<and>
        msg' = msg1 @ wire16 (RType h) @ wire16 (RClass h) @ wire32 (TTL h) @ wire16 (RLength h))"
  by (auto simp: ResourceHeader_pack_def bind_meth_Return_iff Let_def)

lemma ResourceHeader_read:
  assumes "name_ok (RName h)" "off \<le> length msg" "comp_ok off c msg"
    and "ResourceHeader_pack h off msg c = (Return (msg', lenOff), c')"
  shows "\<exists>w. msg' = msg @ w" "comp_ok off c' msg'"
    "ResourceHeader_unpack (drop off (msg' @ post)) (length msg - off) = Return (h, length msg' - off)"
proof -
  let ?w = "wire16 (RType h) @ wire16 (RClass h) @ wire32 (TTL h) @ wire16 (RLength h)"
  obtain msg1 where p: "Name_pack (RName h) off msg c = (Return msg1, c')" "msg' = msg1 @ ?w"
    using assms(4) by (auto simp: ResourceHeader_pack_wire)
  note d = encodesD [OF encodes_Name [OF assms(1)] p(1) assms(2,3)]
  show "\<exists>w. msg' = msg @ w" using d(1) p(2) by auto
  show "comp_ok off c' msg'" using comp_ok_extend [OF d(3,2)] p(2) by simp
  let ?m = "drop off (msg' @ post)"
  have "Name_unpack zero_Name ?m (length msg - off) = Return (RName h, length msg1 - off)"
    using encodes_read [OF encodes_Name [OF assms(1)] p(1) assms(2,3), of "?w @ post"] p(2) by simp
  moreover have "found_at ?m (length msg1 - off) ?w" using d(3) p(2) by (simp add: found_at_def)
  moreover have "length msg' - off = length msg1 - off + 2 + 2 + 4 + 2" using d(3) p(2) by simp
  ultimately show "ResourceHeader_unpack ?m (length msg - off) = Return (h, length msg' - off)"
    unfolding found_at_append
    by (simp add: ResourceHeader_unpack_def unpackUint16_wire [of _ _ "RType h"] unpackUint16_wire [of _ _ "RClass h"]
        unpackUint32_wire [of _ _ "TTL h"] unpackUint16_wire [of _ _ "RLength h"] del: bind_outcome_Return_iff)
qed

lemma overwrite_middle: "length bs = length ys \<Longrightarrow> overwrite (xs @ ys @ zs) (length xs) bs = xs @ bs @ zs"
  by (simp add: overwrite_def)

lemma Resource_pack_cases:
  assumes "Resource_pack off msg (r, c) = (Return msg', r', c')"
  obtains b h msg1 c1 msg2 lenOff where "Body r = Some b" "h = (Res_Header r)\<lparr>RType := realType b\<rparr>"
    "ResourceHeader_pack h off msg c = (Return (msg1, lenOff), c1)"
    "ResourceBody_pack b off msg1 c1 = (Return msg2, c')"
    "length msg2 - length msg1 \<le> maxUint16"
    "msg' = overwrite msg2 lenOff (wire16 (of_nat (length msg2 - length msg1)))"
    "r' = \<lparr>Res_Header = h\<lparr>RLength := of_nat (length msg2 - length msg1)\<rparr>, Body = Some b\<rparr>"
proof -
  obtain b where b: "Body r = Some b" using assms by (cases "Body r") (auto simp: Resource_pack_def)
  let ?h = "(Res_Header r)\<lparr>RType := realType b\<rparr>"
  obtain msg1 lenOff c1 where h: "ResourceHeader_pack ?h off msg c = (Return (msg1, lenOff), c1)"
    using assms b by (auto simp: Resource_pack_def Let_def split: outcome.splits prod.splits)
  obtain msg2 where p: "ResourceBody_pack b off msg1 c1 = (Return msg2, c')"
    using assms b h by (auto simp: Resource_pack_def Let_def split: outcome.splits prod.splits)
  have "length msg2 - length msg1 \<le> maxUint16 \<and>
    msg' = overwrite msg2 lenOff (wire16 (of_nat (length msg2 - length msg1))) \<and>
    r' = \<lparr>Res_Header = ?h\<lparr>RLength := of_nat (length msg2 - length msg1)\<rparr>, Body = Some b\<rparr>"
    using assms b h p by (cases r) (auto simp: Resource_pack_def Let_def fixLen_def split: if_splits)
  then show ?thesis using that b h p by blast
qed

lemma Resource_pack_read:
  assumes "resource_ok r" "off \<le> length msg" "comp_ok off c msg" "Resource_pack off msg (r, c) = (Return msg', r', c')"
  shows "\<exists>w. msg' = msg @ w" "comp_ok off c' msg'"
    "read_resource (drop off (msg' @ post)) (length msg - off) = Return (r', length msg' - off)"
proof -
  obtain b h msg1 c1 msg2 lenOff where s: "Body r = Some b" "h = (Res_Header r)\<lparr>RType := realType b\<rparr>"
    "ResourceHeader_pack h off msg c = (Return (msg1, lenOff), c1)"
    "ResourceBody_pack b off msg1 c1 = (Return msg2, c')" "length msg2 - length msg1 \<le> maxUint16"
    "msg' = overwrite msg2 lenOff (wire16 (of_nat (length msg2 - length msg1)))"
    "r' = \<lparr>Res_Header = h\<lparr>RLength := of_nat (length msg2 - length msg1)\<rparr>, Body = Some b\<rparr>"
    by (rule Resource_pack_cases [OF assms(4)])
  let ?len = "of_nat (length msg2 - length msg1) :: u16"
  let ?h = "h\<lparr>RLength := ?len\<rparr>"
  obtain msgN where N: "Name_pack (RName h) off msg c = (Return msgN, c1)" "lenOff = length msgN + 8"
    "msg1 = msgN @ wire16 (RType h) @ wire16 (RClass h) @ wire32 (TTL h) @ wire16 (RLength h)"
    using s(3) by (auto simp: ResourceHeader_pack_wire)
  define msg1' where "msg1' = msgN @ wire16 (RType h) @ wire16 (RClass h) @ wire32 (TTL h) @ wire16 ?len"
  have h': "ResourceHeader_pack ?h off msg c = (Return (msg1', lenOff), c1)"
    using N by (simp add: ResourceHeader_pack_wire msg1'_def)
  have len1: "length msg1' = length msg1" by (simp add: N(3) msg1'_def)
  obtain wb where wb: "msg2 = msg1 @ wb" "ResourceBody_pack b off msg1' c1 = (Return (msg1' @ wb), c')"
    using append_onlyD [OF append_only_body s(4)] len1 by blast
  have m: "msg' = msg1' @ wb"
    using overwrite_middle [of "wire16 ?len" "wire16 (RLength h)" "msgN @ wire16 (RType h) @ wire16 (RClass h) @ wire32 (TTL h)" wb]
    by (simp add: s(6) wb(1) N(2,3) msg1'_def)
  have ok: "name_ok (RName ?h)" "body_ok b" using assms(1) s(1,2) by (simp_all add: resource_ok_def)
  note hd = ResourceHeader_read [OF ok(1) assms(2,3) h']
  have off1: "off \<le> length msg1'" using hd(1) assms(2) by auto
  have "length (msg1' @ wb) - length msg1' \<le> maxUint16" using s(5) wb(1) by simp
  note be = body_encodesD [OF body_encodes_body [OF ok(2)] off1 hd(2) wb(2) this]
  show "\<exists>w. msg' = msg @ w" "comp_ok off c' msg'" using hd(1) be(1) m by auto
  have l: "?len = of_nat (length (msg1' @ wb) - length msg1')" "unat ?len = length wb"
    using s(5) wb(1) by (simp_all add: maxUint16_def unat_of_nat)
  have "unpackResourceBody (drop off (msg' @ post)) (length msg1' - off) ?h = Return (b, length msg1' - off + unat ?len)"
    using unpackResourceBody_reader [of b ?h "drop off (msg' @ post)" "length msg1' - off" b] ok(2) be(2) [of post] l(1) s(2) m by simp
  then show "read_resource (drop off (msg' @ post)) (length msg - off) = Return (r', length msg' - off)"
    using hd(3) [of "wb @ post"] m off1 l(2)
    by (simp add: read_resource_def s(7) del: bind_outcome_Return_iff)
qed

section \<open>Sections\<close>

text \<open>The loops \<open>for i := range m.Questions\<close>, ... of \<open>AppendPack\<close>; \<open>name\<close> is the context of their errors.
  Elements that were packed are updated, the others stay.\<close>

fun pack_section ::
    "(nat \<Rightarrow> bytes \<Rightarrow> ('a \<times> compression, dns_error, bytes) meth) \<Rightarrow> string \<Rightarrow> nat \<Rightarrow> bytes \<Rightarrow>
     ('a list \<times> compression, dns_error, bytes) meth" where
  "pack_section pk name off msg ([], c) = (Return msg, [], c)"
| "pack_section pk name off msg (x # xs, c) =
     (case pk off msg (x, c) of
        (Return msg, x, c) \<Rightarrow> (case pack_section pk name off msg (xs, c) of (r, xs, c) \<Rightarrow> (r, x # xs, c))
      | (Fail err, x, c) \<Rightarrow> (Fail (nestedError name err), x # xs, c)
      | (Panic, x, c) \<Rightarrow> (Panic, x # xs, c))"

text \<open>A question is not changed by packing.\<close>

definition Question_pack_elem :: "nat \<Rightarrow> bytes \<Rightarrow> (Question \<times> compression, dns_error, bytes) meth" where
  "Question_pack_elem off msg = (\<lambda>(q, c). case Question_pack q off msg c of (r, c') \<Rightarrow> (r, q, c'))"

definition read_question :: "bytes \<Rightarrow> nat \<Rightarrow> (Question \<times> nat) dns" where
  "read_question msg off =
     bind_outcome (map_error (nestedError ''unpacking Question.Name'') (Name_unpack zero_Name msg off)) (\<lambda>(name, off).
     bind_outcome (map_error (nestedError ''unpacking Question.Type'') (unpackType msg off)) (\<lambda>(typ, off).
     bind_outcome (map_error (nestedError ''unpacking Question.Class'') (unpackClass msg off)) (\<lambda>(class, off).
     Return (\<lparr>QName = name, QType = typ, QClass = class\<rparr>, off))))"

text \<open>Reading \<open>n\<close> elements one after the other.\<close>

fun read_n :: "(bytes \<Rightarrow> nat \<Rightarrow> ('a \<times> nat) dns) \<Rightarrow> nat \<Rightarrow> bytes \<Rightarrow> nat \<Rightarrow> ('a list \<times> nat) dns" where
  "read_n rd 0 msg off = Return ([], off)"
| "read_n rd (Suc n) msg off =
     bind_outcome (rd msg off) (\<lambda>(x, off). bind_outcome (read_n rd n msg off) (\<lambda>(xs, off). Return (x # xs, off)))"

locale section_codec =
  fixes pack :: "nat \<Rightarrow> bytes \<Rightarrow> ('a \<times> compression, dns_error, bytes) meth"
    and read :: "bytes \<Rightarrow> nat \<Rightarrow> ('a \<times> nat) dns"
    and ok :: "'a \<Rightarrow> bool"
  assumes pack_appends: "\<lbrakk>ok x; off \<le> length msg; comp_ok off c msg; pack off msg (x, c) = (Return msg', x', c')\<rbrakk> \<Longrightarrow>
      \<exists>w. msg' = msg @ w"
    and pack_comp_ok: "\<lbrakk>ok x; off \<le> length msg; comp_ok off c msg; pack off msg (x, c) = (Return msg', x', c')\<rbrakk> \<Longrightarrow>
      comp_ok off c' msg'"
    and pack_read: "\<lbrakk>ok x; off \<le> length msg; comp_ok off c msg; pack off msg (x, c) = (Return msg', x', c')\<rbrakk> \<Longrightarrow>
      read (drop off (msg' @ post)) (length msg - off) = Return (x', length msg' - off)"
begin

lemma section_read:
  assumes "list_all ok xs" "off \<le> length msg" "comp_ok off c msg"
    and "pack_section pack name off msg (xs, c) = (Return msg', xs', c')"
  shows "(\<exists>w. msg' = msg @ w) \<and> comp_ok off c' msg' \<and> length xs' = length xs \<and>
    (\<forall>post. read_n read (length xs) (drop off (msg' @ post)) (length msg - off) = Return (xs', length msg' - off))"
  using assms
proof (induction xs arbitrary: msg c xs')
  case (Cons x xs)
  obtain msg1 x1 c1 xs1 where s: "pack off msg (x, c) = (Return msg1, x1, c1)"
    "pack_section pack name off msg1 (xs, c1) = (Return msg', xs1, c')" "xs' = x1 # xs1"
    using Cons.prems(4) by (auto split: prod.splits outcome.splits)
  have ok: "ok x" "list_all ok xs" using Cons.prems(1) by simp_all
  obtain w where w: "msg1 = msg @ w" using pack_appends [OF ok(1) Cons.prems(2,3) s(1)] by blast
  have off: "off \<le> length msg1" using Cons.prems(2) w by simp
  note IH = Cons.IH [OF ok(2) off pack_comp_ok [OF ok(1) Cons.prems(2,3) s(1)] s(2)]
  obtain w' where w': "msg' = msg1 @ w'" using IH by blast
  have "read (drop off (msg' @ post)) (length msg - off) = Return (x1, length msg1 - off)" for post
    using pack_read [OF ok(1) Cons.prems(2,3) s(1), of "w' @ post"] w' by simp
  then show ?case using IH s(3) w w' by (simp del: bind_outcome_Return_iff)
qed simp

end

lemma Question_read:
  assumes "name_ok (QName q)" "off \<le> length msg" "comp_ok off c msg" "Question_pack q off msg c = (Return msg', c')"
  shows "\<exists>w. msg' = msg @ w" "comp_ok off c' msg'"
    "read_question (drop off (msg' @ post)) (length msg - off) = Return (q, length msg' - off)"
proof -
  let ?w = "wire16 (QType q) @ wire16 (QClass q)"
  obtain msg1 where p: "Name_pack (QName q) off msg c = (Return msg1, c')" "msg' = msg1 @ ?w"
    using assms(4) by (auto simp: Question_pack_def bind_meth_Return_iff)
  note d = encodesD [OF encodes_Name [OF assms(1)] p(1) assms(2,3)]
  show "\<exists>w. msg' = msg @ w" using d(1) p(2) by auto
  show "comp_ok off c' msg'" using comp_ok_extend [OF d(3,2)] p(2) by simp
  let ?m = "drop off (msg' @ post)"
  have "Name_unpack zero_Name ?m (length msg - off) = Return (QName q, length msg1 - off)"
    using encodes_read [OF encodes_Name [OF assms(1)] p(1) assms(2,3), of "?w @ post"] p(2) by simp
  moreover have "found_at ?m (length msg1 - off) ?w" using d(3) p(2) by (simp add: found_at_def)
  moreover have "length msg' - off = length msg1 - off + 2 + 2" using d(3) p(2) by simp
  ultimately show "read_question ?m (length msg - off) = Return (q, length msg' - off)"
    unfolding found_at_append
    by (simp add: read_question_def unpackUint16_wire [of _ _ "QType q"] unpackUint16_wire [of _ _ "QClass q"]
      del: bind_outcome_Return_iff)
qed

lemma Question_pack_elem_Return_iff:
  "Question_pack_elem off msg (q, c) = (Return msg', q', c') \<longleftrightarrow> Question_pack q off msg c = (Return msg', c') \<and> q' = q"
  by (auto simp: Question_pack_elem_def split: prod.splits)

interpretation questions: section_codec Question_pack_elem read_question "\<lambda>q. name_ok (QName q)"
  by unfold_locales (auto simp: Question_pack_elem_Return_iff dest: Question_read)

interpretation resources: section_codec Resource_pack read_resource resource_ok
  by unfold_locales (rule Resource_pack_read; assumption)+

end
