(* ===== verification/DNS_Parser.thy ===== *)
theory DNS_Parser
  imports DNS_Encoding
begin

text \<open>
  The incremental \<open>Parser\<close> of \<open>src/dns/dnsmessage/message.go\<close>.  A method of \<open>*Parser\<close> is a function from
  the parser state to an outcome and the new state.  The loops \<open>AllQuestions\<close>, \<open>AllAnswers\<close>, ... and
  their skipping counterparts run until a method reports \<open>ErrSectionDone\<close>; they are total functions,
  because every successful step moves the offset forward or consumes a pending resource header.

  The lemmas show that no method panics in any state and on any bytes, that the section, index and
  offset of the state stay within their bounds (\<open>parser_inv\<close>), that skipping a resource leaves the
  parser in the state parsing it leaves, and that the loops return what reading the announced number
  of elements returns.
\<close>

section \<open>Sections\<close>

datatype dns_section =
    sectionNotStarted | sectionHeader | sectionQuestions | sectionAnswers | sectionAuthorities
  | sectionAdditionals | sectionDone

text \<open>\<open>section\<close> is a \<open>uint8\<close> counted by \<open>iota\<close>; the code compares sections and increments them.\<close>

fun section_rank :: "dns_section \<Rightarrow> nat" where
  "section_rank sectionNotStarted = 0"
| "section_rank sectionHeader = 1"
| "section_rank sectionQuestions = 2"
| "section_rank sectionAnswers = 3"
| "section_rank sectionAuthorities = 4"
| "section_rank sectionAdditionals = 5"
| "section_rank sectionDone = 6"

lemma section_rank_inj: "section_rank a = section_rank b \<Longrightarrow> a = b"
  by (cases a; cases b) simp_all

instantiation dns_section :: linorder
begin

definition less_eq_dns_section :: "dns_section \<Rightarrow> dns_section \<Rightarrow> bool" where
  "a \<le> b \<longleftrightarrow> section_rank a \<le> section_rank b"

definition less_dns_section :: "dns_section \<Rightarrow> dns_section \<Rightarrow> bool" where
  "a < b \<longleftrightarrow> section_rank a < section_rank b"

instance
  by standard (auto simp: less_eq_dns_section_def less_dns_section_def intro: section_rank_inj)

end

text \<open>\<open>p.section++\<close>; it is never applied to \<open>sectionDone\<close>.\<close>

fun next_section :: "dns_section \<Rightarrow> dns_section" where
  "next_section sectionNotStarted = sectionHeader"
| "next_section sectionHeader = sectionQuestions"
| "next_section sectionQuestions = sectionAnswers"
| "next_section sectionAnswers = sectionAuthorities"
| "next_section sectionAuthorities = sectionAdditionals"
| "next_section sectionAdditionals = sectionDone"
| "next_section sectionDone = sectionDone"

fun sectionNames :: "dns_section \<Rightarrow> string" where
  "sectionNames sectionHeader = ''header''"
| "sectionNames sectionQuestions = ''Question''"
| "sectionNames sectionAnswers = ''Answer''"
| "sectionNames sectionAuthorities = ''Authority''"
| "sectionNames sectionAdditionals = ''Additional''"
| "sectionNames _ = []"

fun header_count :: "header \<Rightarrow> dns_section \<Rightarrow> u16" where
  "header_count h sectionQuestions = questions h"
| "header_count h sectionAnswers = answers h"
| "header_count h sectionAuthorities = authorities h"
| "header_count h sectionAdditionals = additionals h"
| "header_count h _ = 0"

section \<open>The parser\<close>

text \<open>\<open>pmsg\<close> is \<open>None\<close> for a nil slice.\<close>

record Parser =
  pmsg :: "bytes option"
  pheader :: header
  psection :: dns_section
  poff :: nat
  pindex :: nat
  resHeaderValid :: bool
  resHeader :: ResourceHeader

definition zero_header :: header where
  "zero_header = \<lparr>hid = 0, bits = 0, questions = 0, answers = 0, authorities = 0, additionals = 0\<rparr>"

definition zero_ResourceHeader :: ResourceHeader where
  "zero_ResourceHeader = \<lparr>RName = zero_Name, RType = 0, RClass = 0, TTL = 0, RLength = 0\<rparr>"

definition zero_Parser :: Parser where
  "zero_Parser = \<lparr>pmsg = None, pheader = zero_header, psection = sectionNotStarted, poff = 0, pindex = 0,
     resHeaderValid = False, resHeader = zero_ResourceHeader\<rparr>"

definition pbytes :: "Parser \<Rightarrow> bytes" where
  "pbytes p = (case pmsg p of None \<Rightarrow> [] | Some m \<Rightarrow> m)"

type_synonym 'a parse = "(Parser, dns_error, 'a) meth"

definition Start :: "bytes option \<Rightarrow> Header parse" where
  "Start msg p =
     (let p = (if pmsg p \<noteq> None then zero_Parser else p);
          p = p\<lparr>pmsg := msg\<rparr>
      in case header_unpack (pbytes p) 0 (pheader p) of
           (Return off, h) \<Rightarrow>
             let p = p\<lparr>poff := off, pheader := h, psection := sectionQuestions\<rparr>
             in (Return (header_header (pheader p)), p)
         | (Fail err, h) \<Rightarrow> (Fail (nestedError ''unpacking header'' err), p\<lparr>poff := 0, pheader := h\<rparr>)
         | (Panic, h) \<Rightarrow> (Panic, p\<lparr>pheader := h\<rparr>))"

definition checkAdvance :: "dns_section \<Rightarrow> unit parse" where
  "checkAdvance sec p =
     (if psection p < sec then (Fail ErrNotStarted, p)
      else if psection p > sec then (Fail ErrSectionDone, p)
      else
        let p = p\<lparr>resHeaderValid := False\<rparr> in
        if pindex p = unat (header_count (pheader p) sec)
        then (Fail ErrSectionDone, p\<lparr>pindex := 0, psection := next_section (psection p)\<rparr>)
        else (Return (), p))"

definition resourceHeader :: "dns_section \<Rightarrow> ResourceHeader parse" where
  "resourceHeader sec p =
     (if resHeaderValid p then (Return (resHeader p), p)
      else bind_meth (checkAdvance sec) (\<lambda>_ p.
        case ResourceHeader_unpack (pbytes p) (poff p) of
          Return (hdr, off) \<Rightarrow> (Return hdr, p\<lparr>resHeaderValid := True, resHeader := hdr, poff := off\<rparr>)
        | Fail err \<Rightarrow> (Fail err, p)
        | Panic \<Rightarrow> (Panic, p)) p)"

definition Parser_resource :: "dns_section \<Rightarrow> Resource parse" where
  "Parser_resource sec =
     bind_meth (resourceHeader sec) (\<lambda>hdr p.
       let p = p\<lparr>resHeaderValid := False\<rparr> in
       case unpackResourceBody (pbytes p) (poff p) hdr of
         Return (body, off) \<Rightarrow>
           (Return \<lparr>Res_Header = hdr, Body = Some body\<rparr>, p\<lparr>poff := off, pindex := pindex p + 1\<rparr>)
       | Fail err \<Rightarrow> (Fail (nestedError (''unpacking '' @ sectionNames sec) err), p)
       | Panic \<Rightarrow> (Panic, p))"

definition Parser_skipResource :: "dns_section \<Rightarrow> unit parse" where
  "Parser_skipResource sec p =
     (if resHeaderValid p then
        let newOff = poff p + unat (RLength (resHeader p)) in
        if newOff > length (pbytes p) then (Fail errResourceLen, p)
        else (Return (), p\<lparr>poff := newOff, resHeaderValid := False, pindex := pindex p + 1\<rparr>)
      else bind_meth (checkAdvance sec) (\<lambda>_ p.
        case skipResource (pbytes p) (poff p) of
          Return off \<Rightarrow> (Return (), p\<lparr>poff := off, pindex := pindex p + 1\<rparr>)
        | Fail err \<Rightarrow> (Fail (nestedError (''skipping: '' @ sectionNames sec) err), p)
        | Panic \<Rightarrow> (Panic, p)) p)"

definition Parser_Question :: "Question parse" where
  "Parser_Question =
     bind_meth (checkAdvance sectionQuestions) (\<lambda>_ p.
       case read_question (pbytes p) (poff p) of
         Return (q, off) \<Rightarrow> (Return q, p\<lparr>poff := off, pindex := pindex p + 1\<rparr>)
       | Fail err \<Rightarrow> (Fail err, p)
       | Panic \<Rightarrow> (Panic, p))"

definition skip_question :: "bytes \<Rightarrow> nat \<Rightarrow> nat dns" where
  "skip_question msg off =
     bind_outcome (map_error (nestedError ''skipping Question Name'') (skipName msg off)) (\<lambda>off.
     bind_outcome (map_error (nestedError ''skipping Question Type'') (skipType msg off)) (\<lambda>off.
     map_error (nestedError ''skipping Question Class'') (skipClass msg off)))"

definition SkipQuestion :: "unit parse" where
  "SkipQuestion =
     bind_meth (checkAdvance sectionQuestions) (\<lambda>_ p.
       case skip_question (pbytes p) (poff p) of
         Return off \<Rightarrow> (Return (), p\<lparr>poff := off, pindex := pindex p + 1\<rparr>)
       | Fail err \<Rightarrow> (Fail err, p)
       | Panic \<Rightarrow> (Panic, p))"

definition AnswerHeader :: "ResourceHeader parse" where
  "AnswerHeader = resourceHeader sectionAnswers"

definition Answer :: "Resource parse" where
  "Answer = Parser_resource sectionAnswers"

definition SkipAnswer :: "unit parse" where
  "SkipAnswer = Parser_skipResource sectionAnswers"

definition AuthorityHeader :: "ResourceHeader parse" where
  "AuthorityHeader = resourceHeader sectionAuthorities"

definition Authority :: "Resource parse" where
  "Authority = Parser_resource sectionAuthorities"

definition SkipAuthority :: "unit parse" where
  "SkipAuthority = Parser_skipResource sectionAuthorities"

definition AdditionalHeader :: "ResourceHeader parse" where
  "AdditionalHeader = resourceHeader sectionAdditionals"

definition Additional :: "Resource parse" where
  "Additional = Parser_resource sectionAdditionals"

definition SkipAdditional :: "unit parse" where
  "SkipAdditional = Parser_skipResource sectionAdditionals"

section \<open>Parsing a resource after its header\<close>

text \<open>The bodies of \<open>CNAMEResource\<close>, \<open>MXResource\<close>, ... of \<open>*Parser\<close> differ in the type they require and in
  the function that unpacks.\<close>

definition typed_resource ::
    "(Type \<Rightarrow> bool) \<Rightarrow> (ResourceHeader \<Rightarrow> bytes \<Rightarrow> nat \<Rightarrow> ResourceBody dns) \<Rightarrow> ResourceBody parse" where
  "typed_resource want unpack p =
     (if \<not> resHeaderValid p \<or> \<not> want (RType (resHeader p)) then (Fail ErrNotStarted, p)
      else case unpack (resHeader p) (pbytes p) (poff p) of
          Return r \<Rightarrow> (Return r, p\<lparr>poff := poff p + unat (RLength (resHeader p)), resHeaderValid := False,
                         pindex := pindex p + 1\<rparr>)
        | Fail err \<Rightarrow> (Fail err, p)
        | Panic \<Rightarrow> (Panic, p))"

definition Parser_CNAMEResource :: "ResourceBody parse" where
  "Parser_CNAMEResource = typed_resource (\<lambda>t. t = TypeCNAME) (\<lambda>h. unpackCNAMEResource)"

definition Parser_MXResource :: "ResourceBody parse" where
  "Parser_MXResource = typed_resource (\<lambda>t. t = TypeMX) (\<lambda>h. unpackMXResource)"

definition Parser_NSResource :: "ResourceBody parse" where
  "Parser_NSResource = typed_resource (\<lambda>t. t = TypeNS) (\<lambda>h. unpackNSResource)"

definition Parser_PTRResource :: "ResourceBody parse" where
  "Parser_PTRResource = typed_resource (\<lambda>t. t = TypePTR) (\<lambda>h. unpackPTRResource)"

definition Parser_SOAResource :: "ResourceBody parse" where
  "Parser_SOAResource = typed_resource (\<lambda>t. t = TypeSOA) (\<lambda>h. unpackSOAResource)"

definition Parser_TXTResource :: "ResourceBody parse" where
  "Parser_TXTResource = typed_resource (\<lambda>t. t = TypeTXT) (\<lambda>h msg off. unpackTXTResource msg off (RLength h))"

definition Parser_SRVResource :: "ResourceBody parse" where
  "Parser_SRVResource = typed_resource (\<lambda>t. t = TypeSRV) (\<lambda>h. unpackSRVResource)"

definition Parser_AResource :: "ResourceBody parse" where
  "Parser_AResource = typed_resource (\<lambda>t. t = TypeA) (\<lambda>h. unpackAResource)"

definition Parser_AAAAResource :: "ResourceBody parse" where
  "Parser_AAAAResource = typed_resource (\<lambda>t. t = TypeAAAA) (\<lambda>h. unpackAAAAResource)"

definition Parser_OPTResource :: "ResourceBody parse" where
  "Parser_OPTResource = typed_resource (\<lambda>t. t = TypeOPT) (\<lambda>h msg off. unpackOPTResource msg off (RLength h))"

definition Parser_UnknownResource :: "ResourceBody parse" where
  "Parser_UnknownResource =
     typed_resource (\<lambda>t. True) (\<lambda>h msg off. unpackUnknownResource (RType h) msg off (RLength h))"

section \<open>Progress and panic freedom\<close>

lemma fst_ne_Panic: "fst r \<noteq> Panic \<Longrightarrow> r \<noteq> (Panic, s)"
  by auto

lemma pbytes_update [simp]:
  "pbytes (p\<lparr>pheader := h\<rparr>) = pbytes p" "pbytes (p\<lparr>psection := sec\<rparr>) = pbytes p"
  "pbytes (p\<lparr>poff := off\<rparr>) = pbytes p" "pbytes (p\<lparr>pindex := i\<rparr>) = pbytes p"
  "pbytes (p\<lparr>resHeaderValid := v\<rparr>) = pbytes p" "pbytes (p\<lparr>resHeader := rh\<rparr>) = pbytes p"
  "pbytes (p\<lparr>pmsg := m\<rparr>) = (case m of None \<Rightarrow> [] | Some bs \<Rightarrow> bs)"
  by (simp_all add: pbytes_def)

lemma checkAdvance_Return:
  "checkAdvance sec p = (Return u, p') \<Longrightarrow> psection p = sec \<and> p' = p\<lparr>resHeaderValid := False\<rparr> \<and>
     pindex p \<noteq> unat (header_count (pheader p) sec)"
  by (auto simp: checkAdvance_def Let_def split: if_splits)

lemma checkAdvance_no_panic [simp]: "fst (checkAdvance sec p) \<noteq> Panic"
  by (simp add: checkAdvance_def Let_def)

lemmas unpack_bounds = u16c.unpack_sound u32c.unpack_sound

lemma ResourceHeader_unpack_bounds:
  "ResourceHeader_unpack msg off = Return (h, off') \<Longrightarrow> off < off' \<and> off' \<le> length msg"
  by (fastforce simp: ResourceHeader_unpack_def dest: Name_unpack_bounds unpack_bounds found_at_bound)

lemma read_question_bounds: "read_question msg off = Return (q, off') \<Longrightarrow> off < off' \<and> off' \<le> length msg"
  by (fastforce simp: read_question_def dest: Name_unpack_bounds unpack_bounds found_at_bound)

lemma skip_question_bounds: "skip_question msg off = Return off' \<Longrightarrow> off < off' \<and> off' \<le> length msg"
  by (auto simp: skip_question_def skipName_def skipUint16_def dns_const split: if_splits dest!: skip_loop_gt)

lemma skipResource_bounds: "skipResource msg off = Return off' \<Longrightarrow> off < off' \<and> off' \<le> length msg"
  by (fastforce simp: skipResource_def skipName_def skipUint16_def skipUint32_def dns_const split: if_splits
      dest: skip_loop_gt u16c.unpack_sound)

lemma unpack_field_no_panics [simp]:
  "unpackUint16 msg off \<noteq> Panic" "unpackUint32 msg off \<noteq> Panic" "unpackText msg off \<noteq> Panic"
  "skipUint16 msg off \<noteq> Panic" "skipUint32 msg off \<noteq> Panic"
  by (simp_all add: u16c.unpack_no_panic u32c.unpack_no_panic textc.unpack_no_panic skipUint16_def skipUint32_def)

lemma ResourceHeader_unpack_no_panic [simp]: "ResourceHeader_unpack msg off \<noteq> Panic"
  by (auto simp: ResourceHeader_unpack_def)

lemma read_question_no_panic [simp]: "read_question msg off \<noteq> Panic"
  by (auto simp: read_question_def)

lemma skip_question_no_panic [simp]: "skip_question msg off \<noteq> Panic"
  by (auto simp: skip_question_def)

lemma skipResource_no_panic [simp]: "skipResource msg off \<noteq> Panic"
  by (auto simp: skipResource_def)

lemma txt_loop_no_panic [simp]: "txt_loop msg off len n txts \<noteq> Panic"
proof (induction msg off len n txts rule: txt_loop.induct)
  case (1 msg off len n txts)
  then show ?case by (subst txt_loop.simps) auto
qed

lemma opt_loop_no_panic [simp]: "opt_loop msg off endOff opts \<noteq> Panic"
proof (induction msg off endOff opts rule: opt_loop.induct)
  case (1 msg off endOff opts)
  have "unpackUint16 msg i = Return (v, j) \<Longrightarrow> j \<le> length msg" for i v j
    by (auto dest: u16c.unpack_bounds)
  with 1 show ?case by (subst opt_loop.simps) auto
qed

lemma body_no_panics [simp]:
  "unpackCNAMEResource msg off \<noteq> Panic" "unpackMXResource msg off \<noteq> Panic" "unpackNSResource msg off \<noteq> Panic"
  "unpackPTRResource msg off \<noteq> Panic" "unpackSOAResource msg off \<noteq> Panic" "unpackTXTResource msg off len \<noteq> Panic"
  "unpackSRVResource msg off \<noteq> Panic" "unpackAResource msg off \<noteq> Panic" "unpackAAAAResource msg off \<noteq> Panic"
  "unpackOPTResource msg off len \<noteq> Panic" "unpackUnknownResource t msg off len \<noteq> Panic"
  by (auto simp: unpackCNAMEResource_def unpackMXResource_def unpackNSResource_def unpackPTRResource_def
    unpackSOAResource_def unpackTXTResource_def unpackSRVResource_def unpackAResource_def unpackAAAAResource_def
    unpackOPTResource_def unpackUnknownResource_def)

lemma unpackResourceBody_no_panic [simp]: "unpackResourceBody msg off hdr \<noteq> Panic"
  by (auto simp: unpackResourceBody_def Let_def)

lemma unpackResourceBody_off:
  "unpackResourceBody msg off hdr = Return (b, off') \<Longrightarrow> off' = off + unat (RLength hdr)"
  by (auto simp: unpackResourceBody_def Let_def split: prod.splits)

lemma header_unpack_ne_Panic [simp]: "header_unpack msg off h \<noteq> (Panic, h')"
  by (metis fst_conv header_unpack_no_panic)

lemma Start_no_panic [simp]: "fst (Start msg p) \<noteq> Panic"
  by (auto simp: Start_def Let_def split: prod.splits outcome.splits)

lemma resourceHeader_no_panic [simp]: "fst (resourceHeader sec p) \<noteq> Panic"
  by (auto simp: resourceHeader_def bind_meth_Panic_iff split: outcome.splits)

lemma Parser_resource_no_panic [simp]: "fst (Parser_resource sec p) \<noteq> Panic"
  by (auto simp: Parser_resource_def bind_meth_Panic_iff Let_def split: outcome.splits)

lemma Parser_skipResource_no_panic [simp]: "fst (Parser_skipResource sec p) \<noteq> Panic"
  by (auto simp: Parser_skipResource_def bind_meth_Panic_iff Let_def split: outcome.splits)

lemma Parser_Question_no_panic [simp]: "fst (Parser_Question p) \<noteq> Panic"
  by (auto simp: Parser_Question_def bind_meth_Panic_iff split: outcome.splits)

lemma SkipQuestion_no_panic [simp]: "fst (SkipQuestion p) \<noteq> Panic"
  by (auto simp: SkipQuestion_def bind_meth_Panic_iff split: outcome.splits)

lemma Parser_Question_cases:
  assumes "Parser_Question p = (Return q, p')"
  obtains off where "psection p = sectionQuestions" "pindex p \<noteq> unat (questions (pheader p))"
    "read_question (pbytes p) (poff p) = Return (q, off)"
    "p' = p\<lparr>resHeaderValid := False, poff := off, pindex := pindex p + 1\<rparr>"
  using assms unfolding Parser_Question_def bind_meth_Return_iff
  by (elim exE conjE) (auto simp: pbytes_def split: outcome.split_asm prod.split_asm
      dest!: checkAdvance_Return)

lemma SkipQuestion_cases:
  assumes "SkipQuestion p = (Return u, p')"
  obtains off where "psection p = sectionQuestions" "pindex p \<noteq> unat (questions (pheader p))"
    "skip_question (pbytes p) (poff p) = Return off"
    "p' = p\<lparr>resHeaderValid := False, poff := off, pindex := pindex p + 1\<rparr>"
  using assms unfolding SkipQuestion_def bind_meth_Return_iff
  by (elim exE conjE) (auto simp: pbytes_def split: outcome.split_asm prod.split_asm
      dest!: checkAdvance_Return)

lemma resourceHeader_cases:
  assumes "resourceHeader sec p = (Return h, p')"
  obtains (pending) "resHeaderValid p" "h = resHeader p" "p' = p"
  | (read) off where "\<not> resHeaderValid p" "psection p = sec" "pindex p \<noteq> unat (header_count (pheader p) sec)"
      "ResourceHeader_unpack (pbytes p) (poff p) = Return (h, off)"
      "p' = p\<lparr>resHeaderValid := True, resHeader := h, poff := off\<rparr>"
proof (cases "resHeaderValid p")
  case True
  show ?thesis by (rule pending) (use True assms in \<open>auto simp: resourceHeader_def\<close>)
next
  case False
  obtain u p1 where c: "checkAdvance sec p = (Return u, p1)" and
    r: "(case ResourceHeader_unpack (pbytes p1) (poff p1) of
          Return (hdr, off) \<Rightarrow> (Return hdr, p1\<lparr>resHeaderValid := True, resHeader := hdr, poff := off\<rparr>)
        | Fail err \<Rightarrow> (Fail err, p1) | Panic \<Rightarrow> (Panic, p1)) = (Return h, p')"
    using assms unfolding resourceHeader_def if_not_P [OF False] bind_meth_Return_iff by blast
  note p1 = checkAdvance_Return [OF c]
  have b: "pbytes p1 = pbytes p" "poff p1 = poff p" using p1 by (simp_all add: pbytes_def)
  obtain off where "ResourceHeader_unpack (pbytes p1) (poff p1) = Return (h, off)"
    "p' = p1\<lparr>resHeaderValid := True, resHeader := h, poff := off\<rparr>"
    using r by (auto split: outcome.split_asm prod.split_asm)
  then show ?thesis using read False p1 b by simp
qed

lemma Parser_resource_cases:
  assumes "Parser_resource sec p = (Return r, p')"
  obtains h p1 b where "resourceHeader sec p = (Return h, p1)"
    "unpackResourceBody (pbytes p) (poff p1) h = Return (b, poff p1 + unat (RLength h))"
    "r = \<lparr>Res_Header = h, Body = Some b\<rparr>"
    "p' = p1\<lparr>resHeaderValid := False, poff := poff p1 + unat (RLength h), pindex := pindex p + 1\<rparr>"
proof -
  obtain h p1 where h: "resourceHeader sec p = (Return h, p1)" using assms
    by (auto simp: Parser_resource_def bind_meth_Return_iff)
  then have "pbytes p1 = pbytes p" "pindex p1 = pindex p"
    by (auto elim!: resourceHeader_cases simp: pbytes_def)
  then show ?thesis using that [OF h] assms h
    by (auto simp: Parser_resource_def Let_def pbytes_def split: outcome.split_asm prod.split_asm dest: unpackResourceBody_off)
qed

lemma Parser_skipResource_cases:
  assumes "Parser_skipResource sec p = (Return u, p')"
  obtains (pending) "resHeaderValid p" "poff p + unat (RLength (resHeader p)) \<le> length (pbytes p)"
      "p' = p\<lparr>poff := poff p + unat (RLength (resHeader p)), resHeaderValid := False, pindex := pindex p + 1\<rparr>"
  | (skip) off where "\<not> resHeaderValid p" "psection p = sec" "pindex p \<noteq> unat (header_count (pheader p) sec)"
      "skipResource (pbytes p) (poff p) = Return off"
      "p' = p\<lparr>resHeaderValid := False, poff := off, pindex := pindex p + 1\<rparr>"
proof (cases "resHeaderValid p")
  case True
  show ?thesis by (rule pending) (use True assms in \<open>auto simp: Parser_skipResource_def Let_def split: if_split_asm\<close>)
next
  case False
  obtain u p1 where c: "checkAdvance sec p = (Return u, p1)" and
    r: "(case skipResource (pbytes p1) (poff p1) of
          Return off \<Rightarrow> (Return (), p1\<lparr>poff := off, pindex := pindex p1 + 1\<rparr>)
        | Fail err \<Rightarrow> (Fail (nestedError (''skipping: '' @ sectionNames sec) err), p1)
        | Panic \<Rightarrow> (Panic, p1)) = (Return (), p')"
    using assms unfolding Parser_skipResource_def if_not_P [OF False] bind_meth_Return_iff by auto
  note p1 = checkAdvance_Return [OF c]
  have b: "pbytes p1 = pbytes p" "poff p1 = poff p" using p1 by (simp_all add: pbytes_def)
  obtain off where "skipResource (pbytes p1) (poff p1) = Return off"
    "p' = p1\<lparr>poff := off, pindex := pindex p1 + 1\<rparr>"
    using r by (auto split: outcome.split_asm)
  then show ?thesis using skip False p1 b by simp
qed

text \<open>Every step of a loop lowers this measure.\<close>

definition remaining :: "Parser \<Rightarrow> nat" where
  "remaining p = (if resHeaderValid p then 1 else 0) * (length (pbytes p) + 1) + (length (pbytes p) - poff p)"

lemma Parser_Question_remaining: "Parser_Question p = (Return q, p') \<Longrightarrow> remaining p' < remaining p"
  by (elim Parser_Question_cases) (auto simp: remaining_def pbytes_def dest!: read_question_bounds)

lemma SkipQuestion_remaining: "SkipQuestion p = (Return u, p') \<Longrightarrow> remaining p' < remaining p"
  by (elim SkipQuestion_cases) (auto simp: remaining_def pbytes_def dest!: skip_question_bounds)

lemma Parser_resource_remaining: "Parser_resource sec p = (Return r, p') \<Longrightarrow> remaining p' < remaining p"
  by (elim Parser_resource_cases resourceHeader_cases)
    (auto simp: remaining_def pbytes_def dest!: ResourceHeader_unpack_bounds)

lemma Parser_skipResource_remaining: "Parser_skipResource sec p = (Return u, p') \<Longrightarrow> remaining p' < remaining p"
  by (elim Parser_skipResource_cases) (auto simp: remaining_def pbytes_def dest!: skipResource_bounds)

section \<open>Loops\<close>

text \<open>\<open>for { q, err := p.Question(); if err == ErrSectionDone { return qs, nil } ... }\<close>\<close>

function all_questions :: "Question list \<Rightarrow> Question list parse" where
  "all_questions qs p =
     (case Parser_Question p of
        (Return q, p') \<Rightarrow> all_questions (qs @ [q]) p'
      | (Fail err, p') \<Rightarrow> if err = ErrSectionDone then (Return qs, p') else (Fail err, p')
      | (Panic, p') \<Rightarrow> (Panic, p'))"
  by pat_completeness auto
termination by (relation "measure (\<lambda>(_, p). remaining p)") (auto dest!: sym [of _ "Parser_Question _"] intro: Parser_Question_remaining)

function skip_questions :: "unit parse" where
  "skip_questions p =
     (case SkipQuestion p of
        (Return _, p') \<Rightarrow> skip_questions p'
      | (Fail err, p') \<Rightarrow> if err = ErrSectionDone then (Return (), p') else (Fail err, p')
      | (Panic, p') \<Rightarrow> (Panic, p'))"
  by pat_completeness auto
termination by (relation "measure remaining") (auto dest!: sym [of _ "SkipQuestion _"] intro: SkipQuestion_remaining)

function all_resources :: "dns_section \<Rightarrow> Resource list \<Rightarrow> Resource list parse" where
  "all_resources sec rs p =
     (case Parser_resource sec p of
        (Return r, p') \<Rightarrow> all_resources sec (rs @ [r]) p'
      | (Fail err, p') \<Rightarrow> if err = ErrSectionDone then (Return rs, p') else (Fail err, p')
      | (Panic, p') \<Rightarrow> (Panic, p'))"
  by pat_completeness auto
termination by (relation "measure (\<lambda>(_, _, p). remaining p)") (auto dest!: sym [of _ "Parser_resource _ _"] intro: Parser_resource_remaining)

function skip_resources :: "dns_section \<Rightarrow> unit parse" where
  "skip_resources sec p =
     (case Parser_skipResource sec p of
        (Return _, p') \<Rightarrow> skip_resources sec p'
      | (Fail err, p') \<Rightarrow> if err = ErrSectionDone then (Return (), p') else (Fail err, p')
      | (Panic, p') \<Rightarrow> (Panic, p'))"
  by pat_completeness auto
termination by (relation "measure (\<lambda>(_, p). remaining p)") (auto dest!: sym [of _ "Parser_skipResource _ _"] intro: Parser_skipResource_remaining)

declare all_questions.simps [simp del] skip_questions.simps [simp del]
  all_resources.simps [simp del] skip_resources.simps [simp del]

definition AllQuestions :: "Question list parse" where
  "AllQuestions = all_questions []"

definition SkipAllQuestions :: "unit parse" where
  "SkipAllQuestions = skip_questions"

definition AllAnswers :: "Resource list parse" where
  "AllAnswers = all_resources sectionAnswers []"

definition SkipAllAnswers :: "unit parse" where
  "SkipAllAnswers = skip_resources sectionAnswers"

definition AllAuthorities :: "Resource list parse" where
  "AllAuthorities = all_resources sectionAuthorities []"

definition SkipAllAuthorities :: "unit parse" where
  "SkipAllAuthorities = skip_resources sectionAuthorities"

definition AllAdditionals :: "Resource list parse" where
  "AllAdditionals = all_resources sectionAdditionals []"

definition SkipAllAdditionals :: "unit parse" where
  "SkipAllAdditionals = skip_resources sectionAdditionals"

lemma all_questions_no_panic [simp]: "fst (all_questions qs p) \<noteq> Panic"
proof (induction qs p rule: all_questions.induct)
  case (1 qs p)
  then show ?case using Parser_Question_no_panic [of p, THEN fst_ne_Panic]
    by (subst all_questions.simps) (auto split: prod.splits outcome.splits)
qed

lemma all_resources_no_panic [simp]: "fst (all_resources sec rs p) \<noteq> Panic"
proof (induction sec rs p rule: all_resources.induct)
  case (1 sec rs p)
  then show ?case using Parser_resource_no_panic [of sec p, THEN fst_ne_Panic]
    by (subst all_resources.simps) (auto split: prod.splits outcome.splits)
qed

lemma skip_questions_no_panic [simp]: "fst (skip_questions p) \<noteq> Panic"
proof (induction p rule: skip_questions.induct)
  case (1 p)
  then show ?case using SkipQuestion_no_panic [of p, THEN fst_ne_Panic]
    by (subst skip_questions.simps) (auto split: prod.splits outcome.splits)
qed

lemma skip_resources_no_panic [simp]: "fst (skip_resources sec p) \<noteq> Panic"
proof (induction sec p rule: skip_resources.induct)
  case (1 sec p)
  then show ?case using Parser_skipResource_no_panic [of sec p, THEN fst_ne_Panic]
    by (subst skip_resources.simps) (auto split: prod.splits outcome.splits)
qed

lemma typed_resource_no_panic:
  "(\<And>h msg off. unpack h msg off \<noteq> Panic) \<Longrightarrow> fst (typed_resource want unpack p) \<noteq> Panic"
  by (auto simp: typed_resource_def split: outcome.splits)

lemma typed_no_panics [simp]:
  "fst (Parser_CNAMEResource p) \<noteq> Panic" "fst (Parser_MXResource p) \<noteq> Panic" "fst (Parser_NSResource p) \<noteq> Panic"
  "fst (Parser_PTRResource p) \<noteq> Panic" "fst (Parser_SOAResource p) \<noteq> Panic" "fst (Parser_TXTResource p) \<noteq> Panic"
  "fst (Parser_SRVResource p) \<noteq> Panic" "fst (Parser_AResource p) \<noteq> Panic" "fst (Parser_AAAAResource p) \<noteq> Panic"
  "fst (Parser_OPTResource p) \<noteq> Panic" "fst (Parser_UnknownResource p) \<noteq> Panic"
  unfolding Parser_CNAMEResource_def Parser_MXResource_def Parser_NSResource_def Parser_PTRResource_def
    Parser_SOAResource_def Parser_TXTResource_def Parser_SRVResource_def Parser_AResource_def
    Parser_AAAAResource_def Parser_OPTResource_def Parser_UnknownResource_def
  by (rule typed_resource_no_panic, simp)+

section \<open>The loops read what the header announces\<close>

lemma checkAdvance_done:
  "\<lbrakk>psection p = sec; pindex p = unat (header_count (pheader p) sec)\<rbrakk> \<Longrightarrow>
     checkAdvance sec p = (Fail ErrSectionDone, p\<lparr>resHeaderValid := False, pindex := 0, psection := next_section sec\<rparr>)"
  by (simp add: checkAdvance_def Let_def)

lemma checkAdvance_more:
  "\<lbrakk>psection p = sec; pindex p < unat (header_count (pheader p) sec)\<rbrakk> \<Longrightarrow>
     checkAdvance sec p = (Return (), p\<lparr>resHeaderValid := False\<rparr>)"
  by (simp add: checkAdvance_def Let_def)

lemma all_questions_read_n:
  assumes "psection p = sectionQuestions" "\<not> resHeaderValid p" "pindex p + n = unat (questions (pheader p))"
    and "read_n read_question n (pbytes p) (poff p) = Return (qs, off)"
  shows "all_questions acc p = (Return (acc @ qs), p\<lparr>psection := sectionAnswers, poff := off, pindex := 0\<rparr>)"
  using assms
proof (induction n arbitrary: p qs acc)
  case 0
  then show ?case
    by (subst all_questions.simps) (simp add: Parser_Question_def checkAdvance_done)
next
  case (Suc n)
  obtain q off1 qs1 where r: "read_question (pbytes p) (poff p) = Return (q, off1)"
    "read_n read_question n (pbytes p) off1 = Return (qs1, off)" "qs = q # qs1"
    using Suc.prems(4) by auto
  let ?p = "p\<lparr>poff := off1, pindex := pindex p + 1\<rparr>"
  have v: "p\<lparr>resHeaderValid := False\<rparr> = p" using Suc.prems(2) by simp
  have "Parser_Question p = (Return q, ?p)"
    using Suc.prems(1,3) r(1) by (simp add: Parser_Question_def checkAdvance_more v)
  then have "all_questions acc p = all_questions (acc @ [q]) ?p"
    by (subst all_questions.simps) simp
  also have "\<dots> = (Return ((acc @ [q]) @ qs1), ?p\<lparr>psection := sectionAnswers, poff := off, pindex := 0\<rparr>)"
    by (rule Suc.IH) (use Suc.prems r in simp_all)
  finally show ?case using r(3) by simp
qed

lemma Parser_resource_read:
  assumes "psection p = sec" "\<not> resHeaderValid p" "pindex p < unat (header_count (pheader p) sec)"
    and "read_resource (pbytes p) (poff p) = Return (r, off)"
  shows "\<exists>h. Parser_resource sec p = (Return r, p\<lparr>poff := off, pindex := pindex p + 1, resHeader := h\<rparr>)"
proof -
  obtain h off1 b where r: "ResourceHeader_unpack (pbytes p) (poff p) = Return (h, off1)"
    "unpackResourceBody (pbytes p) off1 h = Return (b, off)" "r = \<lparr>Res_Header = h, Body = Some b\<rparr>"
    using assms(4) by (auto simp: read_resource_def)
  have v: "p\<lparr>resHeaderValid := False\<rparr> = p" using assms(2) by simp
  have "resourceHeader sec p = (Return h, p\<lparr>resHeaderValid := True, resHeader := h, poff := off1\<rparr>)"
    using assms r(1) by (simp add: resourceHeader_def checkAdvance_more v)
  then have "Parser_resource sec p =
      (Return r, p\<lparr>resHeaderValid := False, resHeader := h, poff := off, pindex := pindex p + 1\<rparr>)"
    using r(2,3) by (simp add: Parser_resource_def Let_def)
  then show ?thesis using v by (intro exI [of _ h]) (cases p, simp)
qed

lemma all_resources_read_n:
  assumes "psection p = sec" "\<not> resHeaderValid p" "pindex p + n = unat (header_count (pheader p) sec)"
    and "read_n read_resource n (pbytes p) (poff p) = Return (rs, off)"
  shows "\<exists>h. all_resources sec acc p =
    (Return (acc @ rs), p\<lparr>psection := next_section sec, poff := off, pindex := 0, resHeader := h\<rparr>)"
  using assms
proof (induction n arbitrary: p rs acc)
  case 0
  have "all_resources sec acc p = (Return (acc @ rs), p\<lparr>psection := next_section sec, poff := off, pindex := 0\<rparr>)"
    using 0 by (subst all_resources.simps) (simp add: Parser_resource_def resourceHeader_def checkAdvance_done)
  then show ?case by (intro exI [of _ "resHeader p"]) simp
next
  case (Suc n)
  obtain r off1 rs1 where r: "read_resource (pbytes p) (poff p) = Return (r, off1)"
    "read_n read_resource n (pbytes p) off1 = Return (rs1, off)" "rs = r # rs1"
    using Suc.prems(4) by auto
  obtain h where h: "Parser_resource sec p = (Return r, p\<lparr>poff := off1, pindex := pindex p + 1, resHeader := h\<rparr>)"
    using Parser_resource_read [OF Suc.prems(1,2) _ r(1)] Suc.prems(3) by auto
  let ?p = "p\<lparr>poff := off1, pindex := pindex p + 1, resHeader := h\<rparr>"
  have "\<exists>h. all_resources sec (acc @ [r]) ?p =
      (Return ((acc @ [r]) @ rs1), ?p\<lparr>psection := next_section sec, poff := off, pindex := 0, resHeader := h\<rparr>)"
    by (rule Suc.IH) (use Suc.prems r in simp_all)
  moreover have "all_resources sec acc p = all_resources sec (acc @ [r]) ?p"
    using h by (subst all_resources.simps) simp
  ultimately show ?case using r(3) by simp
qed

section \<open>Sequences of calls\<close>

datatype parser_call =
    CallStart "bytes option" | CallQuestion | CallAllQuestions | CallSkipQuestion | CallSkipAllQuestions
  | CallAnswerHeader | CallAnswer | CallAllAnswers | CallSkipAnswer | CallSkipAllAnswers
  | CallAuthorityHeader | CallAuthority | CallAllAuthorities | CallSkipAuthority | CallSkipAllAuthorities
  | CallAdditionalHeader | CallAdditional | CallAllAdditionals | CallSkipAdditional | CallSkipAllAdditionals
  | CallCNAMEResource | CallMXResource | CallNSResource | CallPTRResource | CallSOAResource | CallTXTResource
  | CallSRVResource | CallAResource | CallAAAAResource | CallOPTResource | CallUnknownResource

definition forget :: "'a parse \<Rightarrow> unit parse" where
  "forget m p = (case m p of (r, p') \<Rightarrow> (map_outcome id (\<lambda>_. ()) r, p'))"

fun run_call :: "parser_call \<Rightarrow> unit parse" where
  "run_call (CallStart msg) = forget (Start msg)"
| "run_call CallQuestion = forget Parser_Question"
| "run_call CallAllQuestions = forget AllQuestions"
| "run_call CallSkipQuestion = SkipQuestion"
| "run_call CallSkipAllQuestions = SkipAllQuestions"
| "run_call CallAnswerHeader = forget AnswerHeader"
| "run_call CallAnswer = forget Answer"
| "run_call CallAllAnswers = forget AllAnswers"
| "run_call CallSkipAnswer = SkipAnswer"
| "run_call CallSkipAllAnswers = SkipAllAnswers"
| "run_call CallAuthorityHeader = forget AuthorityHeader"
| "run_call CallAuthority = forget Authority"
| "run_call CallAllAuthorities = forget AllAuthorities"
| "run_call CallSkipAuthority = SkipAuthority"
| "run_call CallSkipAllAuthorities = SkipAllAuthorities"
| "run_call CallAdditionalHeader = forget AdditionalHeader"
| "run_call CallAdditional = forget Additional"
| "run_call CallAllAdditionals = forget AllAdditionals"
| "run_call CallSkipAdditional = SkipAdditional"
| "run_call CallSkipAllAdditionals = SkipAllAdditionals"
| "run_call CallCNAMEResource = forget Parser_CNAMEResource"
| "run_call CallMXResource = forget Parser_MXResource"
| "run_call CallNSResource = forget Parser_NSResource"
| "run_call CallPTRResource = forget Parser_PTRResource"
| "run_call CallSOAResource = forget Parser_SOAResource"
| "run_call CallTXTResource = forget Parser_TXTResource"
| "run_call CallSRVResource = forget Parser_SRVResource"
| "run_call CallAResource = forget Parser_AResource"
| "run_call CallAAAAResource = forget Parser_AAAAResource"
| "run_call CallOPTResource = forget Parser_OPTResource"
| "run_call CallUnknownResource = forget Parser_UnknownResource"

inductive parser_reach :: "Parser \<Rightarrow> bool" where
  reach_init: "parser_reach zero_Parser"
| reach_call: "parser_reach p \<Longrightarrow> parser_reach (snd (run_call c p))"

text \<open>The index never passes the announced count, and a pending header belongs to an unfinished
  section and lies inside the message.\<close>

definition parser_inv :: "Parser \<Rightarrow> bool" where
  "parser_inv p \<longleftrightarrow>
     pindex p \<le> unat (header_count (pheader p) (psection p)) \<and>
     (resHeaderValid p \<longrightarrow> psection p \<in> {sectionAnswers, sectionAuthorities, sectionAdditionals} \<and>
        pindex p < unat (header_count (pheader p) (psection p)) \<and> poff p \<le> length (pbytes p)) \<and>
     (pmsg p = None \<longrightarrow> psection p = sectionNotStarted)"

definition keeps_inv :: "'a parse \<Rightarrow> bool" where
  "keeps_inv m \<longleftrightarrow> (\<forall>p. parser_inv p \<longrightarrow> parser_inv (snd (m p)))"

lemma snd_forget [simp]: "snd (forget m p) = snd (m p)"
  by (simp add: forget_def split: prod.splits)

lemma fst_forget_Panic [simp]: "fst (forget m p) = Panic \<longleftrightarrow> fst (m p) = Panic"
  by (cases "m p"; cases "fst (m p)") (simp_all add: forget_def)

lemma keeps_inv_forget: "keeps_inv m \<Longrightarrow> keeps_inv (forget m)"
  by (simp add: keeps_inv_def)

definition body_section :: "dns_section \<Rightarrow> bool" where
  "body_section sec \<longleftrightarrow> sec \<in> {sectionAnswers, sectionAuthorities, sectionAdditionals}"

lemma parser_inv_checkAdvance:
  assumes "parser_inv p" "checkAdvance sec p = (r, p')" "sec = sectionQuestions \<or> body_section sec"
  shows "parser_inv p' \<and> (r = Return () \<longrightarrow> psection p' = sec \<and> \<not> resHeaderValid p' \<and>
    pindex p' < unat (header_count (pheader p') sec))"
  using assms
  by (auto simp: checkAdvance_def Let_def parser_inv_def body_section_def split: if_splits)

lemma keeps_inv_Question: "keeps_inv Parser_Question" "keeps_inv SkipQuestion"
  unfolding keeps_inv_def
proof (safe)
  fix p assume p: "parser_inv p"
  obtain r p1 where c: "checkAdvance sectionQuestions p = (r, p1)" by force
  note i = parser_inv_checkAdvance [OF p c]
  show "parser_inv (snd (Parser_Question p))"
    using i c by (cases r) (auto simp: Parser_Question_def parser_inv_def split: outcome.splits prod.splits)
  show "parser_inv (snd (SkipQuestion p))"
    using i c by (cases r) (auto simp: SkipQuestion_def parser_inv_def split: outcome.splits prod.splits)
qed

lemma keeps_inv_Start: "keeps_inv (Start msg)"
  unfolding keeps_inv_def
proof safe
  fix p assume p: "parser_inv p"
  let ?p = "if pmsg p \<noteq> None then zero_Parser else p"
  have z: "psection ?p = sectionNotStarted" "pindex ?p = 0" "\<not> resHeaderValid ?p"
    using p by (auto simp: parser_inv_def zero_Parser_def split: if_splits)
  show "parser_inv (snd (Start msg p))"
  proof (cases "header_unpack (pbytes (?p\<lparr>pmsg := msg\<rparr>)) 0 (pheader (?p\<lparr>pmsg := msg\<rparr>))")
    case (Pair r h)
    show ?thesis
    proof (cases r)
      case (Return off)
      then have "found_at (pbytes (?p\<lparr>pmsg := msg\<rparr>)) 0 (wireHeader h)" using Pair header_unpack_sound by blast
      then have "msg \<noteq> None" using found_at_bound by (fastforce split: option.splits)
      then show ?thesis using Pair Return z unfolding Start_def Let_def by (simp add: parser_inv_def)
    next
      case (Fail e)
      then show ?thesis using Pair z unfolding Start_def Let_def by (simp add: parser_inv_def)
    next
      case Panic
      then show ?thesis using Pair by simp
    qed
  qed
qed

lemma keeps_inv_resourceHeader: "body_section sec \<Longrightarrow> keeps_inv (resourceHeader sec)"
  unfolding keeps_inv_def
proof safe
  fix p assume s: "body_section sec" and p: "parser_inv p"
  show "parser_inv (snd (resourceHeader sec p))"
  proof (cases "resHeaderValid p")
    case False
    obtain r p1 where c: "checkAdvance sec p = (r, p1)" by force
    note i = parser_inv_checkAdvance [OF p c]
    show ?thesis using i c s False
      by (cases r) (auto simp: resourceHeader_def parser_inv_def body_section_def split: outcome.splits prod.splits
        dest: ResourceHeader_unpack_bounds)
  qed (simp add: resourceHeader_def p)
qed

lemma keeps_inv_resource: "body_section sec \<Longrightarrow> keeps_inv (Parser_resource sec)"
  unfolding keeps_inv_def
proof safe
  fix p assume s: "body_section sec" and p: "parser_inv p"
  obtain r p1 where h: "resourceHeader sec p = (r, p1)" by force
  have i: "parser_inv p1" using keeps_inv_resourceHeader [OF s] p h unfolding keeps_inv_def by fastforce
  show "parser_inv (snd (Parser_resource sec p))"
  proof (cases r)
    case (Return hd)
    have "resHeaderValid p1" using h Return by (auto elim!: resourceHeader_cases)
    then show ?thesis using h Return i
      by (auto simp: Parser_resource_def Let_def parser_inv_def split: outcome.splits prod.splits)
  qed (use h i in \<open>simp_all add: Parser_resource_def\<close>)
qed

lemma keeps_inv_skipResource: "body_section sec \<Longrightarrow> keeps_inv (Parser_skipResource sec)"
  unfolding keeps_inv_def
proof safe
  fix p assume s: "body_section sec" and p: "parser_inv p"
  show "parser_inv (snd (Parser_skipResource sec p))"
  proof (cases "resHeaderValid p")
    case True
    then show ?thesis using p by (auto simp: Parser_skipResource_def Let_def parser_inv_def)
  next
    case False
    obtain r p1 where c: "checkAdvance sec p = (r, p1)" by force
    note i = parser_inv_checkAdvance [OF p c]
    show ?thesis using i c s False
      by (cases r) (auto simp: Parser_skipResource_def parser_inv_def body_section_def split: outcome.splits)
  qed
qed

lemma keeps_inv_typed: "keeps_inv (typed_resource want unpack)"
  by (auto simp: keeps_inv_def typed_resource_def parser_inv_def split: outcome.splits)

lemma keeps_inv_all_questions: "keeps_inv (all_questions qs)"
  unfolding keeps_inv_def
proof safe
  fix p assume "parser_inv p"
  then show "parser_inv (snd (all_questions qs p))"
  proof (induction qs p rule: all_questions.induct)
    case (1 qs p)
    have "parser_inv (snd (Parser_Question p))" using 1(2) keeps_inv_Question(1) unfolding keeps_inv_def by blast
    with 1(1) show ?case by (subst all_questions.simps) (auto split: prod.splits outcome.splits)
  qed
qed

lemma keeps_inv_skip_questions: "keeps_inv skip_questions"
  unfolding keeps_inv_def
proof safe
  fix p assume "parser_inv p"
  then show "parser_inv (snd (skip_questions p))"
  proof (induction p rule: skip_questions.induct)
    case (1 p)
    have "parser_inv (snd (SkipQuestion p))" using 1(2) keeps_inv_Question(2) unfolding keeps_inv_def by blast
    with 1(1) show ?case by (subst skip_questions.simps) (auto split: prod.splits outcome.splits)
  qed
qed

lemma keeps_inv_all_resources:
  assumes "body_section sec"
  shows "keeps_inv (all_resources sec rs)"
  unfolding keeps_inv_def
proof safe
  fix p assume "parser_inv p"
  then show "parser_inv (snd (all_resources sec rs p))" using assms
  proof (induction sec rs p rule: all_resources.induct)
    case (1 sec rs p)
    have "parser_inv (snd (Parser_resource sec p))" using 1(2,3) keeps_inv_resource unfolding keeps_inv_def by blast
    with 1(1,3) show ?case by (subst all_resources.simps) (auto split: prod.splits outcome.splits)
  qed
qed

lemma keeps_inv_skip_resources:
  assumes "body_section sec"
  shows "keeps_inv (skip_resources sec)"
  unfolding keeps_inv_def
proof safe
  fix p assume "parser_inv p"
  then show "parser_inv (snd (skip_resources sec p))" using assms
  proof (induction sec p rule: skip_resources.induct)
    case (1 sec p)
    have "parser_inv (snd (Parser_skipResource sec p))" using 1(2,3) keeps_inv_skipResource unfolding keeps_inv_def by blast
    with 1(1,3) show ?case by (subst skip_resources.simps) (auto split: prod.splits outcome.splits)
  qed
qed

lemmas section_ops = AllQuestions_def SkipAllQuestions_def
  AnswerHeader_def Answer_def SkipAnswer_def AllAnswers_def SkipAllAnswers_def
  AuthorityHeader_def Authority_def SkipAuthority_def AllAuthorities_def SkipAllAuthorities_def
  AdditionalHeader_def Additional_def SkipAdditional_def AllAdditionals_def SkipAllAdditionals_def

lemmas typed_ops = Parser_CNAMEResource_def Parser_MXResource_def Parser_NSResource_def Parser_PTRResource_def
  Parser_SOAResource_def Parser_TXTResource_def Parser_SRVResource_def Parser_AResource_def
  Parser_AAAAResource_def Parser_OPTResource_def Parser_UnknownResource_def

lemmas keeps_invs = keeps_inv_forget keeps_inv_Start keeps_inv_Question keeps_inv_all_questions
  keeps_inv_skip_questions keeps_inv_resourceHeader keeps_inv_resource keeps_inv_skipResource
  keeps_inv_all_resources keeps_inv_skip_resources keeps_inv_typed

lemma keeps_inv_call: "keeps_inv (run_call c)"
  by (cases c) (simp_all add: section_ops typed_ops keeps_invs body_section_def)

lemma parser_reach_inv: "parser_reach p \<Longrightarrow> parser_inv p"
proof (induction rule: parser_reach.induct)
  case reach_init
  then show ?case by (simp add: parser_inv_def zero_Parser_def)
next
  case (reach_call p c)
  then show ?case using keeps_inv_call unfolding keeps_inv_def by blast
qed

lemma skipResource_header:
  assumes "ResourceHeader_unpack msg off = Return (h, off1)" "off1 + unat (RLength h) \<le> length msg"
  shows "skipResource msg off = Return (off1 + unat (RLength h))"
proof -
  obtain n o1 o2 o3 o4 where u: "Name_unpack zero_Name msg off = Return (n, o1)"
    "unpackUint16 msg o1 = Return (RType h, o2)" "unpackUint16 msg o2 = Return (RClass h, o3)"
    "unpackUint32 msg o3 = Return (TTL h, o4)" "unpackUint16 msg o4 = Return (RLength h, off1)"
    using assms(1) by (auto simp: ResourceHeader_unpack_def)
  have "skipName msg off = Return o1" using u(1) skipName_unpack unfolding Name_unpack_def by blast
  moreover have "skipUint16 msg o1 = Return o2" "skipUint16 msg o2 = Return o3" "skipUint32 msg o3 = Return o4"
    using u(2-4) u16c.skip_unpack u32c.skip_unpack by blast+
  ultimately show ?thesis using u(5) assms(2) by (simp add: skipResource_def del: bind_outcome_Return_iff)
qed

lemma skip_question_read:
  assumes "read_question msg off = Return (q, off')"
  shows "skip_question msg off = Return off'"
proof -
  obtain o1 o2 where u: "Name_unpack zero_Name msg off = Return (QName q, o1)"
    "unpackUint16 msg o1 = Return (QType q, o2)" "unpackUint16 msg o2 = Return (QClass q, off')"
    using assms by (auto simp: read_question_def)
  have "skipName msg off = Return o1" using u(1) skipName_unpack unfolding Name_unpack_def by blast
  moreover have "skipUint16 msg o1 = Return o2" "skipUint16 msg o2 = Return off'"
    using u(2,3) u16c.skip_unpack by blast+
  ultimately show ?thesis by (simp add: skip_question_def del: bind_outcome_Return_iff)
qed

section \<open>Properties of the parser\<close>

definition sample_answer :: bytes where
  "sample_answer = [0, 7, 0x80, 0, 0, 0, 0, 1, 0, 0, 0, 0, 1, 0x61, 0, 0, 1, 0, 1, 0, 0, 0, 60, 0, 4, 192, 0, 2, 1]"

definition sample_parser :: Parser where
  "sample_parser = zero_Parser\<lparr>pmsg := Some sample_answer, pheader := zero_header\<lparr>answers := 1\<rparr>,
     psection := sectionAnswers, poff := 12\<rparr>"

lemma sample_resource:
  "\<exists>r p'. Parser_resource sectionAnswers sample_parser = (Return r, p') \<and> poff p' = 29"
proof -
  have "case Parser_resource sectionAnswers sample_parser of (Return r, p') \<Rightarrow> poff p' = 29 | _ \<Rightarrow> False"
    by code_simp
  then show ?thesis by (auto split: prod.splits outcome.splits)
qed

lemma sample_header_pending:
  "\<exists>h p'. AnswerHeader sample_parser = (Return h, p')"
proof -
  have "case AnswerHeader sample_parser of (Return h, p') \<Rightarrow> True | _ \<Rightarrow> False" by code_simp
  then show ?thesis by (auto split: prod.splits outcome.splits)
qed

text \<open>C29: no method of \<open>Parser\<close> panics, in any state of the parser and on any message bytes: every slice
  and index expression of the unpacking code is guarded.\<close>

theorem Parser_never_panics: "fst (run_call c p) \<noteq> Panic"
  by (cases c) (simp_all add: section_ops)

text \<open>C30: in every state that calls of the public methods can reach from the zero \<open>Parser\<close>, the index is at
  most the count the header announces for the current section, so the equality test in
  \<open>checkAdvance\<close> cannot be jumped over, and a pending resource header belongs to an unfinished resource
  section and ends inside the message.  (Without a pending header the offset may be beyond the end:
  \<open>unpackResourceBody\<close> adds the announced length without a check.)\<close>

theorem Parser_reachable_inv:
  assumes "parser_reach p"
  shows "pindex p \<le> unat (header_count (pheader p) (psection p)) \<and>
    (resHeaderValid p \<longrightarrow> body_section (psection p) \<and>
       pindex p < unat (header_count (pheader p) (psection p)) \<and> poff p \<le> length (pbytes p))"
  using parser_reach_inv [OF assms] by (simp add: parser_inv_def body_section_def)

theorem Parser_reachable_inv_witness:
  "parser_reach (snd (run_call CallAnswerHeader (snd (run_call CallSkipAllQuestions
     (snd (run_call (CallStart (Some sample_answer)) zero_Parser)))))) \<and>
   (let p = snd (run_call CallAnswerHeader (snd (run_call CallSkipAllQuestions
     (snd (run_call (CallStart (Some sample_answer)) zero_Parser)))))
    in resHeaderValid p \<and> pindex p \<le> unat (header_count (pheader p) (psection p)))"
proof -
  let ?p = "snd (run_call CallAnswerHeader (snd (run_call CallSkipAllQuestions
     (snd (run_call (CallStart (Some sample_answer)) zero_Parser)))))"
  have "parser_reach ?p" by (intro parser_reach.intros)
  moreover have "resHeaderValid ?p" by code_simp
  ultimately show ?thesis using Parser_reachable_inv [of ?p] by simp
qed

text \<open>C32: skipping agrees with parsing.  When \<open>Answer\<close>, \<open>Authority\<close> or \<open>Additional\<close> returns a resource that ends
  inside the message, \<open>SkipAnswer\<close>, ... from the same state succeeds and leaves the parser in the same
  state, except for the saved header, which is not valid in either.\<close>

theorem Parser_skip_agrees:
  assumes "Parser_resource sec p = (Return r, p')" "poff p' \<le> length (pbytes p)"
  shows "Parser_skipResource sec p = (Return (), p'\<lparr>resHeader := resHeader p\<rparr>)"
proof -
  obtain h p1 b where c: "resourceHeader sec p = (Return h, p1)"
    "p' = p1\<lparr>resHeaderValid := False, poff := poff p1 + unat (RLength h), pindex := pindex p + 1\<rparr>"
    by (rule Parser_resource_cases [OF assms(1)])
  show ?thesis using c(1)
  proof (cases rule: resourceHeader_cases)
    case pending
    then show ?thesis using c(2) assms(2) by (cases p) (simp add: Parser_skipResource_def Let_def)
  next
    case (read off)
    have "skipResource (pbytes p) (poff p) = Return (off + unat (RLength h))"
      by (rule skipResource_header [OF read(4)]) (use assms(2) c(2) read(5) in simp)
    moreover have "checkAdvance sec p = (Return (), p\<lparr>resHeaderValid := False\<rparr>)"
      using read(2,3) by (simp add: checkAdvance_def Let_def)
    ultimately show ?thesis using read c(2) by (cases p) (simp add: Parser_skipResource_def)
  qed
qed

theorem Parser_skip_agrees_witness:
  "\<exists>r p'. Parser_resource sectionAnswers sample_parser = (Return r, p') \<and>
     Parser_skipResource sectionAnswers sample_parser = (Return (), p'\<lparr>resHeader := resHeader sample_parser\<rparr>)"
proof -
  obtain r p' where p: "Parser_resource sectionAnswers sample_parser = (Return r, p')" "poff p' = 29"
    using sample_resource by blast
  have "length (pbytes sample_parser) = 29" by code_simp
  then show ?thesis using Parser_skip_agrees [OF p(1)] p by simp
qed

text \<open>A pending header is returned for any section.  After \<open>AnswerHeader\<close> the parser is still in the answer
  section, where \<open>AuthorityHeader\<close> without a pending header reports \<open>ErrNotStarted\<close>; with the pending one
  it returns the header of the answer.\<close>

theorem AuthorityHeader_pending:
  assumes "\<not> resHeaderValid p" "AnswerHeader p = (Return h, p')"
  shows "psection p' = sectionAnswers \<and> AuthorityHeader p' = (Return h, p') \<and> AuthorityHeader p = (Fail ErrNotStarted, p)"
proof -
  obtain off where "psection p = sectionAnswers" "p' = p\<lparr>resHeaderValid := True, resHeader := h, poff := off\<rparr>"
    using assms by (auto simp: AnswerHeader_def elim!: resourceHeader_cases)
  then show ?thesis using assms(1)
    by (simp add: AuthorityHeader_def resourceHeader_def checkAdvance_def less_dns_section_def)
qed

theorem AuthorityHeader_pending_witness:
  "\<exists>h p'. AnswerHeader sample_parser = (Return h, p') \<and> AuthorityHeader p' = (Return h, p') \<and>
     AuthorityHeader sample_parser = (Fail ErrNotStarted, sample_parser)"
proof -
  obtain h p' where "AnswerHeader sample_parser = (Return h, p')" using sample_header_pending by blast
  then show ?thesis using AuthorityHeader_pending [of sample_parser h p']
    by (auto simp: sample_parser_def zero_Parser_def)
qed

end
