(* ===== verification/DNS_Message.thy ===== *)
theory DNS_Message
  imports DNS_Parser
begin

text \<open>
  Whole messages of \<open>src/dns/dnsmessage/message.go\<close>: \<open>Message\<close>, \<open>Message.Unpack\<close>, \<open>Message.Pack\<close> and
  \<open>Message.AppendPack\<close>.  Packing fills in \<open>Type\<close> and \<open>Length\<close> of the resource headers of the message it
  packs, so \<open>AppendPack\<close> returns the updated message beside the bytes, and the round trip says that
  unpacking gives exactly the message as packing left it.
\<close>

record Message =
  MHeader :: Header
  Questions :: "Question list"
  Answers :: "Resource list"
  Authorities :: "Resource list"
  Additionals :: "Resource list"

definition zero_Header :: Header where
  "zero_Header = \<lparr>ID = 0, Response = False, OpCode = 0, Authoritative = False, Truncated = False,
     RecursionDesired = False, RecursionAvailable = False, AuthenticData = False, CheckingDisabled = False,
     RCode = 0\<rparr>"

text \<open>\<open>m.X, err = p.Y()\<close>: the field gets the result, or the zero value that accompanies an error.\<close>

definition assign ::
    "('a \<Rightarrow> Message \<Rightarrow> Message) \<Rightarrow> 'a \<Rightarrow> 'a parse \<Rightarrow> (Parser \<times> Message, dns_error, unit) meth" where
  "assign upd zero m = (\<lambda>(p, msg).
     case m p of
       (Return v, p) \<Rightarrow> (Return (), p, upd v msg)
     | (Fail err, p) \<Rightarrow> (Fail err, p, upd zero msg)
     | (Panic, p) \<Rightarrow> (Panic, p, msg))"

definition Message_Unpack :: "bytes option \<Rightarrow> (Message, dns_error, unit) meth" where
  "Message_Unpack msg m =
     (case bind_meth (assign (\<lambda>h. MHeader_update (\<lambda>_. h)) zero_Header (Start msg)) (\<lambda>_.
           bind_meth (assign (\<lambda>qs. Questions_update (\<lambda>_. qs)) [] AllQuestions) (\<lambda>_.
           bind_meth (assign (\<lambda>rs. Answers_update (\<lambda>_. rs)) [] AllAnswers) (\<lambda>_.
           bind_meth (assign (\<lambda>rs. Authorities_update (\<lambda>_. rs)) [] AllAuthorities) (\<lambda>_.
           assign (\<lambda>rs. Additionals_update (\<lambda>_. rs)) [] AllAdditionals)))) (zero_Parser, m) of
        (r, _, m') \<Rightarrow> (r, m'))"

text \<open>Packing one list of the message.\<close>

definition pack_list ::
    "(Message \<Rightarrow> 'a list) \<Rightarrow> ('a list \<Rightarrow> Message \<Rightarrow> Message) \<Rightarrow>
     (nat \<Rightarrow> bytes \<Rightarrow> ('a \<times> compression, dns_error, bytes) meth) \<Rightarrow> string \<Rightarrow> nat \<Rightarrow> bytes \<Rightarrow>
     (Message \<times> compression, dns_error, bytes) meth" where
  "pack_list get upd pk name compressionOff msg = (\<lambda>(m, cmap).
     case pack_section pk name compressionOff msg (get m, cmap) of (r, xs, cmap) \<Rightarrow> (r, upd xs m, cmap))"

definition message_header :: "Message \<Rightarrow> header" where
  "message_header m =
     (let (i, b) = Header_pack (MHeader m) in
      \<lparr>hid = i, bits = b, questions = of_nat (length (Questions m)), answers = of_nat (length (Answers m)),
       authorities = of_nat (length (Authorities m)), additionals = of_nat (length (Additionals m))\<rparr>)"

definition AppendPack :: "bytes \<Rightarrow> (Message, dns_error, bytes) meth" where
  "AppendPack b m =
     (if length (Questions m) > maxUint16 then (Fail errTooManyQuestions, m)
      else if length (Answers m) > maxUint16 then (Fail errTooManyAnswers, m)
      else if length (Authorities m) > maxUint16 then (Fail errTooManyAuthorities, m)
      else if length (Additionals m) > maxUint16 then (Fail errTooManyAdditionals, m)
      else
        let h = message_header m;
            compressionOff = length b;
            msg = header_pack h b;
            cmap = Some Map.empty
        in case bind_meth (pack_list Questions (\<lambda>xs. Questions_update (\<lambda>_. xs)) Question_pack_elem
                  ''packing Question'' compressionOff msg) (\<lambda>msg.
                bind_meth (pack_list Answers (\<lambda>xs. Answers_update (\<lambda>_. xs)) Resource_pack
                  ''packing Answer'' compressionOff msg) (\<lambda>msg.
                bind_meth (pack_list Authorities (\<lambda>xs. Authorities_update (\<lambda>_. xs)) Resource_pack
                  ''packing Authority'' compressionOff msg) (\<lambda>msg.
                pack_list Additionals (\<lambda>xs. Additionals_update (\<lambda>_. xs)) Resource_pack
                  ''packing Additional'' compressionOff msg))) (m, cmap) of
             (r, m', _) \<Rightarrow> (r, m'))"

definition Pack :: "(Message, dns_error, bytes) meth" where
  "Pack = AppendPack []"

section \<open>Unpacking what was packed\<close>

text \<open>The messages the round trip is about: the header codes fit their four bits, names are as
  \<open>NewName\<close> builds them with at most ten labels, address records have the length of their array type,
  and an \<open>UnknownResource\<close> does not carry the type of another body.\<close>

definition message_ok :: "Message \<Rightarrow> bool" where
  "message_ok m \<longleftrightarrow> header_in_range (MHeader m) \<and> list_all (\<lambda>q. name_ok (QName q)) (Questions m) \<and>
     list_all resource_ok (Answers m) \<and> list_all resource_ok (Authorities m) \<and> list_all resource_ok (Additionals m)"

lemma pack_list_Return_iff:
  "pack_list get upd pk name off msg (m, c) = (Return msg', m', c') \<longleftrightarrow>
     (\<exists>xs. pack_section pk name off msg (get m, c) = (Return msg', xs, c') \<and> m' = upd xs m)"
  by (auto simp: pack_list_def split: prod.splits)

lemma AppendPack_cases:
  assumes "AppendPack b m = (Return msg, m')"
  obtains qs as ns ds msg1 msg2 msg3 c1 c2 c3 c4 where
    "length (Questions m) \<le> maxUint16" "length (Answers m) \<le> maxUint16"
    "length (Authorities m) \<le> maxUint16" "length (Additionals m) \<le> maxUint16"
    "pack_section Question_pack_elem ''packing Question'' (length b) (b @ wireHeader (message_header m))
       (Questions m, Some Map.empty) = (Return msg1, qs, c1)"
    "pack_section Resource_pack ''packing Answer'' (length b) msg1 (Answers m, c1) = (Return msg2, as, c2)"
    "pack_section Resource_pack ''packing Authority'' (length b) msg2 (Authorities m, c2) = (Return msg3, ns, c3)"
    "pack_section Resource_pack ''packing Additional'' (length b) msg3 (Additionals m, c3) = (Return msg, ds, c4)"
    "m' = \<lparr>MHeader = MHeader m, Questions = qs, Answers = as, Authorities = ns, Additionals = ds\<rparr>"
proof -
  have len: "length (Questions m) \<le> maxUint16" "length (Answers m) \<le> maxUint16"
    "length (Authorities m) \<le> maxUint16" "length (Additionals m) \<le> maxUint16"
    using assms by (auto simp: AppendPack_def split: if_splits)
  let ?f = "bind_meth (pack_list Questions (\<lambda>xs. Questions_update (\<lambda>_. xs)) Question_pack_elem
      ''packing Question'' (length b) (b @ wireHeader (message_header m))) (\<lambda>msg.
    bind_meth (pack_list Answers (\<lambda>xs. Answers_update (\<lambda>_. xs)) Resource_pack ''packing Answer'' (length b) msg) (\<lambda>msg.
    bind_meth (pack_list Authorities (\<lambda>xs. Authorities_update (\<lambda>_. xs)) Resource_pack ''packing Authority'' (length b) msg) (\<lambda>msg.
    pack_list Additionals (\<lambda>xs. Additionals_update (\<lambda>_. xs)) Resource_pack ''packing Additional'' (length b) msg)))"
  obtain c4 where "?f (m, Some Map.empty) = (Return msg, m', c4)"
    using assms len by (cases "?f (m, Some Map.empty)") (simp add: AppendPack_def Let_def not_less)
  then show ?thesis
    using that len unfolding bind_meth_Return_iff split_paired_Ex pack_list_Return_iff
    by (elim exE conjE) (cases m, simp)
qed

text \<open>A parser at the start of a section, with nothing pending.\<close>

definition at_section :: "Parser \<Rightarrow> bytes \<Rightarrow> header \<Rightarrow> dns_section \<Rightarrow> nat \<Rightarrow> bool" where
  "at_section p msg h sec off \<longleftrightarrow> pbytes p = msg \<and> pheader p = h \<and> psection p = sec \<and> poff p = off \<and>
     pindex p = 0 \<and> \<not> resHeaderValid p"

lemma AllQuestions_at:
  assumes "at_section p msg h sectionQuestions off" "n = unat (questions h)"
    "read_n read_question n msg off = Return (qs, off')"
  shows "\<exists>p'. AllQuestions p = (Return qs, p') \<and> at_section p' msg h sectionAnswers off'"
  using all_questions_read_n [of p n qs off' "[]"] assms by (auto simp: AllQuestions_def at_section_def)

lemma all_resources_at:
  assumes "at_section p msg h sec off" "n = unat (header_count h sec)"
    "read_n read_resource n msg off = Return (rs, off')"
  shows "\<exists>p'. all_resources sec [] p = (Return rs, p') \<and> at_section p' msg h (next_section sec) off'"
  using all_resources_read_n [of p sec n rs off' "[]"] assms by (auto simp: at_section_def)

lemma Start_at:
  assumes "found_at msg 0 (wireHeader h)"
  shows "\<exists>p. Start (Some msg) zero_Parser = (Return (header_header h), p) \<and> at_section p msg h sectionQuestions 12"
  using header_unpack_wire [OF assms]
  by (simp add: Start_def Let_def at_section_def) (simp add: zero_Parser_def)

lemma Message_Unpack_reads:
  assumes "found_at msg 0 (wireHeader h)"
    "read_n read_question (unat (questions h)) msg 12 = Return (qs, o1)"
    "read_n read_resource (unat (answers h)) msg o1 = Return (as, o2)"
    "read_n read_resource (unat (authorities h)) msg o2 = Return (ns, o3)"
    "read_n read_resource (unat (additionals h)) msg o3 = Return (ds, o4)"
  shows "Message_Unpack (Some msg) m0 =
    (Return (), \<lparr>MHeader = header_header h, Questions = qs, Answers = as, Authorities = ns, Additionals = ds\<rparr>)"
proof -
  obtain p where p: "Start (Some msg) zero_Parser = (Return (header_header h), p)"
    "at_section p msg h sectionQuestions 12" using Start_at [OF assms(1)] by blast
  obtain p1 where p1: "AllQuestions p = (Return qs, p1)" "at_section p1 msg h sectionAnswers o1"
    using AllQuestions_at [OF p(2) refl assms(2)] by blast
  obtain p2 where p2: "AllAnswers p1 = (Return as, p2)" "at_section p2 msg h sectionAuthorities o2"
    using all_resources_at [OF p1(2) _ assms(3)] by (auto simp: AllAnswers_def)
  obtain p3 where p3: "AllAuthorities p2 = (Return ns, p3)" "at_section p3 msg h sectionAdditionals o3"
    using all_resources_at [OF p2(2) _ assms(4)] by (auto simp: AllAuthorities_def)
  obtain p4 where p4: "AllAdditionals p3 = (Return ds, p4)"
    using all_resources_at [OF p3(2) _ assms(5)] by (auto simp: AllAdditionals_def)
  show ?thesis
    using p(1) p1(1) p2(1) p3(1) p4
    by (cases m0) (simp add: Message_Unpack_def assign_def)
qed

lemma unat_count: "n \<le> maxUint16 \<Longrightarrow> unat (of_nat n :: u16) = n"
  by (simp add: maxUint16_def unat_of_nat)

lemma Message_round_trip_lemma:
  assumes "message_ok m" "AppendPack b m = (Return msg, m')"
  shows "take (length b) msg = b \<and> Message_Unpack (Some (drop (length b) msg @ post)) m0 = (Return (), m')"
proof -
  obtain qs as ns ds msg1 msg2 msg3 c1 c2 c3 c4 where
    len: "length (Questions m) \<le> maxUint16" "length (Answers m) \<le> maxUint16"
      "length (Authorities m) \<le> maxUint16" "length (Additionals m) \<le> maxUint16" and
    s: "pack_section Question_pack_elem ''packing Question'' (length b) (b @ wireHeader (message_header m))
        (Questions m, Some Map.empty) = (Return msg1, qs, c1)"
      "pack_section Resource_pack ''packing Answer'' (length b) msg1 (Answers m, c1) = (Return msg2, as, c2)"
      "pack_section Resource_pack ''packing Authority'' (length b) msg2 (Authorities m, c2) = (Return msg3, ns, c3)"
      "pack_section Resource_pack ''packing Additional'' (length b) msg3 (Additionals m, c3) = (Return msg, ds, c4)"
    and m': "m' = \<lparr>MHeader = MHeader m, Questions = qs, Answers = as, Authorities = ns, Additionals = ds\<rparr>"
    by (rule AppendPack_cases [OF assms(2)])
  let ?h = "message_header m" and ?off = "length b"
  let ?msg0 = "b @ wireHeader ?h" and ?m = "drop (length b) msg @ post"
  have ok: "header_in_range (MHeader m)" "list_all (\<lambda>q. name_ok (QName q)) (Questions m)"
    "list_all resource_ok (Answers m)" "list_all resource_ok (Authorities m)" "list_all resource_ok (Additionals m)"
    using assms(1) by (simp_all add: message_ok_def)
  note r1 = questions.section_read [OF ok(2) _ _ s(1), simplified]
  obtain w1 where w1: "msg1 = ?msg0 @ w1" using r1 by auto
  note r2 = resources.section_read [OF ok(3) _ _ s(2)]
  have o1: "?off \<le> length msg1" "comp_ok ?off c1 msg1" using r1 w1 by auto
  obtain w2 where w2: "msg2 = msg1 @ w2" using r2 o1 by auto
  note r3 = resources.section_read [OF ok(4) _ _ s(3)]
  have o2: "?off \<le> length msg2" "comp_ok ?off c2 msg2" using r2 o1 w2 by auto
  obtain w3 where w3: "msg3 = msg2 @ w3" using r3 o2 by auto
  note r4 = resources.section_read [OF ok(5) _ _ s(4)]
  have o3: "?off \<le> length msg3" "comp_ok ?off c3 msg3" using r3 o2 w3 by auto
  obtain w4 where w4: "msg = msg3 @ w4" using r4 o3 by auto
  have "found_at ?m 0 (wireHeader ?h)" by (simp add: found_at_def w4 w3 w2 w1)
  moreover have "read_n read_question (unat (questions ?h)) ?m 12 = Return (qs, length msg1 - ?off)"
    using r1 len(1) by (auto simp: message_header_def w4 w3 w2 w1 unat_count split: prod.splits
        dest!: spec [of _ "w2 @ w3 @ w4 @ post"])
  moreover have "read_n read_resource (unat (answers ?h)) ?m (length msg1 - ?off) = Return (as, length msg2 - ?off)"
    using r2 o1 len(2) by (auto simp: message_header_def w4 w3 w2 unat_count split: prod.splits
        dest!: spec [of _ "w3 @ w4 @ post"])
  moreover have "read_n read_resource (unat (authorities ?h)) ?m (length msg2 - ?off) = Return (ns, length msg3 - ?off)"
    using r3 o2 len(3) by (auto simp: message_header_def w4 w3 unat_count split: prod.splits
        dest!: spec [of _ "w4 @ post"])
  moreover have "read_n read_resource (unat (additionals ?h)) ?m (length msg3 - ?off) = Return (ds, length msg - ?off)"
    using r4 o3 len(4) by (auto simp: message_header_def w4 unat_count split: prod.splits dest!: spec [of _ post])
  moreover have "header_header ?h = MHeader m"
    by (rule header_bits_round_trip [OF ok(1)]) (simp_all add: message_header_def split: prod.splits)
  ultimately show ?thesis using Message_Unpack_reads m' by (simp add: w4 w3 w2 w1)
qed

text \<open>C1: For a message whose \<open>OpCode\<close> and \<open>RCode\<close> fit four bits, whose names are canonical with at most ten labels (so that no chain of
  compression pointers is longer than the reader follows), whose addresses have 4 or 16 bytes and whose \<open>UnknownResource\<close>
  bodies do not carry the type of a known body: whatever \<open>Message.AppendPack\<close> appends for it, with name compression across all four
  sections, \<open>Message.Unpack\<close> reads back as exactly that message (with the resource types and lengths that
  packing filled in), whatever bytes precede or follow it; the bytes of the buffer stay.\<close>

theorem Message_round_trip:
  assumes "message_ok m" "AppendPack b m = (Return msg, m')"
  shows "take (length b) msg = b \<and> Message_Unpack (Some (drop (length b) msg @ post)) m0 = (Return (), m')"
  by (rule Message_round_trip_lemma [OF assms])

lemma resource_ok_code [code]:
  "resource_ok r \<longleftrightarrow> name_ok (RName (Res_Header r)) \<and> (case Body r of None \<Rightarrow> True | Some b \<Rightarrow> body_ok b)"
  by (cases "Body r") (simp_all add: resource_ok_def)

text \<open>Evaluate the two big bounds in binary.\<close>

lemma nat_bounds_code [code_unfold]:
  "n \<le> (0x3FFF :: nat) \<longleftrightarrow> int n \<le> 0x3FFF"
  "n > maxUint16 \<longleftrightarrow> int n > 0xFFFF"
  by (auto simp: maxUint16_def)

definition sample_message :: Message where
  "sample_message =
     \<lparr>MHeader = zero_Header\<lparr>ID := 7, Response := True, RCode := 3\<rparr>,
      Questions = [\<lparr>QName = name_of [[97], [98, 99]], QType = TypeA, QClass = ClassINET\<rparr>],
      Answers = [\<lparr>Res_Header = \<lparr>RName = name_of [[97], [98, 99]], RType = 0, RClass = ClassINET, TTL = 5, RLength = 0\<rparr>,
                  Body = Some (MXResource 10 (name_of [[120], [98, 99]]))\<rparr>],
      Authorities = [],
      Additionals = [\<lparr>Res_Header = \<lparr>RName = name_of [], RType = 0, RClass = 0, TTL = 0, RLength = 0\<rparr>,
                  Body = Some (OPTResource [\<lparr>Code = 10, OData = [1, 2]\<rparr>])\<rparr>]\<rparr>"

definition sample_bytes :: bytes where
  "sample_bytes = (case AppendPack [255] sample_message of (Return msg, _) \<Rightarrow> msg | _ \<Rightarrow> [])"

lemma sample_message_packs: "AppendPack [255] sample_message = (Return sample_bytes, snd (AppendPack [255] sample_message))"
proof -
  have "case AppendPack [255] sample_message of (Return msg, _) \<Rightarrow> True | _ \<Rightarrow> False" by code_simp
  then show ?thesis by (auto simp: sample_bytes_def split: prod.splits outcome.splits)
qed

theorem Message_round_trip_witness:
  "message_ok sample_message \<and> AppendPack [255] sample_message = (Return sample_bytes, snd (AppendPack [255] sample_message)) \<and>
   Message_Unpack (Some (drop 1 sample_bytes @ [0])) sample_message = (Return (), snd (AppendPack [255] sample_message))"
proof -
  have ok: "message_ok sample_message" by code_simp
  show ?thesis using Message_round_trip [OF ok sample_message_packs, of "[0]" sample_message] ok sample_message_packs by simp
qed

end
