(* ===== verification/DNS_Read.thy ===== *)
theory DNS_Read
  imports DNS_Message
begin

text \<open>
  What \<open>Message.Unpack\<close> accepts.  The parser of the code is a state machine: it checks sections, counts
  records and keeps a pending resource header.  \<open>read_message\<close> is the specification: read the header,
  then as many questions and resources as it announces, each after the other.  The loops of the
  parser simulate it (\<open>simulates\<close>), so \<open>Unpack\<close> and the reader accept the same bytes and return the
  same message; \<open>decoded_message\<close> is the type invariant every returned message has.
\<close>

section \<open>The type of a decoded message\<close>

definition decoded_name :: "Name \<Rightarrow> bool" where
  "decoded_name n \<longleftrightarrow> NewName (Name_String n) = Return n \<and> Name_String n \<noteq> [] \<and> last (Name_String n) = dot"

fun decoded_body :: "ResourceHeader \<Rightarrow> ResourceBody \<Rightarrow> bool" where
  "decoded_body h (CNAMEResource n) = decoded_name n"
| "decoded_body h (MXResource p n) = decoded_name n"
| "decoded_body h (NSResource n) = decoded_name n"
| "decoded_body h (PTRResource n) = decoded_name n"
| "decoded_body h (SOAResource n m s rf rt e t) \<longleftrightarrow> decoded_name n \<and> decoded_name m"
| "decoded_body h (TXTResource ts) \<longleftrightarrow> sum_list (map (\<lambda>t. length t + 1) ts) = unat (RLength h)"
| "decoded_body h (SRVResource p w q n) = decoded_name n"
| "decoded_body h (AResource a) \<longleftrightarrow> length a = 4"
| "decoded_body h (AAAAResource a) \<longleftrightarrow> length a = 16"
| "decoded_body h (OPTResource os) = True"
| "decoded_body h (UnknownResource t d) \<longleftrightarrow> t \<notin> set known_types \<and> length d = unat (RLength h)"

definition decoded_resource :: "Resource \<Rightarrow> bool" where
  "decoded_resource r \<longleftrightarrow> decoded_name (RName (Res_Header r)) \<and>
     (case Body r of None \<Rightarrow> False | Some b \<Rightarrow> realType b = RType (Res_Header r) \<and> decoded_body (Res_Header r) b)"

definition decoded_message :: "Message \<Rightarrow> bool" where
  "decoded_message m \<longleftrightarrow> header_in_range (MHeader m) \<and> list_all (\<lambda>q. decoded_name (QName q)) (Questions m) \<and>
     list_all decoded_resource (Answers m) \<and> list_all decoded_resource (Authorities m) \<and>
     list_all decoded_resource (Additionals m)"

lemma name_of_decoded:
  assumes "length (label_text ls) \<le> nameLen"
  shows "decoded_name (name_of ls)"
proof -
  have "Name_String (name_of ls) = label_text ls"
    using assms by (simp add: Name_String_def name_of_def nameLen_def unat_of_nat)
  moreover have "label_text ls \<noteq> [] \<and> last (label_text ls) = dot"
    by (cases ls rule: rev_cases) (auto simp: label_text_def flat_def)
  ultimately show ?thesis
    using assms by (auto simp: decoded_name_def name_of_def NewName_def zero_Name_def)
qed

lemma unpackCompressed_decoded:
  "unpackCompressed zero_Name msg p allow = Return (n, q) \<Longrightarrow> decoded_name n"
  using name_of_decoded by (auto simp: unpackCompressed_iff)

lemma unpackBytes_length: "unpackBytes msg off n = Return (bs, q) \<Longrightarrow> length bs = n"
  by (auto simp: unpackBytes_def Let_def split: if_splits)

lemma txt_loop_decoded:
  "txt_loop msg off len n txts = Return b \<Longrightarrow> sum_list (map (\<lambda>t. length t + 1) txts) = unat n \<Longrightarrow> n \<le> len \<Longrightarrow>
   \<exists>ts. b = TXTResource ts \<and> sum_list (map (\<lambda>t. length t + 1) ts) = unat len"
proof (induction msg off len n txts rule: txt_loop.induct)
  case (1 msg off len n txts)
  show ?case
  proof (cases "n < len")
    case False
    then show ?thesis using 1(2-4) by (auto simp: txt_loop.simps [of msg off len])
  next
    case True
    then obtain t off' where t: "unpackText msg off = Return (t, off')" "\<not> len - n < of_nat (length t) + 1"
      "txt_loop msg off' len (n + (of_nat (length t) + 1)) (txts @ [t]) = Return b"
      using 1(2) by (auto simp: txt_loop.simps [of msg off len n] split: if_splits)
    note s = txt_step [OF True t(1,2)]
    show ?thesis
      by (rule 1(1) [OF _ _ refl t(2,3)]) (use True t(1) s 1(3) in \<open>auto simp: word_le_nat_alt simp del: of_nat_Suc\<close>)
  qed
qed

lemma opt_loop_decoded: "opt_loop msg off endOff opts = Return b \<Longrightarrow> \<exists>os. b = OPTResource os"
proof (induction msg off endOff opts rule: opt_loop.induct)
  case (1 msg off endOff opts)
  from 1(2) show ?case
    unfolding opt_loop.simps [of msg off endOff opts] using 1(1) by (auto split: if_splits) 
qed

lemma unpackResourceBody_decoded:
  assumes "unpackResourceBody msg off hdr = Return (b, q)"
  shows "realType b = RType hdr \<and> decoded_body hdr b"
proof -
  note n = unpackCompressed_decoded
  show ?thesis
    using assms unfolding unpackResourceBody_def
    by (auto simp: unpackAResource_def unpackNSResource_def unpackCNAMEResource_def unpackSOAResource_def unpackPTRResource_def
      unpackMXResource_def unpackTXTResource_def unpackAAAAResource_def unpackSRVResource_def unpackOPTResource_def
      unpackUnknownResource_def known_types_def Name_unpack_def Let_def
      dest: unpackBytes_length n txt_loop_decoded opt_loop_decoded split: if_splits)
qed

lemma ResourceHeader_unpack_decoded: "ResourceHeader_unpack msg off = Return (h, q) \<Longrightarrow> decoded_name (RName h)"
  by (auto simp: ResourceHeader_unpack_def Name_unpack_def dest: unpackCompressed_decoded)

lemma read_question_decoded: "read_question msg off = Return (x, q) \<Longrightarrow> decoded_name (QName x)"
  by (auto simp: read_question_def Name_unpack_def dest: unpackCompressed_decoded)


section \<open>The loops return exactly what a sequential reader returns\<close>

lemma read_errors:
  "ResourceHeader_unpack msg off \<noteq> Fail ErrSectionDone" "read_question msg off \<noteq> Fail ErrSectionDone"
  by (auto simp: ResourceHeader_unpack_def read_question_def)

lemma Parser_Question_unread:
  assumes "psection p = sectionQuestions" "pindex p < unat (questions (pheader p))"
    and "read_question (pbytes p) (poff p) = Fail e"
  shows "fst (Parser_Question p) = Fail e"
  using assms by (simp add: Parser_Question_def checkAdvance_more)

lemma Parser_resource_unread:
  assumes "psection p = sec" "\<not> resHeaderValid p" "pindex p < unat (header_count (pheader p) sec)"
    and "read_resource (pbytes p) (poff p) = Fail e"
  shows "\<exists>e. fst (Parser_resource sec p) = Fail e \<and> e \<noteq> ErrSectionDone"
proof (cases "ResourceHeader_unpack (pbytes p) (poff p)")
  case (Return r)
  obtain h off where r: "r = (h, off)" by (cases r)
  have "unpackResourceBody (pbytes p) off h = Fail e"
    using assms(4) Return r by (auto simp: read_resource_def)
  then show ?thesis
    using assms(1-3) Return r by (simp add: Parser_resource_def resourceHeader_def checkAdvance_more Let_def)
next
  case (Fail e)
  then show ?thesis using assms(1-3) read_errors(1) [of "pbytes p" "poff p"]
    by (auto simp: Parser_resource_def resourceHeader_def checkAdvance_more)
qed simp


lemma all_questions_unread:
  assumes "psection p = sectionQuestions" "\<not> resHeaderValid p" "pindex p + n = unat (questions (pheader p))"
    and "read_n read_question n (pbytes p) (poff p) = Fail e"
  shows "\<exists>e. fst (all_questions acc p) = Fail e"
  using assms
proof (induction n arbitrary: p acc)
  case (Suc n)
  show ?case
  proof (cases "read_question (pbytes p) (poff p)")
    case (Fail e')
    then have "fst (Parser_Question p) = Fail e'" "e' \<noteq> ErrSectionDone"
      using Parser_Question_unread [of p] Suc.prems(1,3) read_errors(2) by fastforce+
    then show ?thesis by (subst all_questions.simps) (auto split: prod.splits)
  next
    case (Return r)
    obtain q off1 where r: "r = (q, off1)" by (cases r)
    let ?p = "p\<lparr>poff := off1, pindex := pindex p + 1\<rparr>"
    have v: "p\<lparr>resHeaderValid := False\<rparr> = p" using Suc.prems(2) by simp
    have "Parser_Question p = (Return q, ?p)"
      using Suc.prems(1,3) Return r by (simp add: Parser_Question_def checkAdvance_more v)
    then have "all_questions acc p = all_questions (acc @ [q]) ?p"
      by (subst all_questions.simps) simp
    moreover have "\<exists>e. fst (all_questions (acc @ [q]) ?p) = Fail e"
      by (rule Suc.IH) (use Suc.prems Return r in auto)
    ultimately show ?thesis by simp
  qed simp
qed simp

lemma all_resources_unread:
  assumes "psection p = sec" "\<not> resHeaderValid p" "pindex p + n = unat (header_count (pheader p) sec)"
    and "read_n read_resource n (pbytes p) (poff p) = Fail e"
  shows "\<exists>e. fst (all_resources sec acc p) = Fail e"
  using assms
proof (induction n arbitrary: p acc)
  case (Suc n)
  show ?case
  proof (cases "read_resource (pbytes p) (poff p)")
    case (Fail e')
    then obtain e where "fst (Parser_resource sec p) = Fail e" "e \<noteq> ErrSectionDone"
      using Parser_resource_unread [of p sec] Suc.prems(1-3) by fastforce
    then show ?thesis by (subst all_resources.simps) (auto split: prod.splits)
  next
    case (Return r)
    obtain x off1 where r: "r = (x, off1)" by (cases r)
    obtain h where h: "Parser_resource sec p = (Return x, p\<lparr>poff := off1, pindex := pindex p + 1, resHeader := h\<rparr>)"
      using Parser_resource_read [OF Suc.prems(1,2)] Return r Suc.prems(3) by auto
    let ?p = "p\<lparr>poff := off1, pindex := pindex p + 1, resHeader := h\<rparr>"
    have "all_resources sec acc p = all_resources sec (acc @ [x]) ?p"
      using h by (subst all_resources.simps) simp
    moreover have "\<exists>e. fst (all_resources sec (acc @ [x]) ?p) = Fail e"
      by (rule Suc.IH) (use Suc.prems Return r in auto)
    ultimately show ?thesis by simp
  next
    case Panic
    then show ?thesis by (simp add: read_resource_def)
  qed
qed simp

lemma read_n_no_panic: "(\<And>off. rd msg off \<noteq> Panic) \<Longrightarrow> read_n rd n msg off \<noteq> Panic"
  by (induction n arbitrary: off) auto

lemma read_resource_no_panic [simp]: "read_resource msg off \<noteq> Panic"
  by (auto simp: read_resource_def)

text \<open>The reader: the header, then as many questions and resources as it announces, one after the
  other.\<close>

definition read_message :: "bytes \<Rightarrow> Message dns" where
  "read_message msg =
     (case header_unpack msg 0 zero_header of
        (Return off, h) \<Rightarrow>
          bind_outcome (read_n read_question (unat (questions h)) msg off) (\<lambda>(qs, off).
          bind_outcome (read_n read_resource (unat (answers h)) msg off) (\<lambda>(as, off).
          bind_outcome (read_n read_resource (unat (authorities h)) msg off) (\<lambda>(ns, off).
          bind_outcome (read_n read_resource (unat (additionals h)) msg off) (\<lambda>(ds, _).
          Return \<lparr>MHeader = header_header h, Questions = qs, Answers = as, Authorities = ns, Additionals = ds\<rparr>))))
      | (Fail err, _) \<Rightarrow> Fail err
      | (Panic, _) \<Rightarrow> Panic)"


text \<open>A loop of the parser simulates a reader: from the start of its section it returns what the reader
  returns and stops at the start of the next section, and it fails when the reader fails.\<close>

definition simulates ::
    "(header \<Rightarrow> bytes \<Rightarrow> nat \<Rightarrow> ('a \<times> nat) dns) \<Rightarrow> dns_section \<Rightarrow> 'a parse \<Rightarrow> bool" where
  "simulates rd sec m \<longleftrightarrow> (\<forall>p msg h off. at_section p msg h sec off \<longrightarrow>
     (case rd h msg off of
        Return (v, off') \<Rightarrow> \<exists>p'. m p = (Return v, p') \<and> at_section p' msg h (next_section sec) off'
      | Fail _ \<Rightarrow> \<exists>e. fst (m p) = Fail e
      | Panic \<Rightarrow> False))"

lemma AllQuestions_simulates: 
  "simulates (\<lambda>h. read_n read_question (unat (questions h))) sectionQuestions AllQuestions"
  unfolding simulates_def
  using AllQuestions_at [OF _ refl] all_questions_unread read_n_no_panic [where rd = read_question]
  by (fastforce simp: AllQuestions_def at_section_def split: outcome.splits)

lemma all_resources_simulates:
  "simulates (\<lambda>h. read_n read_resource (unat (header_count h sec))) sec (all_resources sec [])"
  unfolding simulates_def
  using all_resources_at [OF _ refl] all_resources_unread read_n_no_panic [where rd = read_resource]
  by (fastforce simp: at_section_def split: outcome.splits)

text \<open>What a call of \<open>Unpack\<close> owes to the reader.\<close>

fun delivers :: "Message dns \<Rightarrow> (dns_error, unit) outcome \<times> Parser \<times> Message \<Rightarrow> bool" where
  "delivers (Return m) (r, _, m') \<longleftrightarrow> r = Return () \<and> m' = m"
| "delivers (Fail _) (r, _) \<longleftrightarrow> (\<exists>e. r = Fail e)"
| "delivers Panic _ \<longleftrightarrow> False"

lemma delivers_step:
  assumes "simulates rd sec m" "at_section p msg h sec off"
    and "\<And>v off' p'. at_section p' msg h (next_section sec) off' \<Longrightarrow> delivers (k (v, off')) (f () (p', upd v s))"
  shows "delivers (bind_outcome (rd h msg off) k) (bind_meth (assign upd zero m) f (p, s))"
proof (cases "rd h msg off")
  case (Return r)
  then obtain v off' p' where "r = (v, off')" "m p = (Return v, p')" "at_section p' msg h (next_section sec) off'"
    using assms(1,2) unfolding simulates_def by (cases r) fastforce
  then show ?thesis using assms(3) Return by (simp add: assign_def)
next
  case (Fail e)
  then have "\<exists>e. fst (m p) = Fail e" using assms(1,2) unfolding simulates_def by fastforce
  then show ?thesis using Fail by (cases "m p") (auto simp: assign_def bind_meth.simps)
next
  case Panic
  then show ?thesis using assms(1,2) unfolding simulates_def by fastforce
qed


lemma delivers_last:
  assumes "simulates rd sec m" "at_section p msg h sec off" "\<And>v off'. k (v, off') = Return (upd v s)"
  shows "delivers (bind_outcome (rd h msg off) k) (assign upd zero m (p, s))"
  using delivers_step [OF assms(1,2), of k "\<lambda>_ s. (Return (), s)" upd s zero] assms(3)
  by (cases "m p" ; cases "fst (m p)") (auto simp: assign_def bind_meth.simps)

lemma Start_reads:
  "header_unpack msg 0 zero_header = (Return off, h) \<Longrightarrow>
   \<exists>p. Start (Some msg) zero_Parser = (Return (header_header h), p) \<and> at_section p msg h sectionQuestions off"
  by (simp add: Start_def Let_def at_section_def zero_Parser_def pbytes_def)

lemmas section_simulates = AllQuestions_simulates
  all_resources_simulates [of sectionAnswers, folded AllAnswers_def, simplified]
  all_resources_simulates [of sectionAuthorities, folded AllAuthorities_def, simplified]
  all_resources_simulates [of sectionAdditionals, folded AllAdditionals_def, simplified]

lemma Message_Unpack_delivers:
  "delivers (read_message msg)
     (bind_meth (assign (\<lambda>h. MHeader_update (\<lambda>_. h)) zero_Header (Start (Some msg))) (\<lambda>_.
      bind_meth (assign (\<lambda>qs. Questions_update (\<lambda>_. qs)) [] AllQuestions) (\<lambda>_.
      bind_meth (assign (\<lambda>rs. Answers_update (\<lambda>_. rs)) [] AllAnswers) (\<lambda>_.
      bind_meth (assign (\<lambda>rs. Authorities_update (\<lambda>_. rs)) [] AllAuthorities) (\<lambda>_.
      assign (\<lambda>rs. Additionals_update (\<lambda>_. rs)) [] AllAdditionals)))) (zero_Parser, m))"
proof (cases "header_unpack msg 0 zero_header")
  case (Pair r h)
  show ?thesis
  proof (cases r)
    case (Return off)
    obtain p where p: "Start (Some msg) zero_Parser = (Return (header_header h), p)"
      "at_section p msg h sectionQuestions off"
      using Start_reads Pair Return by blast
    have a: "assign (\<lambda>h. MHeader_update (\<lambda>_. h)) zero_Header (Start (Some msg)) (zero_Parser, m) =
        (Return (), p, m\<lparr>MHeader := header_header h\<rparr>)" by (simp add: assign_def p(1))
    show ?thesis
      unfolding read_message_def Pair Return prod.case outcome.case
      apply (subst bind_meth_simps(1), rule a)
      apply (rule delivers_step [OF section_simulates(1) p(2)], unfold prod.case next_section.simps)
      apply (rule delivers_step [OF section_simulates(2)], assumption, unfold prod.case next_section.simps)
      apply (rule delivers_step [OF section_simulates(3)], assumption, unfold prod.case next_section.simps)
      apply (rule delivers_last [OF section_simulates(4)], assumption)
      by (cases m) simp
  next
    case (Fail e)
    then have "\<exists>e s. Start (Some msg) zero_Parser = (Fail e, s)" using Pair
      by (simp add: Start_def Let_def zero_Parser_def pbytes_def)
    then show ?thesis using Pair Fail by (auto simp: read_message_def assign_def bind_meth.simps)
  next
    case Panic
    then show ?thesis using header_unpack_no_panic [of msg 0 zero_header] Pair by simp
  qed
qed

lemma Message_Unpack_iff:
  "Message_Unpack (Some msg) m = (Return (), m') \<longleftrightarrow> read_message msg = Return m'"
  using Message_Unpack_delivers [of msg m] unfolding Message_Unpack_def
  by (cases "read_message msg") (auto split: prod.splits)

lemma read_n_Return: "read_n rd n msg off = Return (xs, q) \<Longrightarrow> length xs = n \<and> (\<forall>x \<in> set xs. \<exists>i j. rd msg i = Return (x, j))"
  by (induction n arbitrary: off xs) (auto, blast+)

lemma read_resource_decoded: "read_resource msg i = Return (r, j) \<Longrightarrow> decoded_resource r"
  by (auto simp: read_resource_def decoded_resource_def ResourceHeader_unpack_decoded unpackResourceBody_decoded)

lemma read_message_decoded: "read_message msg = Return m \<Longrightarrow> decoded_message m"
  unfolding read_message_def decoded_message_def
  by (auto simp: list_all_iff header_header_in_range split: prod.splits outcome.splits
      dest!: read_n_Return intro: read_resource_decoded read_question_decoded)

section \<open>Properties\<close>

text \<open>C3: \<open>Message.Unpack\<close>, with its parser that checks sections, counts and pending headers, succeeds exactly when
  the sequential reader does, and leaves exactly the message the reader returns.\<close>

theorem Message_Unpack_reader:
  "Message_Unpack (Some msg) m = (Return (), m') \<longleftrightarrow> read_message msg = Return m'"
  by (rule Message_Unpack_iff)

text \<open>C4: Whatever bytes come from the network, when \<open>Message.Unpack\<close> succeeds the message it leaves is well typed:
  the header codes fit four bits, every name is one that \<open>NewName\<close> builds from its own text and ends in
  a dot, every resource has a body of the type its header announces, addresses have 4 or 16 bytes, the
  texts of a TXT record fill exactly its length, and an \<open>UnknownResource\<close> has the announced length and
  never the type of a known body.\<close>

theorem Message_Unpack_decoded:
  assumes "Message_Unpack (Some msg) m = (Return (), m')"
  shows "decoded_message m'"
  using assms read_message_decoded by (simp add: Message_Unpack_iff)

definition sample_wire :: bytes where
  "sample_wire = [0, 7, 128, 0, 0, 0, 0, 1, 0, 0, 0, 0,  1, 97, 0, 0, 1, 0, 1, 0, 0, 0, 5, 0, 4, 127, 0, 0, 1]"

definition sample_zero :: Message where
  "sample_zero = \<lparr>MHeader = zero_Header, Questions = [], Answers = [], Authorities = [], Additionals = []\<rparr>"

theorem Message_Unpack_decoded_witness:
  "fst (Message_Unpack (Some sample_wire) sample_zero) = Return () \<and>
   decoded_message (snd (Message_Unpack (Some sample_wire) sample_zero))"
proof -
  have ok: "fst (Message_Unpack (Some sample_wire) sample_zero) = Return ()" by code_simp
  then show ?thesis
    using Message_Unpack_decoded [of sample_wire sample_zero "snd (Message_Unpack (Some sample_wire) sample_zero)"]
    by (simp add: prod_eq_iff)
qed

lemma assign_no_panic: "fst (m p) \<noteq> Panic \<Longrightarrow> fst (assign upd zero m (p, s)) \<noteq> Panic"
  by (cases "m p"; cases "fst (m p)") (auto simp: assign_def)

lemma fst_drop_parser: "fst (case x of (r, _, m) \<Rightarrow> (r, m)) = fst x"
  by (simp split: prod.splits)

text \<open>C24: \<open>Message.Unpack\<close> never panics, on a nil or any other slice.\<close>

theorem Message_Unpack_never_panics: "fst (Message_Unpack msg m) \<noteq> Panic"
  unfolding Message_Unpack_def fst_drop_parser
  by (auto simp: bind_meth_Panic_iff AllQuestions_def AllAnswers_def AllAuthorities_def AllAdditionals_def
      dest!: assign_no_panic [THEN notE, rotated])

end
