(* ===== verification/DNS_Builder.thy ===== *)
theory DNS_Builder
  imports DNS_Message
begin

text \<open>
  The incremental \<open>Builder\<close> of \<open>src/dns/dnsmessage/message.go\<close>.  The compression map is shared and mutated
  in place, so what a failed call has put into it stays; the message only grows when a call
  succeeds.

  \<open>Builder_matches_Pack\<close> relates the two ways to produce a message: adding the parts of a message
  one by one to a builder with compression yields the bytes \<open>AppendPack\<close> yields.
\<close>

unbundle bit_operations_syntax

section \<open>The builder\<close>

record Builder =
  bmsg :: bytes
  bsection :: dns_section
  bheader :: header
  bstart :: nat
  bcompression :: compression

type_synonym 'a build = "(Builder, dns_error, 'a) meth"

text \<open>A nil buffer and an empty one give the same builder.\<close>

definition NewBuilder :: "bytes \<Rightarrow> Header \<Rightarrow> Builder" where
  "NewBuilder buf h =
     (let (i, bt) = Header_pack h in
      \<lparr>bmsg = buf @ replicate headerLen 0, bsection = sectionHeader,
       bheader = zero_header\<lparr>hid := i, bits := bt\<rparr>, bstart = length buf, bcompression = None\<rparr>)"

definition EnableCompression :: "Builder \<Rightarrow> Builder" where
  "EnableCompression b = b\<lparr>bcompression := Some Map.empty\<rparr>"

definition startCheck :: "dns_section \<Rightarrow> Builder \<Rightarrow> unit dns" where
  "startCheck s b =
     (if bsection b \<le> sectionNotStarted then Fail ErrNotStarted
      else if bsection b > s then Fail ErrSectionDone
      else Return ())"

definition StartQuestions :: "unit build" where
  "StartQuestions b = (case startCheck sectionQuestions b of
     Return _ \<Rightarrow> (Return (), b\<lparr>bsection := sectionQuestions\<rparr>) | Fail err \<Rightarrow> (Fail err, b) | Panic \<Rightarrow> (Panic, b))"

definition StartAnswers :: "unit build" where
  "StartAnswers b = (case startCheck sectionAnswers b of
     Return _ \<Rightarrow> (Return (), b\<lparr>bsection := sectionAnswers\<rparr>) | Fail err \<Rightarrow> (Fail err, b) | Panic \<Rightarrow> (Panic, b))"

definition StartAuthorities :: "unit build" where
  "StartAuthorities b = (case startCheck sectionAuthorities b of
     Return _ \<Rightarrow> (Return (), b\<lparr>bsection := sectionAuthorities\<rparr>) | Fail err \<Rightarrow> (Fail err, b) | Panic \<Rightarrow> (Panic, b))"

definition StartAdditionals :: "unit build" where
  "StartAdditionals b = (case startCheck sectionAdditionals b of
     Return _ \<Rightarrow> (Return (), b\<lparr>bsection := sectionAdditionals\<rparr>) | Fail err \<Rightarrow> (Fail err, b) | Panic \<Rightarrow> (Panic, b))"

text \<open>Outside the four sections \<open>count\<close> is a nil pointer and reading it panics.\<close>

definition incrementSectionCount :: "unit build" where
  "incrementSectionCount b =
     (let h = bheader b; m = NOT 0 in
      case bsection b of
        sectionQuestions \<Rightarrow> if questions h = m then (Fail errTooManyQuestions, b)
          else (Return (), b\<lparr>bheader := h\<lparr>questions := questions h + 1\<rparr>\<rparr>)
      | sectionAnswers \<Rightarrow> if answers h = m then (Fail errTooManyAnswers, b)
          else (Return (), b\<lparr>bheader := h\<lparr>answers := answers h + 1\<rparr>\<rparr>)
      | sectionAuthorities \<Rightarrow> if authorities h = m then (Fail errTooManyAuthorities, b)
          else (Return (), b\<lparr>bheader := h\<lparr>authorities := authorities h + 1\<rparr>\<rparr>)
      | sectionAdditionals \<Rightarrow> if additionals h = m then (Fail errTooManyAdditionals, b)
          else (Return (), b\<lparr>bheader := h\<lparr>additionals := additionals h + 1\<rparr>\<rparr>)
      | _ \<Rightarrow> (Panic, b))"

text \<open>A packing step on the shared compression map; the message it returns is local to the caller.\<close>

definition with_map :: "(compression, dns_error, 'a) meth \<Rightarrow> 'a build" where
  "with_map m b = (case m (bcompression b) of (r, c) \<Rightarrow> (r, b\<lparr>bcompression := c\<rparr>))"

definition Builder_Question :: "Question \<Rightarrow> unit build" where
  "Builder_Question q b =
     (if bsection b < sectionQuestions then (Fail ErrNotStarted, b)
      else if bsection b > sectionQuestions then (Fail ErrSectionDone, b)
      else bind_meth (with_map (Question_pack q (bstart b) (bmsg b))) (\<lambda>msg.
           bind_meth incrementSectionCount (\<lambda>_ b.
           (Return (), b\<lparr>bmsg := msg\<rparr>))) b)"

definition checkResourceSection :: "Builder \<Rightarrow> unit dns" where
  "checkResourceSection b =
     (if bsection b < sectionAnswers then Fail ErrNotStarted
      else if bsection b > sectionAdditionals then Fail ErrSectionDone
      else Return ())"

text \<open>The common text of \<open>CNAMEResource\<close>, \<open>MXResource\<close>, ... of \<open>*Builder\<close>: \<open>typ\<close> is the real type of the body,
  \<open>pack\<close> its packer and \<open>name\<close> the context of its errors.\<close>

definition add_resource :: "string \<Rightarrow> Type \<Rightarrow> (nat \<Rightarrow> packer) \<Rightarrow> ResourceHeader \<Rightarrow> unit build" where
  "add_resource name typ pack h b =
     (let h = h\<lparr>RType := typ\<rparr> in
      bind_meth (lift_meth (checkResourceSection b)) (\<lambda>_.
      bind_meth (wrap_meth (nestedError ''ResourceHeader'') (with_map (ResourceHeader_pack h (bstart b) (bmsg b)))) (\<lambda>(msg, lenOff).
      bind_meth (wrap_meth (nestedError (name @ '' body'')) (with_map (pack (bstart b) msg))) (\<lambda>msg2.
      bind_meth (lift_meth (fixLen h msg2 lenOff (length msg))) (\<lambda>(msg3, _).
      bind_meth incrementSectionCount (\<lambda>_ b.
      (Return (), b\<lparr>bmsg := msg3\<rparr>)))))) b)"

definition Builder_CNAMEResource :: "ResourceHeader \<Rightarrow> Name \<Rightarrow> unit build" where
  "Builder_CNAMEResource h n = add_resource ''CNAMEResource'' TypeCNAME (CNAMEResource_pack n) h"

definition Builder_MXResource :: "ResourceHeader \<Rightarrow> u16 \<Rightarrow> Name \<Rightarrow> unit build" where
  "Builder_MXResource h p n = add_resource ''MXResource'' TypeMX (MXResource_pack p n) h"

definition Builder_NSResource :: "ResourceHeader \<Rightarrow> Name \<Rightarrow> unit build" where
  "Builder_NSResource h n = add_resource ''NSResource'' TypeNS (NSResource_pack n) h"

definition Builder_PTRResource :: "ResourceHeader \<Rightarrow> Name \<Rightarrow> unit build" where
  "Builder_PTRResource h n = add_resource ''PTRResource'' TypePTR (PTRResource_pack n) h"

definition Builder_SOAResource ::
    "ResourceHeader \<Rightarrow> Name \<Rightarrow> Name \<Rightarrow> u32 \<Rightarrow> u32 \<Rightarrow> u32 \<Rightarrow> u32 \<Rightarrow> u32 \<Rightarrow> unit build" where
  "Builder_SOAResource h ns mbox serial refresh retry expire minTTL =
     add_resource ''SOAResource'' TypeSOA (SOAResource_pack ns mbox serial refresh retry expire minTTL) h"

definition Builder_TXTResource :: "ResourceHeader \<Rightarrow> bytes list \<Rightarrow> unit build" where
  "Builder_TXTResource h txts = add_resource ''TXTResource'' TypeTXT (\<lambda>_. TXTResource_pack txts) h"

definition Builder_SRVResource :: "ResourceHeader \<Rightarrow> u16 \<Rightarrow> u16 \<Rightarrow> u16 \<Rightarrow> Name \<Rightarrow> unit build" where
  "Builder_SRVResource h priority weight port target =
     add_resource ''SRVResource'' TypeSRV (SRVResource_pack priority weight port target) h"

definition Builder_AResource :: "ResourceHeader \<Rightarrow> bytes \<Rightarrow> unit build" where
  "Builder_AResource h a = add_resource ''AResource'' TypeA (\<lambda>_. AResource_pack a) h"

definition Builder_AAAAResource :: "ResourceHeader \<Rightarrow> bytes \<Rightarrow> unit build" where
  "Builder_AAAAResource h a = add_resource ''AAAAResource'' TypeAAAA (\<lambda>_. AAAAResource_pack a) h"

definition Builder_OPTResource :: "ResourceHeader \<Rightarrow> DNSOption list \<Rightarrow> unit build" where
  "Builder_OPTResource h opts = add_resource ''OPTResource'' TypeOPT (\<lambda>_. OPTResource_pack opts) h"

definition Builder_UnknownResource :: "ResourceHeader \<Rightarrow> Type \<Rightarrow> bytes \<Rightarrow> unit build" where
  "Builder_UnknownResource h t data = add_resource ''UnknownResource'' t (\<lambda>_. UnknownResource_pack data) h"

definition Finish :: "bytes build" where
  "Finish b =
     (if bsection b < sectionHeader then (Fail ErrNotStarted, b)
      else
        let b = b\<lparr>bsection := sectionDone\<rparr>;
            b = b\<lparr>bmsg := overwrite (bmsg b) (bstart b) (header_pack (bheader b) [])\<rparr>
        in (Return (bmsg b), b))"

section \<open>Building a message\<close>

text \<open>The method for a body, as a client that has a \<open>Resource\<close> would choose it.\<close>

fun add_body :: "ResourceHeader \<Rightarrow> ResourceBody \<Rightarrow> unit build" where
  "add_body h (CNAMEResource n) = Builder_CNAMEResource h n"
| "add_body h (MXResource p n) = Builder_MXResource h p n"
| "add_body h (NSResource n) = Builder_NSResource h n"
| "add_body h (PTRResource n) = Builder_PTRResource h n"
| "add_body h (SOAResource n m s rf rt e t) = Builder_SOAResource h n m s rf rt e t"
| "add_body h (TXTResource ts) = Builder_TXTResource h ts"
| "add_body h (SRVResource p w q n) = Builder_SRVResource h p w q n"
| "add_body h (AResource a) = Builder_AResource h a"
| "add_body h (AAAAResource a) = Builder_AAAAResource h a"
| "add_body h (OPTResource os) = Builder_OPTResource h os"
| "add_body h (UnknownResource t d) = Builder_UnknownResource h t d"

fun add_questions :: "Question list \<Rightarrow> unit build" where
  "add_questions [] = lift_meth (Return ())"
| "add_questions (q # qs) = bind_meth (Builder_Question q) (\<lambda>_. add_questions qs)"

fun add_resources :: "Resource list \<Rightarrow> unit build" where
  "add_resources [] = lift_meth (Return ())"
| "add_resources (r # rs) =
     (case Body r of
        None \<Rightarrow> lift_meth (Fail errNilResouceBody)
      | Some b \<Rightarrow> bind_meth (add_body (Res_Header r) b) (\<lambda>_. add_resources rs))"

definition build_message :: "bytes \<Rightarrow> Message \<Rightarrow> bytes dns" where
  "build_message buf m =
     fst (bind_meth StartQuestions (\<lambda>_.
          bind_meth (add_questions (Questions m)) (\<lambda>_.
          bind_meth StartAnswers (\<lambda>_.
          bind_meth (add_resources (Answers m)) (\<lambda>_.
          bind_meth StartAuthorities (\<lambda>_.
          bind_meth (add_resources (Authorities m)) (\<lambda>_.
          bind_meth StartAdditionals (\<lambda>_.
          bind_meth (add_resources (Additionals m)) (\<lambda>_.
          Finish)))))))) (EnableCompression (NewBuilder buf (MHeader m))))"

section \<open>Building agrees with packing\<close>

definition bump :: "dns_section \<Rightarrow> header \<Rightarrow> header" where
  "bump sec h = (case sec of
      sectionQuestions \<Rightarrow> h\<lparr>questions := questions h + 1\<rparr>
    | sectionAnswers \<Rightarrow> h\<lparr>answers := answers h + 1\<rparr>
    | sectionAuthorities \<Rightarrow> h\<lparr>authorities := authorities h + 1\<rparr>
    | sectionAdditionals \<Rightarrow> h\<lparr>additionals := additionals h + 1\<rparr>
    | _ \<Rightarrow> h)"

lemma bump_funpow:
  "(bump sectionQuestions ^^ n) h = h\<lparr>questions := questions h + of_nat n\<rparr>"
  "(bump sectionAnswers ^^ n) h = h\<lparr>answers := answers h + of_nat n\<rparr>"
  "(bump sectionAuthorities ^^ n) h = h\<lparr>authorities := authorities h + of_nat n\<rparr>"
  "(bump sectionAdditionals ^^ n) h = h\<lparr>additionals := additionals h + of_nat n\<rparr>"
  by (induction n) (simp_all add: bump_def algebra_simps)

lemma incrementSectionCount_below:
  assumes "sectionQuestions \<le> bsection b" "bsection b \<le> sectionAdditionals"
    "unat (header_count (bheader b) (bsection b)) < maxUint16"
  shows "incrementSectionCount b = (Return (), b\<lparr>bheader := bump (bsection b) (bheader b)\<rparr>)"
    and "unat (header_count (bump (bsection b) (bheader b)) (bsection b)) = Suc (unat (header_count (bheader b) (bsection b)))"
proof -
  have ne: "v \<noteq> - 1" "unat (v + 1) = Suc (unat v)" if "unat v < maxUint16" for v :: u16
    using that by (auto simp: maxUint16_def unat_word_ariths unsigned_minus_1_eq_mask mask_eq_exp_minus_1)
  show "incrementSectionCount b = (Return (), b\<lparr>bheader := bump (bsection b) (bheader b)\<rparr>)"
    using assms ne by (cases "bsection b") (auto simp: incrementSectionCount_def bump_def Let_def less_eq_dns_section_def)
  show "unat (header_count (bump (bsection b) (bheader b)) (bsection b)) = Suc (unat (header_count (bheader b) (bsection b)))"
    using assms ne by (cases "bsection b") (auto simp: bump_def less_eq_dns_section_def)
qed

text \<open>What a packer appends depends on the message only through its length.\<close>

lemma Question_pack_append_only: "append_only (Question_pack q off)"
  unfolding Question_pack_def by (intro append_only_bind append_only_wrap) (auto simp: packType_def)

lemma Resource_pack_append_only:
  assumes "Resource_pack off msg (r, c) = (Return msg', r', c')"
  shows "\<exists>w. msg' = msg @ w \<and> (\<forall>msg2. length msg2 = length msg \<longrightarrow> Resource_pack off msg2 (r, c) = (Return (msg2 @ w), r', c'))"
proof -
  obtain b h msg1 c1 msg2 lenOff where s: "Body r = Some b" "h = (Res_Header r)\<lparr>RType := realType b\<rparr>"
    "ResourceHeader_pack h off msg c = (Return (msg1, lenOff), c1)"
    "ResourceBody_pack b off msg1 c1 = (Return msg2, c')" "length msg2 - length msg1 \<le> maxUint16"
    "msg' = overwrite msg2 lenOff (wire16 (of_nat (length msg2 - length msg1)))"
    "r' = \<lparr>Res_Header = h\<lparr>RLength := of_nat (length msg2 - length msg1)\<rparr>, Body = Some b\<rparr>"
    by (rule Resource_pack_cases [OF assms])
  obtain msgN where N: "Name_pack (RName h) off msg c = (Return msgN, c1)" "lenOff = length msgN + 8"
    "msg1 = msgN @ wire16 (RType h) @ wire16 (RClass h) @ wire32 (TTL h) @ wire16 (RLength h)"
    using s(3) by (auto simp: ResourceHeader_pack_wire)
  let ?f = "wire16 (RType h) @ wire16 (RClass h) @ wire32 (TTL h)"
  obtain wn where wn: "msgN = msg @ wn" "\<And>m. length m = length msg \<Longrightarrow> Name_pack (RName h) off m c = (Return (m @ wn), c1)"
    using append_onlyD [OF append_only_Name_pack N(1)] by blast
  obtain wb where wb: "msg2 = msg1 @ wb" "\<And>m. length m = length msg1 \<Longrightarrow> ResourceBody_pack b off m c1 = (Return (m @ wb), c')"
    using append_onlyD [OF append_only_body s(4)] by blast
  let ?w = "wn @ ?f @ wire16 (of_nat (length wb)) @ wb"
  have o: "overwrite (m @ wn @ ?f @ wire16 (RLength h) @ wb) (length m + length wn + 8) (wire16 l) = m @ wn @ ?f @ wire16 l @ wb" for m l
    using overwrite_middle [of "wire16 l" "wire16 (RLength h)" "m @ wn @ ?f" wb] by (simp add: add.assoc)
  have "Resource_pack off m (r, c) = (Return (m @ ?w), r', c')" if m: "length m = length msg" for m
  proof -
    have "ResourceHeader_pack h off m c = (Return (m @ wn @ ?f @ wire16 (RLength h), length m + length wn + 8), c1)"
      using wn(2) [OF m] by (simp add: ResourceHeader_pack_wire)
    moreover have "ResourceBody_pack b off (m @ wn @ ?f @ wire16 (RLength h)) c1 = (Return (m @ wn @ ?f @ wire16 (RLength h) @ wb), c')"
      using wb(2) [of "m @ wn @ ?f @ wire16 (RLength h)"] m N(3) wn(1) by simp
    ultimately show ?thesis using s o [of m] wb(1)
      by (cases r) (simp add: Resource_pack_def Let_def fixLen_def)
  qed
  then show ?thesis using assms by (intro exI [of _ ?w]) auto
qed

fun body_name :: "ResourceBody \<Rightarrow> string" where
  "body_name (CNAMEResource _) = ''CNAMEResource''"
| "body_name (MXResource _ _) = ''MXResource''"
| "body_name (NSResource _) = ''NSResource''"
| "body_name (PTRResource _) = ''PTRResource''"
| "body_name (SOAResource _ _ _ _ _ _ _) = ''SOAResource''"
| "body_name (TXTResource _) = ''TXTResource''"
| "body_name (SRVResource _ _ _ _) = ''SRVResource''"
| "body_name (AResource _) = ''AResource''"
| "body_name (AAAAResource _) = ''AAAAResource''"
| "body_name (OPTResource _) = ''OPTResource''"
| "body_name (UnknownResource _ _) = ''UnknownResource''"

lemma add_body_resource: "add_body h b = add_resource (body_name b) (realType b) (ResourceBody_pack b) h"
  by (cases b) (simp_all add: Builder_CNAMEResource_def Builder_MXResource_def Builder_NSResource_def
    Builder_PTRResource_def Builder_SOAResource_def Builder_TXTResource_def Builder_SRVResource_def
    Builder_AResource_def Builder_AAAAResource_def Builder_OPTResource_def Builder_UnknownResource_def
    add_resource_def fun_eq_iff)

lemma add_body_pack:
  assumes "Resource_pack (bstart B) (bmsg B) (r, bcompression B) = (Return msg', r', c')" "Body r = Some b"
    "sectionAnswers \<le> bsection B" "bsection B \<le> sectionAdditionals"
    "unat (header_count (bheader B) (bsection B)) < maxUint16"
  shows "add_body (Res_Header r) b B =
    (Return (), B\<lparr>bmsg := msg', bcompression := c', bheader := bump (bsection B) (bheader B)\<rparr>)"
proof -
  obtain h msg1 c1 msg2 lenOff where s: "h = (Res_Header r)\<lparr>RType := realType b\<rparr>"
    "ResourceHeader_pack h (bstart B) (bmsg B) (bcompression B) = (Return (msg1, lenOff), c1)"
    "ResourceBody_pack b (bstart B) msg1 c1 = (Return msg2, c')" "length msg2 - length msg1 \<le> maxUint16"
    "msg' = overwrite msg2 lenOff (wire16 (of_nat (length msg2 - length msg1)))"
    using assms(2) by (auto intro: Resource_pack_cases [OF assms(1)])
  have q: "sectionQuestions \<le> bsection B" using assms(3) by (auto simp: less_eq_dns_section_def)
  have ok: "checkResourceSection B = Return ()" using assms(3,4) by (simp add: checkResourceSection_def not_less)
  note i = incrementSectionCount_below(1) [of "B\<lparr>bcompression := c'\<rparr>", simplified, OF q assms(4,5)]
  show ?thesis
    using s ok i
    by (simp add: add_body_resource add_resource_def Let_def bind_meth.simps with_map_def wrap_meth_def
        lift_meth_def fixLen_def)
qed

lemma Builder_Question_pack:
  assumes "Question_pack q (bstart B) (bmsg B) (bcompression B) = (Return msg', c')"
    "bsection B = sectionQuestions" "unat (questions (bheader B)) < maxUint16"
  shows "Builder_Question q B =
    (Return (), B\<lparr>bmsg := msg', bcompression := c', bheader := bump sectionQuestions (bheader B)\<rparr>)"
  using assms incrementSectionCount_below(1) [of "B\<lparr>bcompression := c'\<rparr>"]
  by (simp add: Builder_Question_def with_map_def less_eq_dns_section_def)

lemma add_resources_pack:
  assumes "pack_section Resource_pack name (bstart B) msg (rs, bcompression B) = (Return msg', rs', c')"
    "length (bmsg B) = length msg" "sectionAnswers \<le> bsection B" "bsection B \<le> sectionAdditionals"
    "unat (header_count (bheader B) (bsection B)) + length rs \<le> maxUint16"
  shows "\<exists>w. msg' = msg @ w \<and> add_resources rs B =
    (Return (), B\<lparr>bmsg := bmsg B @ w, bcompression := c', bheader := (bump (bsection B) ^^ length rs) (bheader B)\<rparr>)"
  using assms
proof (induction rs arbitrary: msg B rs')
  case Nil
  then show ?case by (simp add: lift_meth_def)
next
  case (Cons r rs)
  obtain msg1 r1 c1 rs1 where p: "Resource_pack (bstart B) msg (r, bcompression B) = (Return msg1, r1, c1)"
    "pack_section Resource_pack name (bstart B) msg1 (rs, c1) = (Return msg', rs1, c')"
    using Cons.prems(1) by (auto split: prod.splits outcome.splits)
  obtain w where w: "msg1 = msg @ w" "Resource_pack (bstart B) (bmsg B) (r, bcompression B) = (Return (bmsg B @ w), r1, c1)"
    using Resource_pack_append_only [OF p(1)] Cons.prems(2) by blast
  obtain b where b: "Body r = Some b" by (auto intro: Resource_pack_cases [OF p(1)])
  let ?B = "B\<lparr>bmsg := bmsg B @ w, bcompression := c1, bheader := bump (bsection B) (bheader B)\<rparr>"
  have lt: "unat (header_count (bheader B) (bsection B)) < maxUint16" using Cons.prems(5) by simp
  have q: "sectionQuestions \<le> bsection B" using Cons.prems(3) by (auto simp: less_eq_dns_section_def)
  have add: "add_body (Res_Header r) b B = (Return (), ?B)"
    by (rule add_body_pack [OF w(2) b Cons.prems(3,4) lt])
  have "\<exists>w'. msg' = msg1 @ w' \<and> add_resources rs ?B =
      (Return (), ?B\<lparr>bmsg := bmsg ?B @ w', bcompression := c', bheader := (bump (bsection ?B) ^^ length rs) (bheader ?B)\<rparr>)"
    by (rule Cons.IH) (use p(2) w(1) Cons.prems incrementSectionCount_below(2) [OF q Cons.prems(4) lt] in simp_all)
  then show ?case using w(1) b add by (auto simp: funpow_swap1)
qed

lemma add_questions_pack:
  assumes "pack_section Question_pack_elem name (bstart B) msg (qs, bcompression B) = (Return msg', qs', c')"
    "length (bmsg B) = length msg" "bsection B = sectionQuestions"
    "unat (questions (bheader B)) + length qs \<le> maxUint16"
  shows "\<exists>w. msg' = msg @ w \<and> add_questions qs B =
    (Return (), B\<lparr>bmsg := bmsg B @ w, bcompression := c', bheader := (bump sectionQuestions ^^ length qs) (bheader B)\<rparr>)"
  using assms
proof (induction qs arbitrary: msg B qs')
  case Nil
  then show ?case by (simp add: lift_meth_def)
next
  case (Cons q qs)
  obtain msg1 c1 qs1 where p: "Question_pack q (bstart B) msg (bcompression B) = (Return msg1, c1)"
    "pack_section Question_pack_elem name (bstart B) msg1 (qs, c1) = (Return msg', qs1, c')"
    using Cons.prems(1) by (auto simp: Question_pack_elem_Return_iff split: prod.splits outcome.splits)
  obtain w where w: "msg1 = msg @ w" "Question_pack q (bstart B) (bmsg B) (bcompression B) = (Return (bmsg B @ w), c1)"
    using append_onlyD [OF Question_pack_append_only p(1)] Cons.prems(2) by blast
  let ?B = "B\<lparr>bmsg := bmsg B @ w, bcompression := c1, bheader := bump sectionQuestions (bheader B)\<rparr>"
  have lt: "unat (questions (bheader B)) < maxUint16" using Cons.prems(4) by simp
  have add: "Builder_Question q B = (Return (), ?B)"
    by (rule Builder_Question_pack [OF w(2) Cons.prems(3) lt])
  have "\<exists>w'. msg' = msg1 @ w' \<and> add_questions qs ?B =
      (Return (), ?B\<lparr>bmsg := bmsg ?B @ w', bcompression := c', bheader := (bump sectionQuestions ^^ length qs) (bheader ?B)\<rparr>)"
    by (rule Cons.IH) (use p(2) w(1) Cons.prems incrementSectionCount_below(2) [of B] lt in \<open>simp_all add: less_eq_dns_section_def\<close>)
  then show ?case using w(1) add by (auto simp: funpow_swap1)
qed


lemma starts:
  "bsection B = sectionHeader \<Longrightarrow> StartQuestions B = (Return (), B\<lparr>bsection := sectionQuestions\<rparr>)"
  "bsection B = sectionQuestions \<Longrightarrow> StartAnswers B = (Return (), B\<lparr>bsection := sectionAnswers\<rparr>)"
  "bsection B = sectionAnswers \<Longrightarrow> StartAuthorities B = (Return (), B\<lparr>bsection := sectionAuthorities\<rparr>)"
  "bsection B = sectionAuthorities \<Longrightarrow> StartAdditionals B = (Return (), B\<lparr>bsection := sectionAdditionals\<rparr>)"
  by (simp_all add: StartQuestions_def StartAnswers_def StartAuthorities_def StartAdditionals_def startCheck_def
      less_eq_dns_section_def less_dns_section_def)

lemma build_message_pack:
  assumes "AppendPack buf m = (Return msg, m')"
  shows "build_message buf m = Return msg"
proof -
  obtain qs as ns ds msg1 msg2 msg3 c1 c2 c3 c4 where
    len: "length (Questions m) \<le> maxUint16" "length (Answers m) \<le> maxUint16"
      "length (Authorities m) \<le> maxUint16" "length (Additionals m) \<le> maxUint16" and
    s: "pack_section Question_pack_elem ''packing Question'' (length buf) (buf @ wireHeader (message_header m))
        (Questions m, Some Map.empty) = (Return msg1, qs, c1)"
      "pack_section Resource_pack ''packing Answer'' (length buf) msg1 (Answers m, c1) = (Return msg2, as, c2)"
      "pack_section Resource_pack ''packing Authority'' (length buf) msg2 (Authorities m, c2) = (Return msg3, ns, c3)"
      "pack_section Resource_pack ''packing Additional'' (length buf) msg3 (Additionals m, c3) = (Return msg, ds, c4)"
    by (rule AppendPack_cases [OF assms])
  let ?h0 = "zero_header\<lparr>hid := fst (Header_pack (MHeader m)), bits := snd (Header_pack (MHeader m))\<rparr>"
  let ?h1 = "?h0\<lparr>questions := of_nat (length (Questions m))\<rparr>"
  let ?h2 = "?h1\<lparr>answers := of_nat (length (Answers m))\<rparr>"
  let ?h3 = "?h2\<lparr>authorities := of_nat (length (Authorities m))\<rparr>"
  let ?z = "buf @ replicate headerLen 0"
  let ?B = "\<lambda>w sec h c. \<lparr>bmsg = ?z @ w, bsection = sec, bheader = h, bstart = length buf, bcompression = c\<rparr>"
  have B0: "EnableCompression (NewBuilder buf (MHeader m)) = ?B [] sectionHeader ?h0 (Some Map.empty)"
    by (simp add: EnableCompression_def NewBuilder_def split: prod.splits)
  obtain w1 where w1: "msg1 = buf @ wireHeader (message_header m) @ w1"
    "add_questions (Questions m) (?B [] sectionQuestions ?h0 (Some Map.empty)) = (Return (), ?B w1 sectionQuestions ?h1 c1)"
    using add_questions_pack [of _ "?B [] sectionQuestions ?h0 (Some Map.empty)", simplified, OF s(1)] len(1)
    by (auto simp: bump_funpow headerLen_def uint16Len_def zero_header_def)
  obtain w2 where w2: "msg2 = msg1 @ w2"
    "add_resources (Answers m) (?B w1 sectionAnswers ?h1 c1) = (Return (), ?B (w1 @ w2) sectionAnswers ?h2 c2)"
    using add_resources_pack [of _ "?B w1 sectionAnswers ?h1 c1", simplified, OF s(2)] len(2) w1(1)
    by (auto simp: bump_funpow headerLen_def uint16Len_def zero_header_def less_eq_dns_section_def)
  obtain w3 where w3: "msg3 = msg2 @ w3"
    "add_resources (Authorities m) (?B (w1 @ w2) sectionAuthorities ?h2 c2) = (Return (), ?B (w1 @ w2 @ w3) sectionAuthorities ?h3 c3)"
    using add_resources_pack [of _ "?B (w1 @ w2) sectionAuthorities ?h2 c2", simplified, OF s(3)] len(3) w1(1) w2(1)
    by (auto simp: bump_funpow headerLen_def uint16Len_def zero_header_def less_eq_dns_section_def)
  obtain w4 where w4: "msg = msg3 @ w4"
    "add_resources (Additionals m) (?B (w1 @ w2 @ w3) sectionAdditionals ?h3 c3) =
      (Return (), ?B (w1 @ w2 @ w3 @ w4) sectionAdditionals (message_header m) c4)"
    using add_resources_pack [of _ "?B (w1 @ w2 @ w3) sectionAdditionals ?h3 c3", simplified, OF s(4)] len(4) w1(1) w2(1) w3(1)
    by (auto simp: bump_funpow headerLen_def uint16Len_def zero_header_def less_eq_dns_section_def message_header_def split: prod.splits)
  have "overwrite (?z @ w1 @ w2 @ w3 @ w4) (length buf) (wireHeader (message_header m)) = msg"
    using overwrite_middle [of "wireHeader (message_header m)" "replicate headerLen 0" buf "w1 @ w2 @ w3 @ w4"]
    by (simp add: w1 w2 w3 w4 headerLen_def uint16Len_def)
  then show ?thesis
    unfolding build_message_def B0
    using w1(2) w2(2) w3(2) w4(2) by (simp add: starts Finish_def less_dns_section_def)
qed

text \<open>C2: Building a message part by part with a compressing \<open>Builder\<close> gives exactly the bytes \<open>AppendPack\<close> gives,
  whenever \<open>AppendPack\<close> succeeds.\<close>

theorem Builder_matches_Pack:
  assumes "AppendPack buf m = (Return msg, m')"
  shows "build_message buf m = Return msg"
  by (rule build_message_pack [OF assms])

theorem Builder_matches_Pack_witness:
  "AppendPack [255] sample_message = (Return sample_bytes, snd (AppendPack [255] sample_message)) \<and>
   build_message [255] sample_message = Return sample_bytes"
  using Builder_matches_Pack sample_message_packs by blast

section \<open>Names left behind by a failed call\<close>

lemma pack_labels_notes:
  "list_all label_ok ls \<Longrightarrow> \<exists>w m'. pack_labels off rest ls msg (Some m) = (Return (msg @ w), Some m') \<and> m \<subseteq>\<^sub>m m' \<and>
     (ls \<noteq> [] \<longrightarrow> length msg \<le> 0x3FFF \<longrightarrow> m (flat ls @ rest) = None \<longrightarrow> m' (flat ls @ rest) = Some (length msg - off))"
proof (induction ls arbitrary: msg m)
  case (Cons l ls)
  let ?key = "flat (l # ls) @ rest"
  have l: "l \<noteq> []" "length l < 2 ^ 6" using Cons.prems by (simp_all add: label_ok_def)
  show ?case
  proof (cases "m ?key")
    case None
    let ?m = "if length msg \<le> 0x3FFF then m(?key \<mapsto> length msg - off) else m"
    obtain w m' where r: "pack_labels off rest ls (msg @ of_nat (length l) # l) (Some ?m) = (Return ((msg @ of_nat (length l) # l) @ w), Some m')" "?m \<subseteq>\<^sub>m m'"
      using Cons.IH [of "msg @ of_nat (length l) # l" ?m] Cons.prems by auto
    have "m \<subseteq>\<^sub>m ?m" using None by (auto simp: map_le_def)
    then have "m \<subseteq>\<^sub>m m'" using r(2) map_le_trans by blast
    moreover have "m' ?key = Some (length msg - off)" if "length msg \<le> 0x3FFF"
      using r(2) that by (auto simp: map_le_def dest: bspec [of _ _ ?key])
    moreover have "pack_labels off rest (l # ls) msg (Some m) = (Return (msg @ (of_nat (length l) # l) @ w), Some m')"
      using r(1) None l by (cases "length msg \<le> 0x3FFF") (simp_all add: Let_def)
    ultimately show ?thesis by blast
  qed (use l in \<open>simp add: Let_def\<close>)
qed simp

text \<open>The key of a whole name is the array of the \<open>Name\<close>, up to its last byte.\<close>

lemma Name_pack_compressed:
  assumes "labels_ok ls" "ls \<noteq> []"
  shows "length msg \<le> 0x3FFF \<Longrightarrow> m (Data (name_of ls)) = None \<Longrightarrow>
      \<exists>w m'. Name_pack (name_of ls) off msg (Some m) = (Return (msg @ w), Some m') \<and> m' (Data (name_of ls)) = Some (length msg - off)"
    and "m (Data (name_of ls)) = Some p \<Longrightarrow> Name_pack (name_of ls) off msg (Some m) = (Return (msg @ ptr_bytes p), Some m)"
proof -
  have ok: "list_all label_ok ls" "length (flat ls) \<le> nameLen" using assms by (simp_all add: labels_ok_def label_text_def)
  have name: "array_ok (name_of ls)" "Name_String (name_of ls) = flat ls" "unat (Length (name_of ls)) = length (flat ls)"
    "flat ls @ drop (length (flat ls)) (Data (name_of ls)) = Data (name_of ls)"
    using assms(2) ok(2) by (simp_all add: name_of_def label_text_def array_ok_def Name_String_def nameLen_def unat_of_nat)
  have "flat ls \<noteq> [dot]" using assms(2) ok(1) by (cases ls; cases "hd ls") (simp_all add: label_ok_def)
  then have pack: "Name_pack (name_of ls) off msg (Some m) = pack_labels off (drop (length (flat ls)) (Data (name_of ls))) ls msg (Some m)" for m
    using Name_pack_labels [OF name(1), of off msg "Some m"] assms(2) name split_dots_flat [OF label_ok_no_dot [OF ok(1)]] by (simp add: Let_def)
  show "\<exists>w m'. Name_pack (name_of ls) off msg (Some m) = (Return (msg @ w), Some m') \<and> m' (Data (name_of ls)) = Some (length msg - off)"
    if "length msg \<le> 0x3FFF" "m (Data (name_of ls)) = None"
    using pack_labels_notes [OF ok(1), of off "drop (length (flat ls)) (Data (name_of ls))" msg m] that assms(2) unfolding name(4) pack by blast
  show "Name_pack (name_of ls) off msg (Some m) = (Return (msg @ ptr_bytes p), Some m)" if "m (Data (name_of ls)) = Some p"
    unfolding pack using that name(4) ok(1) assms(2) by (cases ls) (auto simp: label_ok_def Let_def)
qed

lemma TXTResource_pack_fails: "\<exists>t \<in> set ts. 255 < length t \<Longrightarrow> TXTResource_pack ts msg c = (Fail errStringTooLong, c)"
  by (induction ts arbitrary: msg) (auto simp: packText_def lift_meth_def bind_meth.simps Let_def)

text \<open>A name that points at itself cannot be read.\<close>

lemma unpack_loop_self:
  assumes "found_at msg p (ptr_bytes p)" "p < 2 ^ 14"
  shows "ptr \<le> 10 \<Longrightarrow> unpack_loop msg True p newOff ptr nm = Fail errTooManyPtr"
proof (induction "10 - ptr" arbitrary: ptr newOff)
  have b: "msg ! p = of_nat (drop_bit 8 p OR 0xC0)" "msg ! (p + 1) = of_nat p" "p + 1 < length msg"
    using assms(1) by (simp_all add: found_at_Cons ptr_bytes_def)
  note pb = ptr_byte [OF assms(2)]
  have step: "unpack_loop msg True p newOff ptr nm =
      (if ptr + 1 > 10 then Fail errTooManyPtr else unpack_loop msg True p (if ptr = 0 then p + 2 else newOff) (ptr + 1) nm)" for ptr newOff
    unfolding unpack_loop.simps [of msg True p newOff ptr nm] b(1,2) using b pb by simp
  {
    case 0
    then show ?case using step [of newOff ptr] by simp
  next
    case (Suc n)
    then show ?case using step [of newOff ptr] by simp
  }
qed

text \<open>C35: After a failed \<open>Builder\<close> call the compression map keeps the names the failed call would have written.  For every builder in a
  section of resources with compression enabled and every name that is not in the map yet: if \<open>TXTResource\<close> fails on a text
  of more than 255 bytes, the message is as before, but the next \<open>AResource\<close> of the same name succeeds and writes a pointer
  to itself for the name, which can not be unpacked, whatever follows.\<close>

theorem Builder_stale_compression:
  assumes "labels_ok ls" "ls \<noteq> []" "RName h = name_of ls" "RName h' = name_of ls"
    "bcompression b = Some m" "m (Data (name_of ls)) = None" "bsection b \<in> {sectionAnswers, sectionAuthorities, sectionAdditionals}"
    "bstart b \<le> length (bmsg b)" "length (bmsg b) \<le> 0x3FFF" "unat (header_count (bheader b) (bsection b)) < maxUint16"
    "\<exists>t \<in> set txts. 255 < length t" "length a = 4" "p = length (bmsg b) - bstart b"
  shows "\<exists>b1 b2 tail. Builder_TXTResource h txts b = (Fail (nestedError ''TXTResource body'' errStringTooLong), b1) \<and> bmsg b1 = bmsg b \<and>
    Builder_AResource h' a b1 = (Return (), b2) \<and> bmsg b2 = bmsg b @ ptr_bytes p @ tail \<and>
    Name_unpack zero_Name (drop (bstart b) (bmsg b2) @ post) p = Fail errTooManyPtr"
proof -
  obtain w m' where n: "Name_pack (name_of ls) (bstart b) (bmsg b) (Some m) = (Return (bmsg b @ w), Some m')" "m' (Data (name_of ls)) = Some p"
    using Name_pack_compressed(1) [where m = m, OF assms(1,2,9,6), of "bstart b"] assms(13) by auto
  let ?b1 = "b\<lparr>bcompression := Some m'\<rparr>"
  have sec: "checkResourceSection ?b1 = Return ()" "checkResourceSection b = Return ()" "sectionQuestions \<le> bsection b" "bsection b \<le> sectionAdditionals"
    using assms(7) by (auto simp: checkResourceSection_def less_dns_section_def less_eq_dns_section_def)
  have 1: "Builder_TXTResource h txts b = (Fail (nestedError ''TXTResource body'' errStringTooLong), ?b1)"
    using n(1) sec(2) assms(3,5) TXTResource_pack_fails [OF assms(11)]
    by (simp add: Builder_TXTResource_def add_resource_def ResourceHeader_pack_def with_map_def wrap_meth_def lift_meth_def bind_meth.simps Let_def)
  let ?hdr = "wire16 TypeA @ wire16 (RClass h') @ wire32 (TTL h')"
  let ?msg = "bmsg b @ ptr_bytes p @ ?hdr @ wire16 4 @ a"
  have fix_len: "fixLen h'' (bmsg b @ ptr_bytes p @ ?hdr @ wire16 (RLength h') @ a) (length (bmsg b @ ptr_bytes p @ ?hdr)) (length (bmsg b @ ptr_bytes p @ ?hdr @ wire16 (RLength h'))) =
      Return (?msg, h''\<lparr>RLength := 4\<rparr>)" for h''
    using overwrite_middle [of "wire16 4" "wire16 (RLength h')" "bmsg b @ ptr_bytes p @ ?hdr" a] assms(12) by (simp add: fixLen_def Let_def maxUint16_def)
  have "Name_pack (name_of ls) (bstart b) (bmsg b) (Some m') = (Return (bmsg b @ ptr_bytes p), Some m')"
    by (rule Name_pack_compressed(2) [where m = m', OF assms(1,2) n(2)])
  then have "ResourceHeader_pack (h'\<lparr>RType := TypeA\<rparr>) (bstart b) (bmsg b) (Some m') =
      (Return (bmsg b @ ptr_bytes p @ ?hdr @ wire16 (RLength h'), length (bmsg b @ ptr_bytes p @ ?hdr)), Some m')"
    using assms(4) by (simp add: ResourceHeader_pack_wire)
  then have 2: "Builder_AResource h' a ?b1 = (Return (), ?b1\<lparr>bheader := bump (bsection b) (bheader b), bmsg := ?msg\<rparr>)"
    using sec assms(10) fix_len incrementSectionCount_below(1) [of ?b1]
    by (simp add: Builder_AResource_def add_resource_def AResource_pack_def emit_def packBytes_def with_map_def wrap_meth_def lift_meth_def bind_meth.simps Let_def)
  have "found_at (drop (bstart b) ?msg @ post) p (ptr_bytes p)"
    using drop_found_at [OF assms(8), of "ptr_bytes p" "?hdr @ wire16 4 @ a @ post"] assms(8,13) by simp
  moreover have "p < 2 ^ 14" using assms(9,13) by simp
  ultimately have "Name_unpack zero_Name (drop (bstart b) ?msg @ post) p = Fail errTooManyPtr"
    using unpack_loop_self [of _ p 0 p "[]"] by (simp add: Name_unpack_def unpackCompressed_def)
  then show ?thesis using 1 2 by fastforce
qed

definition stale_header :: ResourceHeader where
  "stale_header = \<lparr>RName = name_of [[97]], RType = 0, RClass = ClassINET, TTL = 0, RLength = 0\<rparr>"

definition stale_start :: Builder where
  "stale_start = snd (StartAnswers (EnableCompression (NewBuilder [] zero_Header)))"

theorem Builder_stale_compression_witness:
  "\<exists>b1 b2 tail. Builder_TXTResource stale_header [replicate 256 0] stale_start = (Fail (nestedError ''TXTResource body'' errStringTooLong), b1) \<and>
     bmsg b1 = bmsg stale_start \<and> Builder_AResource stale_header [127, 0, 0, 1] b1 = (Return (), b2) \<and> bmsg b2 = bmsg stale_start @ ptr_bytes 12 @ tail \<and>
     Name_unpack zero_Name (drop (bstart stale_start) (bmsg b2) @ [7]) 12 = Fail errTooManyPtr"
proof -
  have b: "bsection stale_start = sectionAnswers" "bstart stale_start = 0" "length (bmsg stale_start) = 12" "bcompression stale_start = Some Map.empty"
    "header_count (bheader stale_start) sectionAnswers = 0"
    by (simp_all add: stale_start_def StartAnswers_def startCheck_def EnableCompression_def NewBuilder_def headerLen_def uint16Len_def zero_header_def
        less_dns_section_def less_eq_dns_section_def split: prod.splits)
  have "labels_ok [[97]]" by (simp add: labels_ok_def label_ok_def label_text_def nameLen_def dot_def)
  moreover have "\<exists>t \<in> set [replicate 256 (0 :: byte)]. 255 < length t" by (simp only: list.set length_replicate bex_simps) simp
  ultimately show ?thesis using b
    by (intro Builder_stale_compression [where m = Map.empty and ls = "[[97]]"]) (simp_all only:, simp_all add: stale_header_def maxUint16_def)
qed

end
