(* ===== verification/DNS_Print.thy ===== *)
theory DNS_Print
  imports DNS_Message
begin

text \<open>
  The printed forms of \<open>src/dns/dnsmessage/message.go\<close>: the name tables of types, classes and response
  codes, the print helpers, and the \<open>String\<close> and \<open>GoString\<close> methods.  The helpers work on byte
  buffers with arithmetic on \<open>byte\<close> and \<open>uint32\<close>; \<open>text_of\<close> is the conversion \<open>string(buf)\<close>.

  The number printers are shown to print decimal numerals, the escapes of \<open>printString\<close> to be undone by
  a reader of \<open>\xhh\<close> escapes, and the printed header to lose two of its flags.
\<close>

unbundle bit_operations_syntax

section \<open>Helpers\<close>

definition printPaddedUint8 :: "u8 \<Rightarrow> string" where
  "printPaddedUint8 b = text_of [b div 100 + 48, b div 10 mod 10 + 48, b mod 10 + 48]"

definition printUint8Bytes :: "bytes \<Rightarrow> u8 \<Rightarrow> bytes" where
  "printUint8Bytes buf b =
     (let buf = (if b \<ge> 100 then buf @ [b div 100 + 48] else buf);
          buf = (if b \<ge> 10 then buf @ [b div 10 mod 10 + 48] else buf)
      in buf @ [b mod 10 + 48])"

definition printByteSlice :: "bytes \<Rightarrow> string" where
  "printByteSlice b =
     (case b of
        [] \<Rightarrow> []
      | x # xs \<Rightarrow> text_of (foldl (\<lambda>buf n. printUint8Bytes (buf @ [44, 32]) n) (printUint8Bytes [] x) xs))"

definition hexDigits :: bytes where
  "hexDigits = map of_nat ([48..<58] @ [97..<103])"

definition plain :: "u8 \<Rightarrow> bool" where
  "plain c \<longleftrightarrow> c = 46 \<or> c = 45 \<or> c = 32 \<or> 65 \<le> c \<and> c \<le> 90 \<or> 97 \<le> c \<and> c \<le> 122 \<or> 48 \<le> c \<and> c \<le> 57"

definition print_byte :: "u8 \<Rightarrow> bytes" where
  "print_byte c =
     (if plain c then [c]
      else let upper = drop_bit 4 c; lower = drop_bit 4 (push_bit 4 c)
           in [92, 120, hexDigits ! unat upper, hexDigits ! unat lower])"

definition printString :: "bytes \<Rightarrow> string" where
  "printString str = text_of (foldl (\<lambda>buf c. buf @ print_byte c) [] str)"

text \<open>The loop of \<open>printUint32\<close> on its array of ten bytes: \<open>buf\<close> is the slice from \<open>s\<close>, \<open>b\<close> the slice
  from \<open>p\<close>.  \<open>d\<close> takes the ten values \<open>10 ^ 9\<close> to \<open>1\<close>, so \<open>b\<close> is never empty when it is written.\<close>

function print_loop :: "bytes \<Rightarrow> nat \<Rightarrow> nat \<Rightarrow> u32 \<Rightarrow> u32 \<Rightarrow> bytes" where
  "print_loop arr s p d i =
     (if \<not> d > 0 then drop s arr
      else
        let arr = arr[p := ucast (i div d mod 10 + 48)];
            s = (if arr ! p = 48 \<and> length arr - p = length arr - s \<and> length arr - s > 1 then s + 1 else s)
        in print_loop arr s (p + 1) (d div 10) (i mod d))"
  by pat_completeness auto
termination
proof (relation "measure (\<lambda>(_, _, _, d, _). unat d)")
  fix arr a :: bytes and s t p and d i :: u32
  assume "\<not> \<not> 0 < d"
  then have "unat d div 10 < unat d" by (simp add: word_greater_zero_iff unat_gt_0 [symmetric])
  then show "((a, t, p + 1, d div 10, i mod d), arr, s, p, d, i) \<in> measure (\<lambda>(_, _, _, d, _). unat d)"
    by (simp add: unat_div)
qed simp

declare print_loop.simps [simp del]

definition printUint32 :: "u32 \<Rightarrow> string" where
  "printUint32 i = text_of (print_loop (replicate 10 0) 0 0 1000000000 i)"

definition printUint16 :: "u16 \<Rightarrow> string" where
  "printUint16 i = printUint32 (ucast i)"

definition printBool :: "bool \<Rightarrow> string" where
  "printBool b = (if b then ''true'' else ''false'')"

section \<open>Codes\<close>

definition typeNames :: "Type \<rightharpoonup> string" where
  "typeNames = map_of [(TypeA, ''TypeA''), (TypeNS, ''TypeNS''), (TypeCNAME, ''TypeCNAME''), (TypeSOA, ''TypeSOA''),
     (TypePTR, ''TypePTR''), (TypeMX, ''TypeMX''), (TypeTXT, ''TypeTXT''), (TypeAAAA, ''TypeAAAA''),
     (TypeSRV, ''TypeSRV''), (TypeOPT, ''TypeOPT''), (TypeWKS, ''TypeWKS''), (TypeHINFO, ''TypeHINFO''),
     (TypeMINFO, ''TypeMINFO''), (TypeAXFR, ''TypeAXFR''), (TypeALL, ''TypeALL'')]"

definition Type_String :: "Type \<Rightarrow> string" where
  "Type_String t = (case typeNames t of Some n \<Rightarrow> n | None \<Rightarrow> printUint16 t)"

definition Type_GoString :: "Type \<Rightarrow> string" where
  "Type_GoString t = (case typeNames t of Some n \<Rightarrow> ''dnsmessage.'' @ n | None \<Rightarrow> printUint16 t)"

definition classNames :: "Class \<rightharpoonup> string" where
  "classNames = map_of [(ClassINET, ''ClassINET''), (ClassCSNET, ''ClassCSNET''), (ClassCHAOS, ''ClassCHAOS''),
     (ClassHESIOD, ''ClassHESIOD''), (ClassANY, ''ClassANY'')]"

definition Class_String :: "Class \<Rightarrow> string" where
  "Class_String c = (case classNames c of Some n \<Rightarrow> n | None \<Rightarrow> printUint16 c)"

definition Class_GoString :: "Class \<Rightarrow> string" where
  "Class_GoString c = (case classNames c of Some n \<Rightarrow> ''dnsmessage.'' @ n | None \<Rightarrow> printUint16 c)"

definition OpCode_GoString :: "OpCode \<Rightarrow> string" where
  "OpCode_GoString c = printUint16 c"

definition rCodeNames :: "RCode \<rightharpoonup> string" where
  "rCodeNames = map_of [(RCodeSuccess, ''RCodeSuccess''), (RCodeFormatError, ''RCodeFormatError''),
     (RCodeServerFailure, ''RCodeServerFailure''), (RCodeNameError, ''RCodeNameError''),
     (RCodeNotImplemented, ''RCodeNotImplemented''), (RCodeRefused, ''RCodeRefused'')]"

definition RCode_String :: "RCode \<Rightarrow> string" where
  "RCode_String r = (case rCodeNames r of Some n \<Rightarrow> n | None \<Rightarrow> printUint16 r)"

definition RCode_GoString :: "RCode \<Rightarrow> string" where
  "RCode_GoString r = (case rCodeNames r of Some n \<Rightarrow> ''dnsmessage.'' @ n | None \<Rightarrow> printUint16 r)"

section \<open>Messages\<close>

definition Header_GoString :: "Header \<Rightarrow> string" where
  "Header_GoString m =
     ''dnsmessage.Header{'' @
     ''ID: '' @ printUint16 (ID m) @ '', '' @
     ''Response: '' @ printBool (Response m) @ '', '' @
     ''OpCode: '' @ OpCode_GoString (OpCode m) @ '', '' @
     ''Authoritative: '' @ printBool (Authoritative m) @ '', '' @
     ''Truncated: '' @ printBool (Truncated m) @ '', '' @
     ''RecursionDesired: '' @ printBool (RecursionDesired m) @ '', '' @
     ''RecursionAvailable: '' @ printBool (RecursionAvailable m) @ '', '' @
     ''RCode: '' @ RCode_GoString (RCode m) @ ''}''"

definition quote_mark :: string where
  "quote_mark = [CHR 0x22]"

definition Name_GoString :: "Name \<Rightarrow> string" where
  "Name_GoString n = ''dnsmessage.MustNewName('' @ quote_mark @ printString (Name_String n) @ quote_mark @ '')''"

definition Question_GoString :: "Question \<Rightarrow> string" where
  "Question_GoString q =
     ''dnsmessage.Question{'' @
     ''Name: '' @ Name_GoString (QName q) @ '', '' @
     ''Type: '' @ Type_GoString (QType q) @ '', '' @
     ''Class: '' @ Class_GoString (QClass q) @ ''}''"

definition ResourceHeader_GoString :: "ResourceHeader \<Rightarrow> string" where
  "ResourceHeader_GoString h =
     ''dnsmessage.ResourceHeader{'' @
     ''Name: '' @ Name_GoString (RName h) @ '', '' @
     ''Type: '' @ Type_GoString (RType h) @ '', '' @
     ''Class: '' @ Class_GoString (RClass h) @ '', '' @
     ''TTL: '' @ printUint32 (TTL h) @ '', '' @
     ''Length: '' @ printUint16 (RLength h) @ ''}''"

text \<open>The first element, then every further one after a separator.\<close>

definition print_list :: "('a \<Rightarrow> string) \<Rightarrow> 'a list \<Rightarrow> string \<Rightarrow> string" where
  "print_list pr xs sep = (case xs of [] \<Rightarrow> [] | y # ys \<Rightarrow> foldl (\<lambda>s x. s @ sep @ pr x) (pr y) ys)"

definition CNAMEResource_GoString :: "Name \<Rightarrow> string" where
  "CNAMEResource_GoString cname = ''dnsmessage.CNAMEResource{CNAME: '' @ Name_GoString cname @ ''}''"

definition MXResource_GoString :: "u16 \<Rightarrow> Name \<Rightarrow> string" where
  "MXResource_GoString pref mx =
     ''dnsmessage.MXResource{'' @
     ''Pref: '' @ printUint16 pref @ '', '' @
     ''MX: '' @ Name_GoString mx @ ''}''"

definition NSResource_GoString :: "Name \<Rightarrow> string" where
  "NSResource_GoString ns = ''dnsmessage.NSResource{NS: '' @ Name_GoString ns @ ''}''"

definition PTRResource_GoString :: "Name \<Rightarrow> string" where
  "PTRResource_GoString ptr = ''dnsmessage.PTRResource{PTR: '' @ Name_GoString ptr @ ''}''"

definition SOAResource_GoString :: "Name \<Rightarrow> Name \<Rightarrow> u32 \<Rightarrow> u32 \<Rightarrow> u32 \<Rightarrow> u32 \<Rightarrow> u32 \<Rightarrow> string" where
  "SOAResource_GoString ns mbox serial refresh retry expire minTTL =
     ''dnsmessage.SOAResource{'' @
     ''NS: '' @ Name_GoString ns @ '', '' @
     ''MBox: '' @ Name_GoString mbox @ '', '' @
     ''Serial: '' @ printUint32 serial @ '', '' @
     ''Refresh: '' @ printUint32 refresh @ '', '' @
     ''Retry: '' @ printUint32 retry @ '', '' @
     ''Expire: '' @ printUint32 expire @ '', '' @
     ''MinTTL: '' @ printUint32 minTTL @ ''}''"

definition TXTResource_GoString :: "bytes list \<Rightarrow> string" where
  "TXTResource_GoString txts =
     (let s = ''dnsmessage.TXTResource{TXT: []string{'' in
      if txts = [] then s @ ''}}''
      else s @ quote_mark @ print_list printString txts (quote_mark @ '', '' @ quote_mark) @ quote_mark @ ''}}'')"

definition SRVResource_GoString :: "u16 \<Rightarrow> u16 \<Rightarrow> u16 \<Rightarrow> Name \<Rightarrow> string" where
  "SRVResource_GoString priority weight port target =
     ''dnsmessage.SRVResource{'' @
     ''Priority: '' @ printUint16 priority @ '', '' @
     ''Weight: '' @ printUint16 weight @ '', '' @
     ''Port: '' @ printUint16 port @ '', '' @
     ''Target: '' @ Name_GoString target @ ''}''"

definition AResource_GoString :: "bytes \<Rightarrow> string" where
  "AResource_GoString a = ''dnsmessage.AResource{'' @ ''A: [4]byte{'' @ printByteSlice a @ ''}}''"

definition AAAAResource_GoString :: "bytes \<Rightarrow> string" where
  "AAAAResource_GoString aaaa = ''dnsmessage.AAAAResource{'' @ ''AAAA: [16]byte{'' @ printByteSlice aaaa @ ''}}''"

definition Option_GoString :: "DNSOption \<Rightarrow> string" where
  "Option_GoString opt =
     ''dnsmessage.Option{'' @
     ''Code: '' @ printUint16 (Code opt) @ '', '' @
     ''Data: []byte{'' @ printByteSlice (OData opt) @ ''}}''"

definition OPTResource_GoString :: "DNSOption list \<Rightarrow> string" where
  "OPTResource_GoString opts =
     ''dnsmessage.OPTResource{Options: []dnsmessage.Option{'' @ print_list Option_GoString opts '', '' @ ''}}''"

definition UnknownResource_GoString :: "Type \<Rightarrow> bytes \<Rightarrow> string" where
  "UnknownResource_GoString t data =
     ''dnsmessage.UnknownResource{'' @
     ''Type: '' @ Type_GoString t @ '', '' @
     ''Data: []byte{'' @ printByteSlice data @ ''}}''"

fun ResourceBody_GoString :: "ResourceBody \<Rightarrow> string" where
  "ResourceBody_GoString (CNAMEResource n) = CNAMEResource_GoString n"
| "ResourceBody_GoString (MXResource p n) = MXResource_GoString p n"
| "ResourceBody_GoString (NSResource n) = NSResource_GoString n"
| "ResourceBody_GoString (PTRResource n) = PTRResource_GoString n"
| "ResourceBody_GoString (SOAResource n m s rf rt e t) = SOAResource_GoString n m s rf rt e t"
| "ResourceBody_GoString (TXTResource ts) = TXTResource_GoString ts"
| "ResourceBody_GoString (SRVResource p w q n) = SRVResource_GoString p w q n"
| "ResourceBody_GoString (AResource a) = AResource_GoString a"
| "ResourceBody_GoString (AAAAResource a) = AAAAResource_GoString a"
| "ResourceBody_GoString (OPTResource os) = OPTResource_GoString os"
| "ResourceBody_GoString (UnknownResource t d) = UnknownResource_GoString t d"

text \<open>The call on a nil \<open>Body\<close> is a nil dereference.\<close>

definition Resource_GoString :: "Resource \<Rightarrow> string dns" where
  "Resource_GoString r =
     (case Body r of
        None \<Rightarrow> Panic
      | Some b \<Rightarrow> Return (''dnsmessage.Resource{'' @
          ''Header: '' @ ResourceHeader_GoString (Res_Header r) @
          '', Body: &'' @ ResourceBody_GoString b @
          ''}''))"

fun print_resources :: "string \<Rightarrow> Resource list \<Rightarrow> string dns" where
  "print_resources sep [] = Return []"
| "print_resources sep (r # rs) =
     bind_outcome (Resource_GoString r) (\<lambda>s.
     bind_outcome (print_resources '', '' rs) (\<lambda>t. Return (sep @ s @ t)))"

definition Message_GoString :: "Message \<Rightarrow> string dns" where
  "Message_GoString m =
     (let s = ''dnsmessage.Message{Header: '' @ Header_GoString (MHeader m) @ '', '' @
            ''Questions: []dnsmessage.Question{'' @ print_list Question_GoString (Questions m) '', '' in
      bind_outcome (print_resources [] (Answers m)) (\<lambda>a.
      bind_outcome (print_resources [] (Authorities m)) (\<lambda>n.
      bind_outcome (print_resources [] (Additionals m)) (\<lambda>d.
      Return (s @ ''}, Answers: []dnsmessage.Resource{'' @ a @
        ''}, Authorities: []dnsmessage.Resource{'' @ n @
        ''}, Additionals: []dnsmessage.Resource{'' @ d @ ''}}'')))))"

section \<open>Numbers print in decimal\<close>

fun pad :: "nat \<Rightarrow> nat \<Rightarrow> bytes" where
  "pad 0 n = []"
| "pad (Suc k) n = of_nat (n div 10 ^ k mod 10 + 48) # pad k (n mod 10 ^ k)"

lemma pad_snoc: "pad (Suc k) n = pad k (n div 10) @ [of_nat (n mod 10 + 48)]"
proof (induction k arbitrary: n)
  case (Suc k)
  have d: "n mod (10 * 10 ^ k) div 10 = n div 10 mod 10 ^ k" by (simp add: mod_mult2_eq)
  have m: "n mod (10 * 10 ^ k) mod 10 = n mod 10" by (simp add: mod_mult2_eq)
  have "pad (Suc (Suc k)) n = of_nat (n div 10 ^ Suc k mod 10 + 48) # pad (Suc k) (n mod 10 ^ Suc k)" by simp
  also have "\<dots> = of_nat (n div 10 ^ Suc k mod 10 + 48) # pad k (n mod 10 ^ Suc k div 10) @ [of_nat (n mod 10 ^ Suc k mod 10 + 48)]"
    using Suc.IH [of "n mod 10 ^ Suc k"] by simp
  also have "\<dots> = pad (Suc k) (n div 10) @ [of_nat (n mod 10 + 48)]"
    by (simp add: d m div_mult2_eq)
  finally show ?case .
qed simp

lemma digit_byte: "n < 10 \<Longrightarrow> char_of (unat (of_nat (n + 48) :: u8)) = digit_char n"
  by (simp add: digit_char_def unat_of_nat add.commute del: of_nat_add)

lemma text_of_pad: "10 ^ k \<le> n \<Longrightarrow> n < 10 ^ Suc k \<Longrightarrow> text_of (pad (Suc k) n) = dec n"
proof (induction k arbitrary: n)
  case 0
  then show ?case using digit_byte [of n] by (simp add: dec_def print_base.simps del: of_nat_add)
next
  case (Suc k)
  have "text_of (pad (Suc k) (n div 10)) = dec (n div 10)"
    by (rule Suc.IH) (use Suc.prems in \<open>simp_all add: less_eq_div_iff_mult_less_eq div_less_iff_less_mult mult.commute\<close>)
  then have "text_of (pad (Suc (Suc k)) n) = dec (n div 10) @ [digit_char (n mod 10)]"
    using digit_byte [of "n mod 10"] by (simp only: pad_snoc [of "Suc k"]) (simp del: of_nat_add pad.simps)
  moreover have "\<not> n < 10"
  proof -
    have "(10 :: nat) ^ 1 \<le> 10 ^ Suc k" by (rule power_increasing) simp_all
    then have "10 ^ 1 \<le> n" using Suc.prems(1) by (rule order_trans)
    then show ?thesis by simp
  qed
  ultimately show ?case by (simp add: dec_def print_base.simps [of 10 n])
qed

text \<open>The divisor in the step that has \<open>k\<close> more digits to write.\<close>

definition divisor :: "nat \<Rightarrow> u32" where
  "divisor k = (case k of 0 \<Rightarrow> 0 | Suc j \<Rightarrow> of_nat (10 ^ j))"

lemma divisor_Suc:
  assumes "k \<le> 9"
  shows "unat (divisor (Suc k)) = 10 ^ k" "divisor (Suc k) div 10 = divisor k" "divisor (Suc k) > 0"
proof -
  have "(10 :: nat) ^ k \<le> 10 ^ 9" using assms by (rule power_increasing) simp
  then show u: "unat (divisor (Suc k)) = 10 ^ k" by (simp add: divisor_def unat_of_nat del: of_nat_power)
  show "divisor (Suc k) > 0" using u by (simp add: word_less_nat_alt)
  show "divisor (Suc k) div 10 = divisor k"
  proof (cases k)
    case 0
    then show ?thesis by (simp add: divisor_def)
  next
    case (Suc j)
    have "(10 :: nat) ^ j \<le> 10 ^ 9" using assms Suc by (intro power_increasing) simp_all
    then have "unat (divisor k) = 10 ^ j" using Suc by (simp add: divisor_def unat_of_nat del: of_nat_power)
    then show ?thesis using u Suc by (simp add: word_unat_eq_iff unat_div)
  qed
qed

lemma print_digit: "ucast (i div d mod 10 + 48 :: u32) = (of_nat (unat i div unat d mod 10 + 48) :: u8)"
proof -
  have "unat (i div d mod 10 + 48) = unat i div unat d mod 10 + 48"
  proof -
    have "unat (i div d mod 10) = unat i div unat d mod 10" by (simp add: unat_mod unat_div)
    moreover have "unat i div unat d mod 10 < 10" by simp
    ultimately show ?thesis by (simp add: unat_word_ariths(1))
  qed
  then show ?thesis by (metis of_nat_unat)
qed


lemma print_loop_step:
  assumes "k \<le> 9" "length arr = p + Suc k" "s \<le> p"
  shows "print_loop arr s p (divisor (Suc k)) i =
    (let c = of_nat (unat i div 10 ^ k mod 10 + 48) in
     print_loop (arr[p := c]) (if c = 48 \<and> s = p \<and> k > 0 then s + 1 else s) (p + 1) (divisor k) (i mod divisor (Suc k)))"
proof -
  have "(arr[p := c] ! p = 48 \<and> length (arr[p := c]) - p = length (arr[p := c]) - s \<and> length (arr[p := c]) - s > 1) =
      (c = 48 \<and> s = p \<and> k > 0)" for c using assms(2,3) by auto
  then show ?thesis
    using divisor_Suc [OF assms(1)] by (subst print_loop.simps) (simp add: print_digit Let_def del: of_nat_add)
qed

lemma unat_mod_divisor: "k \<le> 9 \<Longrightarrow> unat (i mod divisor (Suc k)) = unat i mod 10 ^ k"
  by (simp add: unat_mod divisor_Suc)

lemma print_loop_started:
  assumes "s < p" "length arr = p + k" "k \<le> 10"
  shows "print_loop arr s p (divisor k) i = drop s (take p arr) @ pad k (unat i)"
  using assms
proof (induction k arbitrary: arr p i)
  case 0
  then show ?case by (subst print_loop.simps) (simp add: divisor_def)
next
  case (Suc k)
  let ?c = "of_nat (unat i div 10 ^ k mod 10 + 48) :: u8"
  have "print_loop arr s p (divisor (Suc k)) i = print_loop (arr[p := ?c]) s (p + 1) (divisor k) (i mod divisor (Suc k))"
    using print_loop_step [of k arr p s i] Suc.prems by (simp add: Let_def del: of_nat_add)
  also have "\<dots> = drop s (take (p + 1) (arr[p := ?c])) @ pad k (unat (i mod divisor (Suc k)))"
    by (rule Suc.IH) (use Suc.prems in simp_all)
  also have "take (p + 1) (arr[p := ?c]) = take p arr @ [?c]"
    using Suc.prems by (simp add: take_Suc_conv_app_nth del: of_nat_add)
  finally show ?case using Suc.prems unat_mod_divisor [of k i] by (simp del: of_nat_add)
qed

lemma print_loop_leading:
  assumes "length arr = p + Suc k" "k \<le> 9" "unat i < 10 ^ Suc k"
  shows "text_of (print_loop arr p p (divisor (Suc k)) i) = dec (unat i)"
  using assms
proof (induction k arbitrary: arr p i)
  case 0
  have "drop p (arr[p := c]) = [c]" for c using 0 by (simp add: Cons_nth_drop_Suc [symmetric])
  then have "text_of (print_loop arr p p (divisor (Suc 0)) i) = text_of (pad 1 (unat i))"
    using 0 print_loop_step [of 0 arr p p i] print_loop_started [of p "p + 1" "arr[p := of_nat (unat i mod 10 + 48)]" 0 "i mod divisor 1"]
    by (simp add: Let_def take_Suc_conv_app_nth del: of_nat_add)
  then show ?case using 0 digit_byte [of "unat i"] by (simp add: dec_def print_base.simps del: of_nat_add)
next
  case (Suc k)
  let ?q = "unat i div 10 ^ Suc k mod 10"
  let ?c = "of_nat (?q + 48) :: u8"
  have m: "unat (i mod divisor (Suc (Suc k))) = unat i mod 10 ^ Suc k" using Suc.prems(2) by (rule unat_mod_divisor)
  show ?case
  proof (cases "unat i < 10 ^ Suc k")
    case True
    then have "?c = 48" by simp
    then have "print_loop arr p p (divisor (Suc (Suc k))) i =
        print_loop (arr[p := ?c]) (p + 1) (p + 1) (divisor (Suc k)) (i mod divisor (Suc (Suc k)))"
      using print_loop_step [of "Suc k" arr p p i] Suc.prems by (simp add: Let_def del: of_nat_add)
    also have "text_of \<dots> = dec (unat (i mod divisor (Suc (Suc k))))"
      by (rule Suc.IH) (use Suc.prems m in simp_all)
    finally show ?thesis using True m by simp
  next
    case False
    then have "unat i div 10 ^ Suc k \<noteq> 0" by (simp add: div_eq_0_iff)
    moreover have "unat i div 10 ^ Suc k < 10" using Suc.prems(3) by (simp add: div_less_iff_less_mult)
    ultimately have q: "?q \<noteq> 0" "?q < 10" by simp_all
    then have "unat ?c \<noteq> 48" by (simp add: unat_of_nat del: of_nat_add)
    then have "?c \<noteq> 48" by (auto simp del: of_nat_add)
    then have "print_loop arr p p (divisor (Suc (Suc k))) i =
        print_loop (arr[p := ?c]) p (p + 1) (divisor (Suc k)) (i mod divisor (Suc (Suc k)))"
      using print_loop_step [of "Suc k" arr p p i] Suc.prems by (simp add: Let_def del: of_nat_add)
    also have "\<dots> = pad (Suc (Suc k)) (unat i)"
      using print_loop_started [of p "p + 1" "arr[p := ?c]" "Suc k"] Suc.prems m
      by (simp add: take_Suc_conv_app_nth del: of_nat_add)
    finally show ?thesis using text_of_pad [of "Suc k"] False Suc.prems(3) by simp
  qed
qed

lemma printUint32_dec: "printUint32 i = dec (unat i)"
proof -
  have "(1000000000 :: u32) = divisor 10" by (simp add: divisor_def)
  moreover have "unat i < 2 ^ LENGTH(32)" by (rule unsigned_less)
  then have "unat i < 10 ^ Suc 9" by simp
  ultimately show ?thesis using print_loop_leading [of "replicate 10 0" 0 9 i] by (simp add: printUint32_def)
qed

section \<open>Escapes can be undone\<close>

definition hex_val :: "u8 \<Rightarrow> u8" where
  "hex_val d = (if 48 \<le> d \<and> d \<le> 57 then d - 48 else d - 87)"

text \<open>The reading of \<open>\xhh\<close> escapes in a Go string literal.\<close>

fun unescape :: "bytes \<Rightarrow> bytes option" where
  "unescape [] = Some []"
| "unescape (c # cs) =
     (if c \<noteq> 92 then map_option (\<lambda>t. c # t) (unescape cs)
      else case cs of
        x # h # l # rest \<Rightarrow>
          if x = 120 then map_option (\<lambda>t. (16 * hex_val h + hex_val l) # t) (unescape rest) else None
      | _ \<Rightarrow> None)"

lemma hex_val_digit: "n < 16 \<Longrightarrow> hex_val (hexDigits ! n) = of_nat n"
proof -
  have "\<forall>n \<in> set [0..<16]. hex_val (hexDigits ! n) = of_nat n" by code_simp
  then show "n < 16 \<Longrightarrow> hex_val (hexDigits ! n) = of_nat n" by simp
qed

lemma hex_round_trip:
  "16 * hex_val (hexDigits ! unat (drop_bit 4 c)) + hex_val (hexDigits ! unat (drop_bit 4 (push_bit 4 c))) = c"
proof -
  have u: "unat (drop_bit 4 c) = unat c div 16" by (simp add: drop_bit_eq_div unat_div)
  have "drop_bit 4 (push_bit 4 c) = take_bit 4 c"
    by (rule bit_eqI) (auto simp: bit_simps)
  then have l: "unat (drop_bit 4 (push_bit 4 c)) = unat c mod 16"
    by (simp add: take_bit_eq_mod unat_mod)
  have "unat c div 16 < 16" "unat c mod 16 < 16" using byte_unat_less [of c] by simp_all
  moreover have "of_nat (16 * (unat c div 16) + unat c mod 16) = c" by (simp del: of_nat_add of_nat_mult)
  ultimately show ?thesis unfolding u l by (simp only: hex_val_digit of_nat_add of_nat_mult of_nat_numeral)
qed

lemma unescape_print_byte: "unescape (print_byte c @ t) = map_option (\<lambda>t. c # t) (unescape t)"
  using hex_round_trip [of c] by (auto simp: print_byte_def plain_def Let_def)

lemma foldl_concat: "foldl (\<lambda>buf c. buf @ f c) acc xs = acc @ concat (map f xs)"
  by (induction xs arbitrary: acc) simp_all

lemma unescape_printString: "unescape (bytes_of (printString s)) = Some s"
proof -
  have "unescape (concat (map print_byte s)) = Some s"
    by (induction s) (simp_all add: unescape_print_byte)
  then show ?thesis by (simp add: printString_def foldl_concat)
qed

lemma printUint8Bytes_dec: "text_of (printUint8Bytes [] b) = dec (unat b)"
proof -
  let ?n = "unat b"
  have d: "b div 100 + 48 = of_nat (?n div 100 + 48)" "b div 10 mod 10 + 48 = of_nat (?n div 10 mod 10 + 48)"
    "b mod 10 + 48 = of_nat (?n mod 10 + 48)"
    using byte_unat_less [of b]
    by (simp_all add: word_unat_eq_iff unat_word_ariths unat_div unat_mod unat_of_nat)
  have c: "char_of (unat (b div 10 mod 10 + 48)) = digit_char (?n div 10 mod 10)"
    "char_of (unat (b mod 10 + 48)) = digit_char (?n mod 10)"
    unfolding d by (rule digit_byte, simp)+
  have c1: "char_of (unat (b div 100 + 48)) = digit_char (?n div 100)"
    unfolding d by (rule digit_byte) (use byte_unat_less [of b] in simp)
  have le: "b \<ge> 100 \<longleftrightarrow> ?n \<ge> 100" "b \<ge> 10 \<longleftrightarrow> ?n \<ge> 10" by (simp_all add: word_le_nat_alt)
  have "dec ?n = (if ?n < 10 then [digit_char ?n] else if ?n < 100 then [digit_char (?n div 10), digit_char (?n mod 10)]
     else [digit_char (?n div 100), digit_char (?n div 10 mod 10), digit_char (?n mod 10)])"
  proof -
    have "?n div 10 < 10 \<longleftrightarrow> ?n < 100" "?n div 100 < 10" using byte_unat_less [of b] by auto
    then show ?thesis
      by (simp add: dec_def print_base.simps [of 10 ?n] print_base.simps [of 10 "?n div 10"]
        print_base.simps [of 10 "?n div 100"] div_mult2_eq [symmetric])
  qed
  then show ?thesis
    by (simp add: printUint8Bytes_def Let_def c c1 le)
qed


section \<open>Properties\<close>

text \<open>The number printers print the decimal numeral, without leading zeros: \<open>printUint32\<close> and \<open>printUint16\<close> by
  repeated division over a ten byte buffer, \<open>printUint8Bytes\<close> with arithmetic on bytes.\<close>

theorem numbers_print_decimal:
  "printUint32 i = dec (unat i) \<and> printUint16 j = dec (unat j) \<and> text_of (printUint8Bytes [] b) = dec (unat b)"
proof -
  have "unat j < 2 ^ LENGTH(16)" by (rule unsigned_less)
  then have "unat (ucast j :: u32) = unat j" by (simp add: unsigned_ucast_eq take_bit_nat_eq_self)
  then show ?thesis by (simp add: printUint32_dec printUint8Bytes_dec printUint16_def)
qed

text \<open>Reading the escapes of a printed byte string gives the string back, so \<open>Name.GoString\<close> shows every byte of
  a name unambiguously: names with different texts print differently.\<close>

theorem printString_round_trip:
  "unescape (bytes_of (printString s)) = Some s \<and> (Name_GoString n = Name_GoString n' \<longleftrightarrow> Name_String n = Name_String n')"
proof -
  have "printString s = printString t \<longleftrightarrow> s = t" for s t
    using unescape_printString [of s] unescape_printString [of t] by (metis option.inject)
  then show ?thesis by (simp add: unescape_printString Name_GoString_def quote_mark_def)
qed

text \<open>\<open>Header.GoString\<close> omits two fields: headers that differ only in \<open>AuthenticData\<close> and \<open>CheckingDisabled\<close> print
  alike, while they pack to different bits.\<close>

theorem Header_GoString_omits:
  "Header_GoString (h\<lparr>AuthenticData := a, CheckingDisabled := c\<rparr>) = Header_GoString h \<and>
   Header_pack (zero_Header\<lparr>AuthenticData := True\<rparr>) \<noteq> Header_pack zero_Header"
proof
  show "Header_GoString (h\<lparr>AuthenticData := a, CheckingDisabled := c\<rparr>) = Header_GoString h"
    by (simp add: Header_GoString_def)
  show "Header_pack (zero_Header\<lparr>AuthenticData := True\<rparr>) \<noteq> Header_pack zero_Header" by code_simp
qed

end
