(* ===== verification/HPACK_Int.thy ===== *)
theory HPACK_Int
  imports Prelude
begin

text \<open>
  The variable length integers of \<open>src/http2/hpack\<close>: \<open>appendVarInt\<close> of \<open>encode.go\<close> and \<open>readVarInt\<close> of
  \<open>hpack.go\<close>, on 64 bit words.  The decoder stops with an overflow error at the ninth continuation
  byte, so of the values the encoder can write it reads exactly those whose part beyond the prefix is
  below \<open>2 ^ 63\<close>.
\<close>

unbundle bit_operations_syntax

section \<open>Errors of the package\<close>

datatype decoding_cause =
    InvalidIndexError int
  | TruncatedHeaders
  | InvalidEncoding
  | SizeUpdateNotFirst
  | SizeUpdateTooLarge
  | VarIntOverflow

datatype hpack_error =
    errNeedMore
  | ErrStringLength
  | ErrInvalidHuffman
  | DecodingError decoding_cause

abbreviation errVarintOverflow :: hpack_error where
  "errVarintOverflow \<equiv> DecodingError VarIntOverflow"

type_synonym 'a hpack = "(hpack_error, 'a) outcome"

section \<open>Writing\<close>

function append_loop :: "bytes \<Rightarrow> u64 \<Rightarrow> bytes" where
  "append_loop dst i =
     (if i \<ge> 128 then append_loop (dst @ [ucast (0x80 OR (i AND 0x7F))]) (drop_bit 7 i)
      else dst @ [ucast i])"
  by pat_completeness auto
termination
proof (relation "measure (\<lambda>(_, i). unat i)")
  fix dst :: bytes and i :: u64
  assume "128 \<le> i"
  then have "unat i \<ge> 128" by (simp add: word_le_nat_alt)
  then have "unat i div 128 < unat i" by simp
  then show "((dst @ [ucast (0x80 OR (i AND 0x7F))], drop_bit 7 i), dst, i) \<in> measure (\<lambda>(_, i). unat i)"
    by (simp add: drop_bit_eq_div unat_div)
qed simp

declare append_loop.simps [simp del]

definition appendVarInt :: "bytes \<Rightarrow> nat \<Rightarrow> u64 \<Rightarrow> bytes" where
  "appendVarInt dst n i =
     (let k = push_bit n 1 - 1 in
      if i < k then dst @ [ucast i]
      else append_loop (dst @ [ucast k]) (i - k))"

section \<open>Reading\<close>

fun read_loop :: "bytes \<Rightarrow> u64 \<Rightarrow> nat \<Rightarrow> (u64 \<times> bytes) hpack" where
  "read_loop [] i m = Fail errNeedMore"
| "read_loop (b # p) i m =
     (let i = i + push_bit m (ucast (b AND 127)) in
      if b AND 128 = 0 then Return (i, p)
      else if m + 7 \<ge> 63 then Fail errVarintOverflow
      else read_loop p i (m + 7))"

definition readVarInt :: "nat \<Rightarrow> bytes \<Rightarrow> (u64 \<times> bytes) hpack" where
  "readVarInt n p =
     (if n < 1 \<or> n > 8 then Panic
      else case p of
        [] \<Rightarrow> Fail errNeedMore
      | b # rest \<Rightarrow>
          let i = ucast b; i = (if n < 8 then i AND (push_bit n 1 - 1) else i) in
          if i < push_bit n 1 - 1 then Return (i, rest)
          else read_loop rest i 0)"

section \<open>Round trip\<close>

lemma append_loop_append: "append_loop (pre @ dst) i = pre @ append_loop dst i"
proof (induction dst i rule: append_loop.induct)
  case (1 dst i)
  then show ?case by (simp add: append_loop.simps [of "pre @ dst"] append_loop.simps [of dst])
qed

lemma append_loop_Cons:
  "append_loop [] i = (if i \<ge> 128 then ucast (0x80 OR (i AND 0x7F)) # append_loop [] (drop_bit 7 i) else [ucast i])"
  using append_loop_append [of "[ucast (0x80 OR (i AND 0x7F))]" "[]"] by (simp add: append_loop.simps [of "[]" i])

lemma appendVarInt_append: "appendVarInt dst n i = dst @ appendVarInt [] n i"
  using append_loop_append [of dst] by (simp add: appendVarInt_def Let_def)

text \<open>The bytes of the loop: seven bits and a continuation flag.\<close>

lemma masks: "(0x7F :: 'a::len word) = mask 7" "(127 :: 'a::len word) = mask 7" "(128 :: 8 word) = push_bit 7 1"
  "(0x80 :: 64 word) = push_bit 7 1"
  by (simp_all add: mask_eq_exp_minus_1)

lemma continued_byte:
  fixes i :: u64
  shows "ucast (ucast (0x80 OR (i AND 0x7F)) AND (127 :: 8 word)) = take_bit 7 i"
    and "ucast (0x80 OR (i AND 0x7F)) AND (128 :: 8 word) \<noteq> 0"
proof -
  show "ucast (ucast (0x80 OR (i AND 0x7F)) AND (127 :: 8 word)) = take_bit 7 i"
    unfolding masks by (rule bit_word_eqI) (auto simp: bit_simps simp del: push_bit_of_1)
  have "bit (ucast (0x80 OR (i AND 0x7F)) AND (128 :: 8 word)) 7"
    unfolding masks by (auto simp: bit_simps simp del: push_bit_of_1)
  then show "ucast (0x80 OR (i AND 0x7F)) AND (128 :: 8 word) \<noteq> 0" by auto
qed

lemma final_byte:
  fixes i :: u64
  assumes "\<not> i \<ge> 128"
  shows "ucast (ucast i AND (127 :: 8 word)) = i" "ucast i AND (128 :: 8 word) = 0"
proof -
  have "take_bit 7 i = i" using assms by (simp add: take_bit_eq_mod word_unat_eq_iff unat_mod word_le_nat_alt)
  then have b: "bit i n \<Longrightarrow> n < 7" for n by (metis bit_take_bit_iff)
  show "ucast (ucast i AND (127 :: 8 word)) = i"
    unfolding masks by (rule bit_word_eqI) (auto simp: bit_simps dest: b simp del: push_bit_of_1)
  show "ucast i AND (128 :: 8 word) = 0"
    unfolding masks by (rule bit_word_eqI) (auto simp: bit_simps dest: b simp del: push_bit_of_1)
qed


text \<open>Reading the loop's output from any shift position: a value that fits below bit 63 comes back,
  anything larger is reported as an overflow.\<close>

lemma read_append_loop:
  assumes "m mod 7 = 0" "m < 63"
  shows "read_loop (append_loop [] i @ rest) acc m =
    (if unat i < 2 ^ (63 - m) then Return (acc + push_bit m i, rest) else Fail errVarintOverflow)"
  using assms
proof (induction "unat i" arbitrary: i acc m rule: less_induct)
  case less
  show ?case
  proof (cases "i \<ge> 128")
    case False
    then have i: "unat i < 128" by (simp add: word_le_nat_alt)
    have "m \<le> 56" using less.prems by presburger
    then have "(2 :: nat) ^ 7 \<le> 2 ^ (63 - m)" by (intro power_increasing) simp_all
    then have "unat i < 2 ^ (63 - m)" using i by simp
    then show ?thesis using False final_byte [of i] by (simp add: append_loop_Cons [of i] Let_def)
  next
    case True
    let ?j = "drop_bit 7 i"
    have u: "unat ?j = unat i div 128" by (simp add: drop_bit_eq_div unat_div)
    have lt: "unat ?j < unat i" using True u by (simp add: word_le_nat_alt)
    have step: "read_loop (append_loop [] i @ rest) acc m =
        (if m + 7 \<ge> 63 then Fail errVarintOverflow
         else read_loop (append_loop [] ?j @ rest) (acc + push_bit m (take_bit 7 i)) (m + 7))"
      using True continued_byte [of i] by (simp add: append_loop_Cons [of i] Let_def)
    show ?thesis
    proof (cases "m + 7 \<ge> 63")
      case m: True
      then have "63 - m \<le> 7" by simp
      then have "(2 :: nat) ^ (63 - m) \<le> 2 ^ 7" by (intro power_increasing) simp_all
      then have "\<not> unat i < 2 ^ (63 - m)" using True by (simp add: word_le_nat_alt)
      then show ?thesis using step m by simp
    next
      case m: False
      have e: "push_bit m (take_bit 7 i) + push_bit (m + 7) ?j = push_bit m i"
      proof -
        have "push_bit (m + 7) ?j = push_bit m (push_bit 7 ?j)" by simp
        then show ?thesis by (metis add.commute bits_ident push_bit_add)
      qed
      have "63 - m = Suc (Suc (Suc (Suc (Suc (Suc (Suc (63 - (m + 7))))))))" using m by simp
      then have p: "(2 :: nat) ^ (63 - m) = 128 * 2 ^ (63 - (m + 7))" by simp
      have "unat ?j < 2 ^ (63 - (m + 7)) \<longleftrightarrow> unat i < 2 ^ (63 - m)"
        unfolding u p by (simp add: div_less_iff_less_mult mult.commute)
      moreover have "(m + 7) mod 7 = 0" using less.prems(1) by simp
      ultimately show ?thesis
        using step m less.hyps [OF lt, of "m + 7" "acc + push_bit m (take_bit 7 i)"] e by (simp add: add.assoc)
    qed
  qed
qed


text \<open>The encoder sets the type bits of a representation in the first byte afterwards, as in
  \<open>dst[first] |= 0x80\<close>.\<close>

fun set_first :: "u8 \<Rightarrow> bytes \<Rightarrow> bytes" where
  "set_first f [] = []"
| "set_first f (c # cs) = (c OR f) # cs"

definition prefix_max :: "nat \<Rightarrow> u64" where
  "prefix_max n = push_bit n 1 - 1"

lemma prefix_max_mask: "n \<le> 8 \<Longrightarrow> prefix_max n = mask n"
  by (simp add: prefix_max_def mask_eq_exp_minus_1)

definition readable :: "nat \<Rightarrow> u64 \<Rightarrow> bool" where
  "readable n i \<longleftrightarrow> i < prefix_max n \<or> unat (i - prefix_max n) < 2 ^ 63"

lemma masked_byte:
  fixes c f :: u8
  assumes "n \<le> 8" "f AND mask n = 0" "\<And>j. bit c j \<Longrightarrow> j < n"
  shows "(if n < 8 then ucast (c OR f) AND mask n else ucast (c OR f) :: u64) = ucast c"
proof -
  have f: "\<not> bit f j" if "j < n" for j
  proof -
    have "bit (f AND mask n) j = bit (0 :: u8) j" using assms(2) by simp
    then show ?thesis using that assms(1) by (simp add: bit_simps)
  qed
  have "bit (if n < 8 then ucast (c OR f) AND mask n else ucast (c OR f) :: u64) j = bit (ucast c :: u64) j" for j
    using assms(1) f [of j] assms(3) [of j] bit_imp_le_length [of f j] by (auto simp: bit_simps)
  then show ?thesis by (intro bit_eqI) blast
qed

lemma unat_prefix_max: "n \<le> 8 \<Longrightarrow> unat (prefix_max n) = 2 ^ n - 1"
proof -
  assume "n \<le> 8"
  then have "n \<in> {0, 1, 2, 3, 4, 5, 6, 7, 8}" by auto
  then show ?thesis by (auto simp: prefix_max_def)
qed

lemma less_mask_bits: "\<lbrakk>n \<le> 8; i \<le> prefix_max n; bit i j\<rbrakk> \<Longrightarrow> j < n"
proof -
  assume n: "n \<le> 8" and i: "i \<le> prefix_max n" and b: "bit i j"
  have "unat i < 2 ^ n"
    using i unat_prefix_max [OF n] by (simp add: word_le_nat_alt) (metis One_nat_def Suc_pred le_imp_less_Suc zero_less_numeral zero_less_power)
  then have "take_bit n i = i"
    by (simp add: word_unat_eq_iff unsigned_take_bit_eq take_bit_nat_eq_self)
  then show "j < n" using b by (metis bit_take_bit_iff)
qed

lemma ucast_prefix:
  assumes "n \<le> 8" "i \<le> prefix_max n"
  shows "ucast (ucast i :: u8) = i" "\<And>j. bit (ucast i :: u8) j \<Longrightarrow> j < n"
proof -
  note b = less_mask_bits [OF assms]
  show "ucast (ucast i :: u8) = i" using assms(1) by (intro bit_eqI) (auto simp: bit_simps dest: b)
  show "\<And>j. bit (ucast i :: u8) j \<Longrightarrow> j < n" using b by (auto simp: bit_simps)
qed

lemma readVarInt_Cons:
  assumes "1 \<le> n" "n \<le> 8" "f AND mask n = 0" "i \<le> prefix_max n"
  shows "readVarInt n ((ucast i OR f) # p) = (if i < prefix_max n then Return (i, p) else read_loop p i 0)"
proof -
  have "(if n < 8 then ucast (ucast i OR f) AND (push_bit n 1 - 1) else ucast (ucast i OR f) :: u64) = i"
    using masked_byte [OF assms(2,3), of "ucast i"] ucast_prefix [OF assms(2,4)]
      prefix_max_mask [OF assms(2)] by (simp add: prefix_max_def split: if_splits)
  then show ?thesis using assms(1,2) by (simp add: readVarInt_def Let_def prefix_max_def)
qed

lemma readVarInt_appendVarInt:
  assumes "1 \<le> n" "n \<le> 8" "f AND mask n = 0"
  shows "readVarInt n (set_first f (appendVarInt [] n i) @ rest) =
    (if readable n i then Return (i, rest) else Fail errVarintOverflow)"
proof (cases "i < prefix_max n")
  case True
  then have "appendVarInt [] n i = [ucast i]" by (simp add: appendVarInt_def prefix_max_def Let_def)
  then show ?thesis using True readVarInt_Cons [OF assms, of i rest] by (simp add: readable_def)
next
  case False
  let ?k = "prefix_max n"
  have "appendVarInt [] n i = ucast ?k # append_loop [] (i - ?k)"
    using False append_loop_append [of "[ucast ?k]" "[]"] by (simp add: appendVarInt_def prefix_max_def Let_def)
  then have "readVarInt n (set_first f (appendVarInt [] n i) @ rest) = read_loop (append_loop [] (i - ?k) @ rest) ?k 0"
    using readVarInt_Cons [OF assms, of ?k] by simp
  then show ?thesis using False read_append_loop [of 0 "i - ?k" rest ?k] by (simp add: readable_def)
qed

section \<open>Reading a longer buffer\<close>

text \<open>A reader that has its answer does not look at what follows, and one that runs out of bytes has
  used them all up.\<close>

lemma read_loop_extend:
  "read_loop p i m = Return (v, rest) \<Longrightarrow> read_loop (p @ q) i m = Return (v, rest @ q)"
  "read_loop p i m = Fail e \<Longrightarrow> e \<noteq> errNeedMore \<Longrightarrow> read_loop (p @ q) i m = Fail e"
  by (induction p i m rule: read_loop.induct) (auto simp: Let_def split: if_splits)

lemma readVarInt_extend:
  "readVarInt n p = Return (v, rest) \<Longrightarrow> readVarInt n (p @ q) = Return (v, rest @ q)"
  "readVarInt n p = Fail e \<Longrightarrow> e \<noteq> errNeedMore \<Longrightarrow> readVarInt n (p @ q) = Fail e"
  by (auto simp: readVarInt_def Let_def read_loop_extend split: if_splits list.splits)

lemma read_loop_suffix: "read_loop p i m = Return (v, rest) \<Longrightarrow> \<exists>pre. p = pre @ rest \<and> pre \<noteq> []"
proof (induction p i m rule: read_loop.induct)
  case (2 b p i m)
  then show ?case by (auto simp: Let_def split: if_splits)
qed simp

lemma readVarInt_suffix: "readVarInt n p = Return (v, rest) \<Longrightarrow> \<exists>pre. p = pre @ rest \<and> pre \<noteq> []"
proof -
  assume r: "readVarInt n p = Return (v, rest)"
  then obtain b q where p: "p = b # q" by (cases p) (auto simp: readVarInt_def split: if_splits)
  then have "q = rest \<or> (\<exists>i. read_loop q i 0 = Return (v, rest))"
    using r by (auto simp: readVarInt_def Let_def split: if_splits)
  then obtain pre where "q = pre @ rest" using read_loop_suffix by (metis append_Nil)
  then have "p = (b # pre) @ rest" using p by simp
  then show ?thesis by blast
qed

lemma read_loop_no_panic [simp]: "read_loop p i m \<noteq> Panic"
  by (induction p i m rule: read_loop.induct) (auto simp: Let_def)

lemma readVarInt_no_panic: "1 \<le> n \<Longrightarrow> n \<le> 8 \<Longrightarrow> readVarInt n p \<noteq> Panic"
  by (auto simp: readVarInt_def Let_def split: list.splits)

section \<open>Properties\<close>

text \<open>An integer written with any prefix size reads back, with any type bits set in the first byte and anything
  behind it; the reader refuses exactly the integers whose part beyond the prefix needs the 64th bit.\<close>

theorem VarInt_round_trip:
  assumes "1 \<le> n" "n \<le> 8" "f AND mask n = 0"
  shows "readVarInt n (set_first f (appendVarInt [] n i) @ rest) =
    (if i < prefix_max n \<or> unat (i - prefix_max n) < 2 ^ 63 then Return (i, rest) else Fail errVarintOverflow)"
  using readVarInt_appendVarInt [OF assms] by (simp add: readable_def)

theorem VarInt_round_trip_witness:
  "readVarInt 5 (set_first 0x20 (appendVarInt [] 5 1337) @ [9]) = Return (1337, [9])"
proof -
  have m: "(0x20 :: u8) AND mask 5 = 0" by code_simp
  have "(1337 :: u64) < prefix_max 5 \<or> unat (1337 - prefix_max 5) < 2 ^ 63" by (simp add: prefix_max_def)
  then show ?thesis using VarInt_round_trip [OF _ _ m, of 1337 "[9]"] by simp
qed

end
