(* ===== verification/HPACK_Table.thy ===== *)
theory HPACK_Table
  imports HPACK_Int
begin

text \<open>
  The header field tables of \<open>src/http2/hpack\<close>: \<open>headerFieldTable\<close> and the static table of \<open>tables.go\<close>, and
  \<open>dynamicTable\<close> of \<open>hpack.go\<close>.  A table is its entries, oldest first, the number of entries evicted so far and two
  indices from names and from pairs to the id of the newest matching entry.  The ids are 64 bit words, the sizes
  32 bit words, and both wrap as in Go.  The invariant \<open>table_ok\<close> says that the indices are exactly what a linear
  search would find; \<open>dynamic_ok\<close> adds that the recorded size is the sum of the entry sizes and within the maximum.
\<close>

section \<open>Header fields\<close>

record HeaderField =
  HName :: bytes
  HValue :: bytes
  Sensitive :: bool

definition IsPseudo :: "HeaderField \<Rightarrow> bool" where
  "IsPseudo hf \<longleftrightarrow> length (HName hf) \<noteq> 0 \<and> HName hf ! 0 = 58"

definition HeaderField_Size :: "HeaderField \<Rightarrow> u32" where
  "HeaderField_Size hf = of_nat (length (HName hf) + length (HValue hf) + 32)"

section \<open>Tables\<close>

type_synonym pairNameValue = "bytes \<times> bytes"

record headerFieldTable =
  ents :: "HeaderField list"
  evictCount :: u64
  byName :: "bytes \<rightharpoonup> u64"
  byNameValue :: "pairNameValue \<rightharpoonup> u64"

text \<open>\<open>m[k]\<close> of a Go map with integer values: zero when the key is missing.\<close>

definition map_get :: "('k \<rightharpoonup> u64) \<Rightarrow> 'k \<Rightarrow> u64" where
  "map_get m k = (case m k of None \<Rightarrow> 0 | Some v \<Rightarrow> v)"

definition pair_of :: "HeaderField \<Rightarrow> pairNameValue" where
  "pair_of f = (HName f, HValue f)"

definition table_init :: headerFieldTable where
  "table_init = \<lparr>ents = [], evictCount = 0, byName = (\<lambda>_. None), byNameValue = (\<lambda>_. None)\<rparr>"

definition table_len :: "headerFieldTable \<Rightarrow> nat" where
  "table_len t = length (ents t)"

definition addEntry :: "headerFieldTable \<Rightarrow> HeaderField \<Rightarrow> headerFieldTable" where
  "addEntry t f =
     (let id = of_nat (table_len t) + evictCount t + 1 in
      t\<lparr>byName := (byName t)(HName f \<mapsto> id), byNameValue := (byNameValue t)(pair_of f \<mapsto> id), ents := ents t @ [f]\<rparr>)"

text \<open>The body of the loop in \<open>evictOldest\<close>, for one of the two indices.\<close>

definition forget :: "(HeaderField \<Rightarrow> 'k) \<Rightarrow> u64 \<Rightarrow> HeaderField list \<Rightarrow> ('k \<rightharpoonup> u64) \<Rightarrow> nat \<Rightarrow> 'k \<rightharpoonup> u64" where
  "forget key c es m k =
     (let f = es ! k; id = c + of_nat k + 1 in
      if map_get m (key f) = id then m(key f := None) else m)"

definition evictOldest :: "nat \<Rightarrow> headerFieldTable \<Rightarrow> headerFieldTable hpack" where
  "evictOldest n t =
     (if n > table_len t then Panic
      else
        let t = t\<lparr>byName := foldl (forget HName (evictCount t) (ents t)) (byName t) [0..<n],
                  byNameValue := foldl (forget pair_of (evictCount t) (ents t)) (byNameValue t) [0..<n]\<rparr>;
            t = t\<lparr>ents := drop n (ents t)\<rparr> in
        if evictCount t + of_nat n < evictCount t then Panic
        else Return (t\<lparr>evictCount := evictCount t + of_nat n\<rparr>))"

text \<open>The comparison of \<open>t\<close> with the pointer \<open>staticTable\<close> is the argument \<open>static\<close>.\<close>

definition idToIndex :: "bool \<Rightarrow> headerFieldTable \<Rightarrow> u64 \<Rightarrow> u64 hpack" where
  "idToIndex static t i =
     (if i \<le> evictCount t then Panic
      else let k = i - evictCount t - 1 in
        if \<not> static then Return (of_nat (table_len t) - k) else Return (k + 1))"

definition search :: "bool \<Rightarrow> headerFieldTable \<Rightarrow> HeaderField \<Rightarrow> (u64 \<times> bool) hpack" where
  "search static t f =
     (if \<not> Sensitive f \<and> map_get (byNameValue t) (pair_of f) \<noteq> 0
      then bind_outcome (idToIndex static t (map_get (byNameValue t) (pair_of f))) (\<lambda>i. Return (i, True))
      else if map_get (byName t) (HName f) \<noteq> 0
      then bind_outcome (idToIndex static t (map_get (byName t) (HName f))) (\<lambda>i. Return (i, False))
      else Return (0, False))"

section \<open>The static table\<close>

definition static_field :: "string \<times> string \<Rightarrow> HeaderField" where
  "static_field p = \<lparr>HName = bytes_of (fst p), HValue = bytes_of (snd p), Sensitive = False\<rparr>"

definition staticTableEntries :: "HeaderField list" where
  "staticTableEntries = map static_field
    [('':authority'', ''''),
     ('':method'', ''GET''),
     ('':method'', ''POST''),
     ('':path'', ''/''),
     ('':path'', ''/index.html''),
     ('':scheme'', ''http''),
     ('':scheme'', ''https''),
     ('':status'', ''200''),
     ('':status'', ''204''),
     ('':status'', ''206''),
     ('':status'', ''304''),
     ('':status'', ''400''),
     ('':status'', ''404''),
     ('':status'', ''500''),
     (''accept-charset'', ''''),
     (''accept-encoding'', ''gzip, deflate''),
     (''accept-language'', ''''),
     (''accept-ranges'', ''''),
     (''accept'', ''''),
     (''access-control-allow-origin'', ''''),
     (''age'', ''''),
     (''allow'', ''''),
     (''authorization'', ''''),
     (''cache-control'', ''''),
     (''content-disposition'', ''''),
     (''content-encoding'', ''''),
     (''content-language'', ''''),
     (''content-length'', ''''),
     (''content-location'', ''''),
     (''content-range'', ''''),
     (''content-type'', ''''),
     (''cookie'', ''''),
     (''date'', ''''),
     (''etag'', ''''),
     (''expect'', ''''),
     (''expires'', ''''),
     (''from'', ''''),
     (''host'', ''''),
     (''if-match'', ''''),
     (''if-modified-since'', ''''),
     (''if-none-match'', ''''),
     (''if-range'', ''''),
     (''if-unmodified-since'', ''''),
     (''last-modified'', ''''),
     (''link'', ''''),
     (''location'', ''''),
     (''max-forwards'', ''''),
     (''proxy-authenticate'', ''''),
     (''proxy-authorization'', ''''),
     (''range'', ''''),
     (''referer'', ''''),
     (''refresh'', ''''),
     (''retry-after'', ''''),
     (''server'', ''''),
     (''set-cookie'', ''''),
     (''strict-transport-security'', ''''),
     (''transfer-encoding'', ''''),
     (''user-agent'', ''''),
     (''vary'', ''''),
     (''via'', ''''),
     (''www-authenticate'', '''')]"

definition newStaticTable :: headerFieldTable where
  "newStaticTable = foldl addEntry table_init staticTableEntries"

abbreviation staticTable :: headerFieldTable where
  "staticTable \<equiv> newStaticTable"

section \<open>The dynamic table\<close>

record dynamicTable =
  dt_table :: headerFieldTable
  dt_size :: u32
  maxSize :: u32
  allowedMaxSize :: u32

text \<open>The loop of \<open>evict\<close> over the entries from the oldest: the size left and the number to evict.\<close>

fun evict_loop :: "u32 \<Rightarrow> u32 \<Rightarrow> HeaderField list \<Rightarrow> u32 \<times> nat" where
  "evict_loop sz mx [] = (sz, 0)"
| "evict_loop sz mx (f # fs) =
     (if sz > mx then let (sz, n) = evict_loop (sz - HeaderField_Size f) mx fs in (sz, n + 1) else (sz, 0))"

definition evict :: "dynamicTable \<Rightarrow> dynamicTable hpack" where
  "evict dt =
     (let (sz, n) = evict_loop (dt_size dt) (maxSize dt) (ents (dt_table dt)) in
      bind_outcome (evictOldest n (dt_table dt)) (\<lambda>t. Return (dt\<lparr>dt_table := t, dt_size := sz\<rparr>)))"

definition setMaxSize :: "dynamicTable \<Rightarrow> u32 \<Rightarrow> dynamicTable hpack" where
  "setMaxSize dt v = evict (dt\<lparr>maxSize := v\<rparr>)"

definition dynamic_add :: "dynamicTable \<Rightarrow> HeaderField \<Rightarrow> dynamicTable hpack" where
  "dynamic_add dt f = evict (dt\<lparr>dt_table := addEntry (dt_table dt) f, dt_size := dt_size dt + HeaderField_Size f\<rparr>)"

section \<open>The indices agree with linear search\<close>

text \<open>The position of the last element with a property.\<close>

primrec newest :: "('a \<Rightarrow> bool) \<Rightarrow> 'a list \<Rightarrow> nat option" where
  "newest P [] = None"
| "newest P (x # xs) = (case newest P xs of Some k \<Rightarrow> Some (Suc k) | None \<Rightarrow> if P x then Some 0 else None)"

lemma newest_snoc: "newest P (xs @ [x]) = (if P x then Some (length xs) else newest P xs)"
  by (induction xs) auto

lemma newest_SomeD: "newest P xs = Some k \<Longrightarrow> k < length xs \<and> P (xs ! k) \<and> (\<forall>j < length xs. P (xs ! j) \<longrightarrow> j \<le> k)"
proof (induction xs arbitrary: k)
  case (Cons x xs)
  show ?case
  proof (cases "newest P xs")
    case None
    then have "\<not> P y" if "y \<in> set xs" for y
      using that by (induction xs) (auto split: option.splits if_splits)
    then show ?thesis using Cons.prems None by (auto split: if_splits simp: nth_Cons' intro: leI)
  next
    case (Some j)
    then show ?thesis using Cons.IH [OF Some] Cons.prems by (auto simp: less_Suc_eq_0_disj)
  qed
qed simp

lemma newest_None: "newest P xs = None \<longleftrightarrow> (\<forall>x \<in> set xs. \<not> P x)"
  by (induction xs) (auto split: option.splits)

lemma newest_drop:
  "newest P (drop n xs) = (case newest P xs of None \<Rightarrow> None | Some k \<Rightarrow> if n \<le> k then Some (k - n) else None)"
proof (induction n arbitrary: xs)
  case 0
  then show ?case by (simp split: option.splits)
next
  case (Suc n)
  show ?case using Suc.IH [of "tl xs"] by (cases xs) (auto split: option.splits)
qed

text \<open>\<open>index_ok key c es m\<close>: \<open>m\<close> maps each key to the id of the newest entry that has it.\<close>

definition index_ok :: "(HeaderField \<Rightarrow> 'k) \<Rightarrow> u64 \<Rightarrow> HeaderField list \<Rightarrow> ('k \<rightharpoonup> u64) \<Rightarrow> bool" where
  "index_ok key c es m \<longleftrightarrow> (\<forall>q. m q = map_option (\<lambda>k. c + of_nat k + 1) (newest (\<lambda>f. key f = q) es))"

lemma index_ok_add: "index_ok key c es m \<Longrightarrow> index_ok key c (es @ [f]) (m(key f \<mapsto> of_nat (length es) + c + 1))"
  by (auto simp: index_ok_def newest_snoc add.commute)

lemma unat_id: "unat c + k + 1 < 2 ^ 64 \<Longrightarrow> unat ((c :: u64) + of_nat k + 1) = unat c + k + 1"
proof -
  assume b: "unat c + k + 1 < 2 ^ 64"
  have "c + of_nat k + 1 = of_nat (unat c + k + 1)" by simp
  then have "unat (c + of_nat k + 1) = (unat c + k + 1) mod 2 ^ 64" by (simp only: unat_of_nat) simp
  then show ?thesis using b by simp
qed

lemma id_facts:
  assumes "unat c + length es < 2 ^ 64" "i < length es"
  shows "unat ((c :: u64) + of_nat i + 1) = unat c + i + 1" "c + of_nat i + 1 \<noteq> 0"
proof -
  show u: "unat (c + of_nat i + 1) = unat c + i + 1" using assms by (intro unat_id) simp
  show "c + of_nat i + 1 \<noteq> 0"
  proof
    assume "c + of_nat i + 1 = 0"
    then have "unat (c + of_nat i + 1) = 0" by (simp only: unsigned_0)
    then show False using u by simp
  qed
qed

lemma id_inj: "\<lbrakk>unat c + length es < 2 ^ 64; i < length es; j < length es\<rbrakk> \<Longrightarrow>
    (c :: u64) + of_nat i + 1 = c + of_nat j + 1 \<longleftrightarrow> i = j"
  using id_facts(1) [of c es i] id_facts(1) [of c es j] by (metis add_left_cancel add_right_cancel)

lemma forget_loop:
  assumes "index_ok key c es m" "unat c + length es < 2 ^ 64" "n \<le> length es"
  shows "foldl (forget key c es) m [0..<n] q =
    (case newest (\<lambda>f. key f = q) es of None \<Rightarrow> None | Some k \<Rightarrow> if n \<le> k then Some (c + of_nat k + 1) else None)"
  using assms(3)
proof (induction n arbitrary: q)
  case 0
  then show ?case using assms(1) by (simp add: index_ok_def split: option.splits)
next
  case (Suc n)
  let ?m = "foldl (forget key c es) m [0..<n]" and ?f = "es ! n"
  have IH: "?m q = (case newest (\<lambda>f. key f = q) es of None \<Rightarrow> None | Some k \<Rightarrow> if n \<le> k then Some (c + of_nat k + 1) else None)" for q
    using Suc by simp
  obtain i where i: "newest (\<lambda>f. key f = key ?f) es = Some i" "n \<le> i" "i < length es"
  proof (cases "newest (\<lambda>f. key f = key ?f) es")
    case None
    then show ?thesis using Suc.prems by (auto simp: newest_None)
  next
    case (Some i)
    then show ?thesis using that newest_SomeD [OF Some] Suc.prems by simp
  qed
  have "map_get ?m (key ?f) = c + of_nat i + 1" using IH [of "key ?f"] i by (simp add: map_get_def)
  then have hit: "map_get ?m (key ?f) = c + of_nat n + 1 \<longleftrightarrow> i = n"
    using id_inj [OF assms(2) i(3), of n] Suc.prems by simp
  have other: "k \<noteq> n" if "newest (\<lambda>f. key f = q) es = Some k" "q \<noteq> key ?f" for k
    using newest_SomeD [OF that(1)] that(2) by auto
  have step: "foldl (forget key c es) m [0..<Suc n] = (if map_get ?m (key ?f) = c + of_nat n + 1 then ?m(key ?f := None) else ?m)"
    by (simp add: forget_def [of key c es ?m n] Let_def)
  show ?case
  proof (cases "q = key ?f")
    case True
    then show ?thesis unfolding step using i hit IH [of q] by auto
  next
    case False
    then show ?thesis unfolding step using IH [of q] other [OF _ False] by (auto split: option.splits)
  qed
qed

lemma index_ok_evict:
  assumes "index_ok key c es m" "unat c + length es < 2 ^ 64" "n \<le> length es"
  shows "index_ok key (c + of_nat n) (drop n es) (foldl (forget key c es) m [0..<n])"
  unfolding index_ok_def
proof
  fix q
  show "foldl (forget key c es) m [0..<n] q =
      map_option (\<lambda>k. c + of_nat n + of_nat k + 1) (newest (\<lambda>f. key f = q) (drop n es))"
    using forget_loop [OF assms, of q] by (auto simp: newest_drop of_nat_diff split: option.splits)
qed

section \<open>The invariant\<close>

definition added :: "headerFieldTable \<Rightarrow> nat" where
  "added t = unat (evictCount t) + length (ents t)"

definition table_ok :: "headerFieldTable \<Rightarrow> bool" where
  "table_ok t \<longleftrightarrow> added t < 2 ^ 64 \<and> index_ok HName (evictCount t) (ents t) (byName t) \<and>
     index_ok pair_of (evictCount t) (ents t) (byNameValue t)"

lemma table_ok_init [simp]: "table_ok table_init" "added table_init = 0" "ents table_init = []"
  by (simp_all add: table_ok_def table_init_def index_ok_def added_def)

lemma addEntry_simps [simp]: "ents (addEntry t f) = ents t @ [f]" "evictCount (addEntry t f) = evictCount t"
  "added (addEntry t f) = Suc (added t)"
  by (simp_all add: addEntry_def Let_def added_def)

lemma table_ok_addEntry: "\<lbrakk>table_ok t; added t + 1 < 2 ^ 64\<rbrakk> \<Longrightarrow> table_ok (addEntry t f)"
  by (simp add: table_ok_def) (simp add: addEntry_def Let_def table_len_def index_ok_add)

lemma evictOldest_ok:
  assumes "table_ok t" "n \<le> length (ents t)"
  obtains t' where "evictOldest n t = Return t'" "table_ok t'" "ents t' = drop n (ents t)" "added t' = added t"
proof -
  let ?c = "evictCount t"
  have b: "unat ?c + length (ents t) < 2 ^ 64" using assms(1) by (simp add: table_ok_def added_def)
  have u: "unat (?c + of_nat n) = unat ?c + n"
    using b assms(2) by (simp add: unat_word_ariths unat_of_nat)
  then have no: "\<not> ?c + of_nat n < ?c" by (simp add: word_less_nat_alt)
  let ?t = "t\<lparr>byName := foldl (forget HName ?c (ents t)) (byName t) [0..<n],
      byNameValue := foldl (forget pair_of ?c (ents t)) (byNameValue t) [0..<n],
      ents := drop n (ents t), evictCount := ?c + of_nat n\<rparr>"
  have "evictOldest n t = Return ?t" using assms(2) no by (simp add: evictOldest_def table_len_def Let_def)
  moreover have "added ?t = added t" using u assms(2) by (simp add: added_def)
  moreover have "table_ok ?t"
    using assms index_ok_evict [OF _ b assms(2), of HName] index_ok_evict [OF _ b assms(2), of pair_of] \<open>added ?t = added t\<close> by (simp add: table_ok_def)
  ultimately show ?thesis using that [of ?t] by simp
qed

text \<open>Two tables with the same history have the same indices.\<close>

lemma index_ok_unique: "index_ok key c es m \<Longrightarrow> index_ok key c es m' \<Longrightarrow> m = m'"
  by (auto simp: index_ok_def)

section \<open>Searching\<close>

text \<open>What \<open>search\<close> has to return, by linear search.\<close>

definition index_at :: "bool \<Rightarrow> headerFieldTable \<Rightarrow> nat \<Rightarrow> nat" where
  "index_at static t k = (if static then k + 1 else length (ents t) - k)"

definition lookup_field :: "bool \<Rightarrow> headerFieldTable \<Rightarrow> HeaderField \<Rightarrow> nat \<times> bool" where
  "lookup_field static t f =
     (case (if Sensitive f then None else newest (\<lambda>g. pair_of g = pair_of f) (ents t)) of
        Some k \<Rightarrow> (index_at static t k, True)
      | None \<Rightarrow> (case newest (\<lambda>g. HName g = HName f) (ents t) of
          Some k \<Rightarrow> (index_at static t k, False)
        | None \<Rightarrow> (0, False)))"

lemma idToIndex_ok:
  assumes "added t < 2 ^ 64" "k < length (ents t)"
  shows "idToIndex static t (evictCount t + of_nat k + 1) = Return (of_nat (index_at static t k))"
proof -
  have u: "unat (evictCount t + of_nat k + 1) = unat (evictCount t) + k + 1"
    using assms by (intro unat_id) (simp add: added_def)
  have "\<not> evictCount t + of_nat k + 1 \<le> evictCount t" using u by (simp add: word_le_nat_alt)
  then show ?thesis using assms(2) by (simp add: idToIndex_def Let_def table_len_def index_at_def of_nat_diff)
qed

lemma map_get_index:
  assumes "index_ok key c es m" "unat c + length es < 2 ^ 64"
  shows "map_get m q = (case newest (\<lambda>f. key f = q) es of None \<Rightarrow> 0 | Some k \<Rightarrow> c + of_nat k + 1)"
    "map_get m q = 0 \<longleftrightarrow> newest (\<lambda>f. key f = q) es = None"
proof -
  show g: "map_get m q = (case newest (\<lambda>f. key f = q) es of None \<Rightarrow> 0 | Some k \<Rightarrow> c + of_nat k + 1)"
    using assms(1) by (simp add: index_ok_def map_get_def split: option.splits)
  show "map_get m q = 0 \<longleftrightarrow> newest (\<lambda>f. key f = q) es = None"
    using g id_facts(2) [OF assms(2)] by (auto split: option.splits dest: newest_SomeD)
qed

lemma search_ok:
  assumes "table_ok t"
  shows "search static t f = Return (of_nat (fst (lookup_field static t f)), snd (lookup_field static t f))"
proof -
  have b: "added t < 2 ^ 64" "unat (evictCount t) + length (ents t) < 2 ^ 64"
    using assms by (auto simp: table_ok_def added_def)
  note n = map_get_index [OF _ b(2), of HName "byName t" "HName f"]
    and p = map_get_index [OF _ b(2), of pair_of "byNameValue t" "pair_of f"]
  have i: "idToIndex static t (evictCount t + of_nat k + 1) = Return (of_nat (index_at static t k))"
    if "newest P (ents t) = Some k" for P k
    using newest_SomeD [OF that] idToIndex_ok [OF b(1)] by blast
  show ?thesis using assms n p i
    by (auto simp: search_def table_ok_def lookup_field_def split: option.splits)
qed

section \<open>The dynamic table\<close>

abbreviation table_bytes :: "HeaderField list \<Rightarrow> u32" where
  "table_bytes fs \<equiv> sum_list (map HeaderField_Size fs)"

definition dynamic_ok :: "dynamicTable \<Rightarrow> bool" where
  "dynamic_ok dt \<longleftrightarrow> table_ok (dt_table dt) \<and> dt_size dt = table_bytes (ents (dt_table dt)) \<and> dt_size dt \<le> maxSize dt"

lemma evict_loop_ok:
  "\<lbrakk>evict_loop sz mx fs = (sz', n); sz = table_bytes fs\<rbrakk> \<Longrightarrow> n \<le> length fs \<and> sz' = table_bytes (drop n fs) \<and> sz' \<le> mx"
proof (induction sz mx fs arbitrary: sz' n rule: evict_loop.induct)
  case (2 sz mx f fs)
  then show ?case by (auto split: if_splits prod.splits)
qed simp

text \<open>The number of entries \<open>evict\<close> removes: the least that brings the size of the rest within the maximum.\<close>

lemma evict_loop_least:
  "\<lbrakk>evict_loop (table_bytes fs) mx fs = (sz', n); k < n\<rbrakk> \<Longrightarrow> mx < table_bytes (drop k fs)"
proof (induction fs arbitrary: sz' n k)
  case (Cons f fs)
  then show ?case by (cases k) (auto split: if_splits prod.splits)
qed simp

lemma evict_ok:
  assumes "table_ok (dt_table dt)" "dt_size dt = table_bytes (ents (dt_table dt))"
  obtains dt' where "evict dt = Return dt'" "dynamic_ok dt'" "maxSize dt' = maxSize dt" "allowedMaxSize dt' = allowedMaxSize dt"
    "ents (dt_table dt') = drop (snd (evict_loop (dt_size dt) (maxSize dt) (ents (dt_table dt)))) (ents (dt_table dt))"
    "added (dt_table dt') = added (dt_table dt)"
proof -
  obtain sz n where e: "evict_loop (dt_size dt) (maxSize dt) (ents (dt_table dt)) = (sz, n)" by fastforce
  have l: "n \<le> length (ents (dt_table dt))" "sz = table_bytes (drop n (ents (dt_table dt)))" "sz \<le> maxSize dt"
    using evict_loop_ok [OF e assms(2)] by auto
  obtain t where "evictOldest n (dt_table dt) = Return t" "table_ok t" "ents t = drop n (ents (dt_table dt))"
    "added t = added (dt_table dt)"
    using evictOldest_ok [OF assms(1) l(1)] by blast
  then show ?thesis using that [of "dt\<lparr>dt_table := t, dt_size := sz\<rparr>"] e l
    by (simp add: evict_def dynamic_ok_def)
qed

lemma setMaxSize_ok:
  assumes "dynamic_ok dt"
  obtains dt' where "setMaxSize dt v = Return dt'" "dynamic_ok dt'" "maxSize dt' = v" "allowedMaxSize dt' = allowedMaxSize dt"
    "ents (dt_table dt') = drop (snd (evict_loop (dt_size dt) v (ents (dt_table dt)))) (ents (dt_table dt))"
    "added (dt_table dt') = added (dt_table dt)"
proof -
  have "table_ok (dt_table (dt\<lparr>maxSize := v\<rparr>))" "dt_size (dt\<lparr>maxSize := v\<rparr>) = table_bytes (ents (dt_table (dt\<lparr>maxSize := v\<rparr>)))"
    using assms by (simp_all add: dynamic_ok_def)
  from evict_ok [OF this] show ?thesis using that by (auto simp: setMaxSize_def)
qed

lemma dynamic_add_ok:
  assumes "dynamic_ok dt" "added (dt_table dt) + 1 < 2 ^ 64"
  obtains dt' where "dynamic_add dt f = Return dt'" "dynamic_ok dt'" "maxSize dt' = maxSize dt" "allowedMaxSize dt' = allowedMaxSize dt"
    "ents (dt_table dt') = drop (snd (evict_loop (dt_size dt + HeaderField_Size f) (maxSize dt) (ents (dt_table dt) @ [f]))) (ents (dt_table dt) @ [f])"
    "added (dt_table dt') = added (dt_table dt) + 1"
proof -
  let ?dt = "dt\<lparr>dt_table := addEntry (dt_table dt) f, dt_size := dt_size dt + HeaderField_Size f\<rparr>"
  have "table_ok (dt_table ?dt)" "dt_size ?dt = table_bytes (ents (dt_table ?dt))"
    using assms table_ok_addEntry by (simp_all add: dynamic_ok_def)
  from evict_ok [OF this] show ?thesis using that by (auto simp: dynamic_add_def)
qed

section \<open>The static table\<close>

lemma foldl_addEntry: "\<lbrakk>table_ok t; added t + length fs < 2 ^ 64\<rbrakk> \<Longrightarrow>
    table_ok (foldl addEntry t fs) \<and> ents (foldl addEntry t fs) = ents t @ fs \<and> evictCount (foldl addEntry t fs) = evictCount t"
proof (induction fs arbitrary: t)
  case (Cons f fs)
  have "table_ok (addEntry t f)" using Cons.prems by (intro table_ok_addEntry) auto
  then show ?case using Cons.IH [of "addEntry t f"] Cons.prems by simp
qed simp

lemma length_static [simp]: "length staticTableEntries = 61"
  by (simp add: staticTableEntries_def)

lemma static_ok [simp]: "table_ok staticTable" "ents staticTable = staticTableEntries"
  using foldl_addEntry [of table_init staticTableEntries] by (simp_all add: newStaticTable_def)

section \<open>Tables over their life\<close>

definition zero_dynamicTable :: dynamicTable where
  "zero_dynamicTable = \<lparr>dt_table = table_init, dt_size = 0, maxSize = 0, allowedMaxSize = 0\<rparr>"

lemma zero_dynamicTable_ok [simp]: "dynamic_ok zero_dynamicTable" "dt_table zero_dynamicTable = table_init"
  by (simp_all add: dynamic_ok_def zero_dynamicTable_def)

text \<open>The dynamic tables reached by any calls with \<open>n\<close> insertions among them.\<close>

inductive dynamic_reach :: "nat \<Rightarrow> dynamicTable \<Rightarrow> bool" where
  fresh: "dynamic_reach 0 zero_dynamicTable"
| insert: "\<lbrakk>dynamic_reach n dt; dynamic_add dt f = Return dt'\<rbrakk> \<Longrightarrow> dynamic_reach (Suc n) dt'"
| resize: "\<lbrakk>dynamic_reach n dt; setMaxSize dt v = Return dt'\<rbrakk> \<Longrightarrow> dynamic_reach n dt'"
| allow: "dynamic_reach n dt \<Longrightarrow> dynamic_reach n (dt\<lparr>allowedMaxSize := v\<rparr>)"

lemma dynamic_reach_ok: "dynamic_reach n dt \<Longrightarrow> n < 2 ^ 64 \<Longrightarrow> dynamic_ok dt \<and> added (dt_table dt) = n"
proof (induction rule: dynamic_reach.induct)
  case (insert n dt f dt')
  then have ok: "dynamic_ok dt" "added (dt_table dt) + 1 < 2 ^ 64" and n: "added (dt_table dt) = n" by auto
  from ok show ?case by (rule dynamic_add_ok [of dt f]) (use insert.hyps(2) n in auto)
next
  case (resize n dt v dt')
  then have ok: "dynamic_ok dt" and n: "added (dt_table dt) = n" by auto
  from ok show ?case by (rule setMaxSize_ok [of dt v]) (use resize.hyps(2) n in auto)
qed (auto simp: dynamic_ok_def zero_dynamicTable_def)

section \<open>Properties\<close>

text \<open>C10: In every dynamic table reached by fewer than \<open>2 ^ 64\<close> insertions and any resizings, the hashed \<open>search\<close> returns what a linear
  search from the newest entry finds (the pair unless the field is sensitive, else the name, else nothing) without
  panicking, the recorded size is the sum of the entry sizes modulo \<open>2 ^ 32\<close>, and it is within the maximum.\<close>

theorem dynamicTable_search:
  assumes "dynamic_reach n dt" "n < 2 ^ 64"
  shows "search False (dt_table dt) f =
      Return (of_nat (fst (lookup_field False (dt_table dt) f)), snd (lookup_field False (dt_table dt) f)) \<and>
    dt_size dt = table_bytes (ents (dt_table dt)) \<and> dt_size dt \<le> maxSize dt"
  using dynamic_reach_ok [OF assms] search_ok [of "dt_table dt" False f] by (auto simp: dynamic_ok_def)

theorem dynamicTable_search_witness:
  "\<exists>dt f. dynamic_reach 1 dt \<and> ents (dt_table dt) \<noteq> [] \<and> search False (dt_table dt) f = Return (1, True)"
proof -
  let ?f = "\<lparr>HName = [120], HValue = [121], Sensitive = False\<rparr>"
  obtain t where t: "setMaxSize zero_dynamicTable 100 = Return t" "dynamic_ok t" "maxSize t = 100" "ents (dt_table t) = []"
    "added (dt_table t) = 0"
    by (rule setMaxSize_ok [of zero_dynamicTable 100]) auto
  then have sz: "dt_size t = 0" by (simp add: dynamic_ok_def)
  obtain dt where dt: "dynamic_add t ?f = Return dt" "ents (dt_table dt) = [?f]"
    by (rule dynamic_add_ok [OF t(2), of ?f]) (use t sz in \<open>auto simp: HeaderField_Size_def\<close>)
  have r: "dynamic_reach 1 dt" using insert [OF resize [OF fresh t(1)] dt(1)] by simp
  then have "search False (dt_table dt) ?f = Return (1, True)"
    using dynamicTable_search [of 1 dt ?f] dt(2) by (simp add: lookup_field_def index_at_def)
  then show ?thesis using r dt(2) by (intro exI [of _ dt] exI [of _ ?f]) simp
qed

end
