(* ===== verification/HPACK_Huffman.thy ===== *)
theory HPACK_Huffman
  imports HPACK_Int "HOL-Library.Sublist"
begin

text \<open>
  The Huffman coding of \<open>src/http2/hpack/huffman.go\<close> with the code table of \<open>tables.go\<close>: the decoding tree
  and its construction, the decoder that feeds it eight bits at a time, and the encoder that collects
  code bits in a 64 bit buffer.

  The specification works on bit strings: \<open>encode_bits\<close> concatenates the codes of the symbols.  A check
  of the table (\<open>prefix_free_check\<close>) shows that no code is a prefix of another; the predicate \<open>represents\<close>
  says which set of codes a tree stands for, and the construction establishes it for the whole table.
  The decoder then accepts exactly the encodings, followed by at most seven one bits of padding.
\<close>

unbundle bit_operations_syntax

section \<open>The table\<close>

definition huffmanCodes :: "u32 list" where
  "huffmanCodes =
    [0x1ff8, 0x7fffd8, 0xfffffe2, 0xfffffe3, 0xfffffe4, 0xfffffe5, 0xfffffe6, 0xfffffe7,
     0xfffffe8, 0xffffea, 0x3ffffffc, 0xfffffe9, 0xfffffea, 0x3ffffffd, 0xfffffeb, 0xfffffec,
     0xfffffed, 0xfffffee, 0xfffffef, 0xffffff0, 0xffffff1, 0xffffff2, 0x3ffffffe, 0xffffff3,
     0xffffff4, 0xffffff5, 0xffffff6, 0xffffff7, 0xffffff8, 0xffffff9, 0xffffffa, 0xffffffb,
     0x14, 0x3f8, 0x3f9, 0xffa, 0x1ff9, 0x15, 0xf8, 0x7fa,
     0x3fa, 0x3fb, 0xf9, 0x7fb, 0xfa, 0x16, 0x17, 0x18,
     0x0, 0x1, 0x2, 0x19, 0x1a, 0x1b, 0x1c, 0x1d,
     0x1e, 0x1f, 0x5c, 0xfb, 0x7ffc, 0x20, 0xffb, 0x3fc,
     0x1ffa, 0x21, 0x5d, 0x5e, 0x5f, 0x60, 0x61, 0x62,
     0x63, 0x64, 0x65, 0x66, 0x67, 0x68, 0x69, 0x6a,
     0x6b, 0x6c, 0x6d, 0x6e, 0x6f, 0x70, 0x71, 0x72,
     0xfc, 0x73, 0xfd, 0x1ffb, 0x7fff0, 0x1ffc, 0x3ffc, 0x22,
     0x7ffd, 0x3, 0x23, 0x4, 0x24, 0x5, 0x25, 0x26,
     0x27, 0x6, 0x74, 0x75, 0x28, 0x29, 0x2a, 0x7,
     0x2b, 0x76, 0x2c, 0x8, 0x9, 0x2d, 0x77, 0x78,
     0x79, 0x7a, 0x7b, 0x7ffe, 0x7fc, 0x3ffd, 0x1ffd, 0xffffffc,
     0xfffe6, 0x3fffd2, 0xfffe7, 0xfffe8, 0x3fffd3, 0x3fffd4, 0x3fffd5, 0x7fffd9,
     0x3fffd6, 0x7fffda, 0x7fffdb, 0x7fffdc, 0x7fffdd, 0x7fffde, 0xffffeb, 0x7fffdf,
     0xffffec, 0xffffed, 0x3fffd7, 0x7fffe0, 0xffffee, 0x7fffe1, 0x7fffe2, 0x7fffe3,
     0x7fffe4, 0x1fffdc, 0x3fffd8, 0x7fffe5, 0x3fffd9, 0x7fffe6, 0x7fffe7, 0xffffef,
     0x3fffda, 0x1fffdd, 0xfffe9, 0x3fffdb, 0x3fffdc, 0x7fffe8, 0x7fffe9, 0x1fffde,
     0x7fffea, 0x3fffdd, 0x3fffde, 0xfffff0, 0x1fffdf, 0x3fffdf, 0x7fffeb, 0x7fffec,
     0x1fffe0, 0x1fffe1, 0x3fffe0, 0x1fffe2, 0x7fffed, 0x3fffe1, 0x7fffee, 0x7fffef,
     0xfffea, 0x3fffe2, 0x3fffe3, 0x3fffe4, 0x7ffff0, 0x3fffe5, 0x3fffe6, 0x7ffff1,
     0x3ffffe0, 0x3ffffe1, 0xfffeb, 0x7fff1, 0x3fffe7, 0x7ffff2, 0x3fffe8, 0x1ffffec,
     0x3ffffe2, 0x3ffffe3, 0x3ffffe4, 0x7ffffde, 0x7ffffdf, 0x3ffffe5, 0xfffff1, 0x1ffffed,
     0x7fff2, 0x1fffe3, 0x3ffffe6, 0x7ffffe0, 0x7ffffe1, 0x3ffffe7, 0x7ffffe2, 0xfffff2,
     0x1fffe4, 0x1fffe5, 0x3ffffe8, 0x3ffffe9, 0xffffffd, 0x7ffffe3, 0x7ffffe4, 0x7ffffe5,
     0xfffec, 0xfffff3, 0xfffed, 0x1fffe6, 0x3fffe9, 0x1fffe7, 0x1fffe8, 0x7ffff3,
     0x3fffea, 0x3fffeb, 0x1ffffee, 0x1ffffef, 0xfffff4, 0xfffff5, 0x3ffffea, 0x7ffff4,
     0x3ffffeb, 0x7ffffe6, 0x3ffffec, 0x3ffffed, 0x7ffffe7, 0x7ffffe8, 0x7ffffe9, 0x7ffffea,
     0x7ffffeb, 0xffffffe, 0x7ffffec, 0x7ffffed, 0x7ffffee, 0x7ffffef, 0x7fffff0, 0x3ffffee]"

definition huffmanCodeLen :: "nat list" where
  "huffmanCodeLen =
    [13, 23, 28, 28, 28, 28, 28, 28, 28, 24, 30, 28, 28, 30, 28, 28,
     28, 28, 28, 28, 28, 28, 30, 28, 28, 28, 28, 28, 28, 28, 28, 28,
     6, 10, 10, 12, 13, 6, 8, 11, 10, 10, 8, 11, 8, 6, 6, 6,
     5, 5, 5, 6, 6, 6, 6, 6, 6, 6, 7, 8, 15, 6, 12, 10,
     13, 6, 7, 7, 7, 7, 7, 7, 7, 7, 7, 7, 7, 7, 7, 7,
     7, 7, 7, 7, 7, 7, 7, 7, 8, 7, 8, 13, 19, 13, 14, 6,
     15, 5, 6, 5, 6, 5, 6, 6, 6, 5, 7, 7, 6, 6, 6, 5,
     6, 7, 6, 5, 5, 6, 7, 7, 7, 7, 7, 15, 11, 14, 13, 28,
     20, 22, 20, 20, 22, 22, 22, 23, 22, 23, 23, 23, 23, 23, 24, 23,
     24, 24, 22, 23, 24, 23, 23, 23, 23, 21, 22, 23, 22, 23, 23, 24,
     22, 21, 20, 22, 22, 23, 23, 21, 23, 22, 22, 24, 21, 22, 23, 23,
     21, 21, 22, 21, 23, 22, 23, 23, 20, 22, 22, 22, 23, 22, 22, 23,
     26, 26, 20, 19, 22, 23, 22, 25, 26, 26, 26, 27, 27, 26, 24, 25,
     19, 21, 26, 27, 27, 26, 27, 24, 21, 21, 26, 26, 28, 27, 27, 27,
     20, 24, 20, 21, 22, 21, 21, 23, 22, 22, 25, 25, 24, 24, 26, 23,
     26, 27, 26, 26, 27, 27, 27, 27, 27, 28, 27, 27, 27, 27, 27, 26]"

section \<open>The decoding tree\<close>

datatype node = Leaf nat u8 | Internal "node option list"

text \<open>\<open>new([256]*node)\<close>\<close>

definition newInternalNode :: "node option list" where
  "newInternalNode = replicate 256 None"

text \<open>Inserting one code below the children of a node.  Following a child that is a leaf would be a nil
  dereference.\<close>

function insert_code :: "nat \<Rightarrow> u32 \<Rightarrow> u8 \<Rightarrow> node option list \<Rightarrow> node option list hpack" where
  "insert_code codeLen code symb children =
     (if codeLen > 8 then
        let codeLen = codeLen - 8; i = unat (ucast (drop_bit codeLen code) :: u8) in
        case children ! i of
          None \<Rightarrow> bind_outcome (insert_code codeLen code symb newInternalNode) (\<lambda>c. Return (children[i := Some (Internal c)]))
        | Some (Internal c) \<Rightarrow> bind_outcome (insert_code codeLen code symb c) (\<lambda>c. Return (children[i := Some (Internal c)]))
        | Some (Leaf _ _) \<Rightarrow> Panic
      else
        let shift = 8 - codeLen; start = unat (ucast (push_bit shift code) :: u8) in
        if start + 2 ^ shift > length children then Panic
        else Return (fold (\<lambda>i ch. ch[i := Some (Leaf codeLen symb)]) [start..<start + 2 ^ shift] children))"
  by pat_completeness auto
termination by (relation "measure (\<lambda>(codeLen, _). codeLen)") auto

declare insert_code.simps [simp del]

fun build_tree :: "(u32 \<times> nat) list \<Rightarrow> u8 \<Rightarrow> node option list \<Rightarrow> node option list hpack" where
  "build_tree [] symb root = Return root"
| "build_tree ((code, codeLen) # cs) symb root =
     bind_outcome (insert_code codeLen code symb root) (build_tree cs (symb + 1))"

definition buildRootHuffmanNode :: "node option list hpack" where
  "buildRootHuffmanNode = build_tree (zip huffmanCodes huffmanCodeLen) 0 newInternalNode"

section \<open>Decoding\<close>

text \<open>The state of \<open>huffmanDecode\<close> between two steps: the children of the current node, the number of
  unread bits of \<open>cur\<close>, the number of bits of the symbol being decoded, and the output.  Codes have at
  most 30 bits, so \<open>cbits\<close> and \<open>sbits\<close> stay far below the limits of \<open>uint8\<close>.\<close>

record decode_state =
  at_node :: "node option list"
  cbits :: nat
  sbits :: nat
  out :: bytes

definition write_sym :: "node option list \<Rightarrow> nat \<Rightarrow> nat \<Rightarrow> u8 \<Rightarrow> decode_state \<Rightarrow> decode_state hpack" where
  "write_sym root maxLen codeLen symb st =
     (if maxLen \<noteq> 0 \<and> length (out st) = maxLen then Fail ErrStringLength
      else Return \<lparr>at_node = root, cbits = cbits st - codeLen, sbits = cbits st - codeLen, out = out st @ [symb]\<rparr>)"

text \<open>The loop \<open>for cbits >= 8\<close>.  Every leaf takes at least one bit, so \<open>cbits\<close> steps are enough; the
  theorems below show that the fuel never runs out.\<close>

fun full_steps :: "nat \<Rightarrow> node option list \<Rightarrow> nat \<Rightarrow> u64 \<Rightarrow> decode_state \<Rightarrow> decode_state hpack" where
  "full_steps fuel root maxLen cur st =
     (if cbits st < 8 then Return st
      else case fuel of
        0 \<Rightarrow> Panic
      | Suc fuel \<Rightarrow>
          (case at_node st ! unat (ucast (drop_bit (cbits st - 8) cur) :: u8) of
             None \<Rightarrow> Fail ErrInvalidHuffman
           | Some (Leaf codeLen symb) \<Rightarrow>
               bind_outcome (write_sym root maxLen codeLen symb st) (full_steps fuel root maxLen cur)
           | Some (Internal c) \<Rightarrow>
               full_steps fuel root maxLen cur (st\<lparr>at_node := c, cbits := cbits st - 8\<rparr>)))"

declare full_steps.simps [simp del]

fun feed_bytes :: "node option list \<Rightarrow> nat \<Rightarrow> bytes \<Rightarrow> u64 \<Rightarrow> decode_state \<Rightarrow> (u64 \<times> decode_state) hpack" where
  "feed_bytes root maxLen [] cur st = Return (cur, st)"
| "feed_bytes root maxLen (b # bs) cur st =
     (let cur = push_bit 8 cur OR ucast b;
          st = st\<lparr>cbits := cbits st + 8, sbits := sbits st + 8\<rparr>
      in bind_outcome (full_steps (cbits st) root maxLen cur st) (feed_bytes root maxLen bs cur))"

text \<open>The loop \<open>for cbits > 0\<close> on the last bits.\<close>

fun last_steps :: "nat \<Rightarrow> node option list \<Rightarrow> nat \<Rightarrow> u64 \<Rightarrow> decode_state \<Rightarrow> decode_state hpack" where
  "last_steps fuel root maxLen cur st =
     (if \<not> cbits st > 0 then Return st
      else case fuel of
        0 \<Rightarrow> Panic
      | Suc fuel \<Rightarrow>
          (case at_node st ! unat (ucast (push_bit (8 - cbits st) cur) :: u8) of
             None \<Rightarrow> Fail ErrInvalidHuffman
           | Some (Internal c) \<Rightarrow> Return st
           | Some (Leaf codeLen symb) \<Rightarrow>
               if codeLen > cbits st then Return st
               else bind_outcome (write_sym root maxLen codeLen symb st) (last_steps fuel root maxLen cur)))"

declare last_steps.simps [simp del]

definition huffmanDecode :: "nat \<Rightarrow> bytes \<Rightarrow> bytes hpack" where
  "huffmanDecode maxLen v =
     bind_outcome buildRootHuffmanNode (\<lambda>root.
     bind_outcome (feed_bytes root maxLen v 0 \<lparr>at_node = root, cbits = 0, sbits = 0, out = []\<rparr>) (\<lambda>(cur, st).
     bind_outcome (last_steps (cbits st) root maxLen cur st) (\<lambda>st.
     if sbits st > 7 then Fail ErrInvalidHuffman
     else if cur AND (push_bit (cbits st) 1 - 1) \<noteq> push_bit (cbits st) 1 - 1 then Fail ErrInvalidHuffman
     else Return (out st))))"

definition HuffmanDecodeToString :: "bytes \<Rightarrow> bytes hpack" where
  "HuffmanDecodeToString v = huffmanDecode 0 v"

section \<open>Encoding\<close>

fun encode_loop :: "bytes \<Rightarrow> u64 \<Rightarrow> nat \<Rightarrow> bytes \<Rightarrow> u64 \<times> nat \<times> bytes" where
  "encode_loop [] x n dst = (x, n, dst)"
| "encode_loop (c # s) x n dst =
     (let n = n + huffmanCodeLen ! unat c;
          x = push_bit (huffmanCodeLen ! unat c mod 64) x OR ucast (huffmanCodes ! unat c) in
      if n \<ge> 32 then
        let n = n mod 32; y = ucast (drop_bit n x) :: u32 in
        encode_loop s x n (dst @ [ucast (drop_bit 24 y), ucast (drop_bit 16 y), ucast (drop_bit 8 y), ucast y])
      else encode_loop s x n dst)"

definition eosPadByte :: u64 where
  "eosPadByte = drop_bit (30 - 8) 0x3fffffff"

definition AppendHuffmanString :: "bytes \<Rightarrow> bytes \<Rightarrow> bytes" where
  "AppendHuffmanString dst s =
     (let (x, n, dst) = encode_loop s 0 0 dst;
          over = n mod 8; pad = 8 - over;
          (x, n) = (if over > 0 then (push_bit pad x OR drop_bit over eosPadByte, n + pad) else (x, n)) in
      if n div 8 = 0 then dst
      else if n div 8 = 1 then dst @ [ucast x]
      else if n div 8 = 2 then
        let y = ucast x :: u16 in dst @ [ucast (drop_bit 8 y), ucast y]
      else if n div 8 = 3 then
        let y = ucast (drop_bit 8 x) :: u16 in dst @ [ucast (drop_bit 8 y), ucast y, ucast x]
      else
        let y = ucast x :: u32 in
        dst @ [ucast (drop_bit 24 y), ucast (drop_bit 16 y), ucast (drop_bit 8 y), ucast y])"

definition HuffmanEncodeLength :: "bytes \<Rightarrow> nat" where
  "HuffmanEncodeLength s = (fold (\<lambda>c n. n + huffmanCodeLen ! unat c) s 0 + 7) div 8"

section \<open>Bit strings\<close>

text \<open>The lowest \<open>k\<close> bits of a word, the most significant first.\<close>

fun low :: "nat \<Rightarrow> 'a::len word \<Rightarrow> bool list" where
  "low 0 w = []"
| "low (Suc k) w = bit w k # low k w"

lemma length_low [simp]: "length (low k w) = k"
  by (induction k) auto

lemma low_eq_iff: "low k v = low k w \<longleftrightarrow> (\<forall>j < k. bit v j = bit w j)"
  by (induction k) (auto simp: less_Suc_eq)

lemma low_add: "low (a + b) w = low a (drop_bit b w) @ low b w"
  by (induction a) (auto simp: bit_drop_bit_eq add.commute)

lemma low_split: "b \<le> n \<Longrightarrow> low n w = low (n - b) (drop_bit b w) @ low b w"
  using low_add [of "n - b" b w] by simp

lemma low_byte_inj: "low 8 (a :: u8) = low 8 b \<longleftrightarrow> a = b"
  unfolding low_eq_iff by (auto intro: bit_word_eqI)

lemma low_shift_or:
  fixes x y :: "'a::len word"
  assumes "a + b \<le> LENGTH('a)" "\<And>j. bit y j \<Longrightarrow> j < b"
  shows "low (a + b) (push_bit b x OR y) = low a x @ low b y"
proof -
  have "low a (drop_bit b (push_bit b x OR y)) = low a x"
    unfolding low_eq_iff using assms by (auto simp: bit_simps)
  moreover have "low b (push_bit b x OR y) = low b y"
    unfolding low_eq_iff using assms by (auto simp: bit_simps)
  ultimately show ?thesis unfolding low_add by simp
qed

lemma low_ucast: "k \<le> LENGTH('b) \<Longrightarrow> low k (ucast (w :: 'a::len word) :: 'b::len word) = low k w"
  unfolding low_eq_iff by (auto simp: bit_simps)

text \<open>The two ways the decoder takes a byte from the unread bits.\<close>

lemma top_byte:
  fixes cur :: u64
  assumes "8 \<le> c"
  shows "low c cur = low 8 (ucast (drop_bit (c - 8) cur) :: u8) @ low (c - 8) cur"
  using low_split [of "c - 8" c cur] assms low_ucast [where 'b = 8, of 8 "drop_bit (c - 8) cur"] by simp

lemma padded_byte:
  fixes cur :: u64
  assumes "c \<le> 8"
  shows "low 8 (ucast (push_bit (8 - c) cur) :: u8) = low c cur @ replicate (8 - c) False"
proof -
  have "low 8 (ucast (push_bit (8 - c) cur) :: u8) = low 8 (push_bit (8 - c) cur)" by (rule low_ucast) simp
  also have "\<dots> = low c cur @ low (8 - c) (0 :: u64)"
    using low_shift_or [of c "8 - c" "0 :: u64" cur] assms by simp
  also have "low k (0 :: u64) = replicate k False" for k by (induction k) auto
  finally show ?thesis .
qed

definition bits_of :: "bytes \<Rightarrow> bool list" where
  "bits_of bs = concat (map (low 8) bs)"

lemma bits_of_simps [simp]: "bits_of [] = []" "bits_of (b # bs) = low 8 b @ bits_of bs"
  "bits_of (xs @ ys) = bits_of xs @ bits_of ys"
  by (simp_all add: bits_of_def)

lemma length_bits_of [simp]: "length (bits_of bs) = 8 * length bs"
  by (induction bs) auto

section \<open>Prefix codes\<close>

definition prefix_free :: "(bool list \<times> u8) set \<Rightarrow> bool" where
  "prefix_free C \<longleftrightarrow> (\<forall>(x, s) \<in> C. \<forall>(y, t) \<in> C. prefix x y \<longrightarrow> x = y \<and> s = t)"

text \<open>The codes that start with the given bits, without them.\<close>

definition below :: "(bool list \<times> u8) set \<Rightarrow> bool list \<Rightarrow> (bool list \<times> u8) set" where
  "below C bs = {(y, s). (bs @ y, s) \<in> C}"

lemma below_iff [simp]: "(y, s) \<in> below C bs \<longleftrightarrow> (bs @ y, s) \<in> C"
  by (simp add: below_def)

lemma below_Nil [simp]: "below C [] = C"
  by (auto simp: below_def)

lemma below_append: "below C (xs @ ys) = below (below C xs) ys"
  by (auto simp: below_def)

lemma prefix_freeD: "\<lbrakk>prefix_free C; (x, s) \<in> C; (y, t) \<in> C; prefix x y\<rbrakk> \<Longrightarrow> x = y \<and> s = t"
  unfolding prefix_free_def by blast

lemma prefix_free_below: "prefix_free C \<Longrightarrow> prefix_free (below C bs)"
  unfolding prefix_free_def by fastforce

lemma prefix_free_subset: "prefix_free C \<Longrightarrow> D \<subseteq> C \<Longrightarrow> prefix_free D"
  unfolding prefix_free_def by blast

section \<open>Trees that stand for a set of codes\<close>

inductive represents :: "(bool list \<times> u8) set \<Rightarrow> node option list \<Rightarrow> bool"
  and entry :: "(bool list \<times> u8) set \<Rightarrow> bool list \<Rightarrow> node option \<Rightarrow> bool" where
  represents: "\<lbrakk>length ch = 256; \<And>x s. (x, s) \<in> C \<Longrightarrow> x \<noteq> []; \<And>b :: u8. entry C (low 8 b) (ch ! unat b)\<rbrakk> \<Longrightarrow> represents C ch"
| no_code: "(\<And>x s. (x, s) \<in> C \<Longrightarrow> \<not> prefix x bs \<and> \<not> prefix bs x) \<Longrightarrow> entry C bs None"
| short: "\<lbrakk>(x, s) \<in> C; prefix x bs\<rbrakk> \<Longrightarrow> entry C bs (Some (Leaf (length x) s))"
| longer: "\<lbrakk>represents (below C bs) c; (bs @ y, s) \<in> C\<rbrakk> \<Longrightarrow> entry C bs (Some (Internal c))"

inductive_cases represents_E: "represents C ch"
inductive_cases entry_None: "entry C bs None"
inductive_cases entry_Leaf: "entry C bs (Some (Leaf l s))"
inductive_cases entry_Internal: "entry C bs (Some (Internal c))"

lemma represents_empty: "represents {} newInternalNode"
proof (rule represents)
  fix b :: u8
  have "newInternalNode ! unat b = None" using byte_unat_less [of b] by (simp add: newInternalNode_def)
  then show "entry {} (low 8 b) (newInternalNode ! unat b)" using no_code [of "{}" "low 8 b"] by simp
qed (simp_all add: newInternalNode_def)


lemma fill_nth:
  "b \<le> length ch \<Longrightarrow> fold (\<lambda>i ch. ch[i := v]) [a..<b] ch ! j = (if a \<le> j \<and> j < b then v else ch ! j)"
  "length (fold (\<lambda>i ch. ch[i := v]) [a..<b] ch) = length ch"
proof -
  have len: "length (fold (\<lambda>i ch. ch[i := v]) is ch) = length ch" for "is" ch
    by (induction "is" arbitrary: ch) auto
  then show "length (fold (\<lambda>i ch. ch[i := v]) [a..<b] ch) = length ch" .
  have "fold (\<lambda>i ch. ch[i := v]) is ch ! j = (if j \<in> set is then v else ch ! j)"
    if "\<forall>i \<in> set is. i < length ch" for "is" ch
    using that by (induction "is" arbitrary: ch) (auto simp: nth_list_update)
  then show "b \<le> length ch \<Longrightarrow> fold (\<lambda>i ch. ch[i := v]) [a..<b] ch ! j = (if a \<le> j \<and> j < b then v else ch ! j)"
    by simp
qed

lemma in_block: "(k :: nat) > 0 \<Longrightarrow> s mod k = 0 \<Longrightarrow> (s \<le> b \<and> b < s + k) \<longleftrightarrow> b div k = s div k"
proof -
  assume k: "k > 0" and s: "s mod k = 0"
  obtain q where q: "s = q * k" using s by (metis add_0_right div_mult_mod_eq)
  have "(q * k \<le> b \<and> b < q * k + k) \<longleftrightarrow> b div k = q"
    using k by (metis add.commute div_nat_eqI dividend_less_times_div less_eq_div_iff_mult_less_eq mult.commute mult_Suc order_refl)
  then show ?thesis using q k by simp
qed

lemma leaf_range:
  fixes code :: u32 and b :: u8
  assumes "l \<le> 8"
  defines "start \<equiv> unat (ucast (push_bit (8 - l) code) :: u8)"
  shows "start \<le> unat b \<and> unat b < start + 2 ^ (8 - l) \<longleftrightarrow> prefix (low l code) (low 8 b)" (is ?range)
    and "start + 2 ^ (8 - l) \<le> 256"
proof -
  let ?S = "ucast (push_bit (8 - l) code) :: u8" and ?k = "2 ^ (8 - l) :: nat"
  have bitS: "bit ?S j \<longleftrightarrow> 8 - l \<le> j \<and> j < 8 \<and> bit code (j - (8 - l))" for j by (auto simp: bit_simps)
  have "take_bit (8 - l) ?S = 0" by (rule bit_word_eqI) (auto simp: bit_take_bit_iff bitS)
  then have "unat (take_bit (8 - l) ?S) = 0" by simp
  then have m: "start mod ?k = 0" by (simp add: start_def unsigned_take_bit_eq take_bit_nat_def)
  have d: "unat w div ?k = unat (drop_bit (8 - l) w)" for w :: u8
    using byte_unat_less [of w] by (simp add: unsigned_drop_bit_eq drop_bit_nat_def take_bit_nat_eq_self)
  have "low l (drop_bit (8 - l) ?S) = low l code"
    unfolding low_eq_iff using assms(1) by (auto simp: bit_drop_bit_eq bitS)
  moreover have "drop_bit (8 - l) b = drop_bit (8 - l) ?S \<longleftrightarrow> low l (drop_bit (8 - l) b) = low l (drop_bit (8 - l) ?S)"
  proof
    assume e: "low l (drop_bit (8 - l) b) = low l (drop_bit (8 - l) ?S)"
    show "drop_bit (8 - l) b = drop_bit (8 - l) ?S"
    proof (rule bit_word_eqI)
      fix j
      show "bit (drop_bit (8 - l) b) j = bit (drop_bit (8 - l) ?S) j"
      proof (cases "j < l")
        case True
        then show ?thesis using e by (simp add: low_eq_iff)
      next
        case False
        then have "\<not> bit b (8 - l + j)" using bit_imp_le_length [of b "8 - l + j"] assms(1) by auto
        then show ?thesis using False assms(1) by (auto simp: bit_drop_bit_eq bitS)
      qed
    qed
  qed simp
  moreover have "prefix (low l code) (low 8 b) \<longleftrightarrow> low l (drop_bit (8 - l) b) = low l code"
    using low_split [of "8 - l" 8 b] assms(1) by (auto simp: prefix_def append_eq_append_conv)
  ultimately show ?range
    using in_block [OF _ m, of "unat b"] d [of b] d [of ?S] by (auto simp: start_def word_unat_eq_iff)
  obtain q where q: "start = q * ?k" using m by (metis add_0_right div_mult_mod_eq)
  have e: "(256 :: nat) = 2 ^ l * ?k" using assms(1) power_add [of "2 :: nat" l "8 - l"] by simp
  have "start < 256" by (simp add: start_def byte_unat_less)
  then have "q < 2 ^ l" unfolding q e by simp
  then have "Suc q * ?k \<le> 2 ^ l * ?k" by (intro mult_le_mono1) simp
  then show "start + 2 ^ (8 - l) \<le> 256" unfolding q e [symmetric] by (simp add: add.commute)
qed

lemma entry_add:
  assumes "entry C bs e" "\<not> prefix x bs" "\<not> prefix bs x"
  shows "entry (insert (x, s) C) bs e"
  using assms(1)
proof (cases rule: entry.cases)
  case no_code
  then show ?thesis using assms(2,3) represents_entry.no_code [of "insert (x, s) C" bs] by auto
next
  case (short y t)
  then show ?thesis using represents_entry.short [of y t "insert (x, s) C" bs] by auto
next
  case (longer c y t)
  have "below (insert (x, s) C) bs = below C bs" using assms(3) by auto
  then show ?thesis using longer represents_entry.longer [of "insert (x, s) C" bs c y t] by auto
qed

lemma represents_short:
  fixes code :: u32
  assumes "represents C ch" "1 \<le> l" "l \<le> 8"
  shows "\<exists>ch'. insert_code l code s ch = Return ch' \<and> represents (insert (low l code, s) C) ch'"
proof -
  let ?x = "low l code" and ?D = "insert (low l code, s) C"
  have rep: "length ch = 256" "\<And>x s. (x, s) \<in> C \<Longrightarrow> x \<noteq> []" "\<And>b :: u8. entry C (low 8 b) (ch ! unat b)"
    using assms(1) by (auto elim: represents_E)
  have ne: "x \<noteq> []" if "(x, t) \<in> ?D" for x t using that rep(2) assms(2) by (cases l) auto
  let ?start = "unat (ucast (push_bit (8 - l) code) :: u8)"
  let ?ch = "fold (\<lambda>i ch. ch[i := Some (Leaf l s)]) [?start..<?start + 2 ^ (8 - l)] ch"
  have r: "\<And>b :: u8. ?start \<le> unat b \<and> unat b < ?start + 2 ^ (8 - l) \<longleftrightarrow> prefix ?x (low 8 b)" "?start + 2 ^ (8 - l) \<le> 256"
    using leaf_range [OF assms(3), of code] by blast+
  have n: "?ch ! unat b = (if prefix ?x (low 8 b) then Some (Leaf l s) else ch ! unat b)" for b :: u8
    using fill_nth(1) [of "?start + 2 ^ (8 - l)" ch "Some (Leaf l s)" ?start "unat b"] r(1) [of b] r(2) rep(1) by presburger
  have "entry ?D (low 8 b) (?ch ! unat b)" for b :: u8
  proof (cases "prefix ?x (low 8 b)")
    case True
    then show ?thesis using n [of b] short [of ?x s ?D "low 8 b"] by simp
  next
    case no: False
    have "\<not> prefix (low 8 b) ?x"
    proof
      assume "prefix (low 8 b) ?x"
      then obtain z where z: "?x = low 8 b @ z" by (auto simp: prefix_def)
      have "l = 8 + length z" using arg_cong [OF z, of length] by simp
      then have "z = []" using assms(3) by simp
      then show False using z no by simp
    qed
    then show ?thesis using no n [of b] entry_add [OF rep(3) no] by simp
  qed
  then have "represents ?D ?ch" using rep(1) ne by (intro represents) (simp_all add: fill_nth)
  moreover have "insert_code l code s ch = Return ?ch"
    using assms(3) r(2) rep(1) by (subst insert_code.simps) (simp add: Let_def)
  ultimately show ?thesis by blast
qed

lemma same_length_prefix: "length xs = length ys \<Longrightarrow> prefix xs (ys @ zs) \<longleftrightarrow> xs = ys"
  by (auto simp: prefix_def)

lemma represents_long:
  assumes "represents C ch" "represents (insert (y, s) (below C (low 8 i))) c"
  shows "represents (insert (low 8 i @ y, s) C) (ch[unat (i :: u8) := Some (Internal c)])"
proof (rule represents)
  let ?bs = "low 8 i" and ?D = "insert (low 8 i @ y, s) C"
  have rep: "length ch = 256" "\<And>x s. (x, s) \<in> C \<Longrightarrow> x \<noteq> []" "\<And>b :: u8. entry C (low 8 b) (ch ! unat b)"
    using assms(1) by (auto elim: represents_E)
  show "length (ch[unat i := Some (Internal c)]) = 256" using rep(1) by simp
  show "x \<noteq> []" if "(x, t) \<in> ?D" for x t using that rep(2) by (auto dest: arg_cong [where f = length])
  fix b :: u8
  show "entry ?D (low 8 b) (ch[unat i := Some (Internal c)] ! unat b)"
  proof (cases "b = i")
    case True
    have "below ?D ?bs = insert (y, s) (below C ?bs)" by auto
    then show ?thesis using True assms(2) longer [of ?D ?bs c y s] byte_unat_less [of i] rep(1) by simp
  next
    case False
    then have ne: "low 8 b \<noteq> ?bs" by (simp add: low_byte_inj)
    then have "\<not> prefix (?bs @ y) (low 8 b)" "\<not> prefix (low 8 b) (?bs @ y)"
      using same_length_prefix [of "low 8 b" ?bs] same_length_prefix [of ?bs "low 8 b" "[]"] append_prefixD by fastforce+
    then show ?thesis using entry_add [OF rep(3)] False by (simp add: word_unat_eq_iff)
  qed
qed

lemma insert_code_represents:
  assumes "represents C ch" "prefix_free (insert (low l code, s) C)" "1 \<le> l" "\<And>t. (low l code, t) \<notin> C"
  shows "\<exists>ch'. insert_code l code s ch = Return ch' \<and> represents (insert (low l code, s) C) ch'"
  using assms
proof (induction l arbitrary: C ch rule: less_induct)
  case (less l)
  show ?case
  proof (cases "l > 8")
    case False
    then show ?thesis using represents_short less.prems by simp
  next
    case True
    let ?i = "ucast (drop_bit (l - 8) code) :: u8" and ?y = "low (l - 8) code"
    have x: "low l code = low 8 ?i @ ?y"
      using True low_split [of "l - 8" l code] low_ucast [where 'b = 8, of 8 "drop_bit (l - 8) code"] by simp
    have e: "entry C (low 8 ?i) (ch ! unat ?i)" using less.prems(1) by (auto elim: represents_E)
    note pf = less.prems(2) [unfolded x]
    have sub: "\<exists>c'. insert_code (l - 8) code s c = Return c' \<and> represents (insert (low l code, s) C) (ch[unat ?i := Some (Internal c')])"
      if c: "represents (below C (low 8 ?i)) c" for c
    proof -
      have "below (insert (low 8 ?i @ ?y, s) C) (low 8 ?i) = insert (?y, s) (below C (low 8 ?i))" by auto
      then have p: "prefix_free (insert (?y, s) (below C (low 8 ?i)))" using prefix_free_below [OF pf, of "low 8 ?i"] by simp
      have "\<exists>c'. insert_code (l - 8) code s c = Return c' \<and> represents (insert (?y, s) (below C (low 8 ?i))) c'"
        by (rule less.IH [OF _ c p]) (use True less.prems(4) x in simp_all)
      then obtain c' where c': "insert_code (l - 8) code s c = Return c'"
        "represents (insert (?y, s) (below C (low 8 ?i))) c'" by blast
      then show ?thesis using represents_long [OF less.prems(1) c'(2)] x by auto
    qed
    show ?thesis
    proof (cases "ch ! unat ?i")
      case None
      then have "below C (low 8 ?i) = {}" using e by (auto elim!: entry_None) (metis prefixI)
      then show ?thesis using sub [of newInternalNode] represents_empty True None
        by (subst insert_code.simps) (simp add: Let_def, blast)
    next
      case (Some n)
      show ?thesis
      proof (cases n)
        case (Leaf k t)
        then obtain z where z: "(z, t) \<in> C" "prefix z (low 8 ?i)" using e Some by (auto elim: entry_Leaf)
        then have "prefix z (low l code)" using x by simp
        then show ?thesis using prefix_freeD [OF less.prems(2), of z t "low l code" s] z(1) less.prems(4) by auto
      next
        case (Internal c)
        then have "represents (below C (low 8 ?i)) c" using e Some by (auto elim: entry_Internal)
        then show ?thesis using sub [of c] True Some Internal by (subst insert_code.simps) (simp add: Let_def, blast)
      qed
    qed
  qed
qed

section \<open>The table is a prefix code\<close>

fun incomparable :: "bool list list \<Rightarrow> bool" where
  "incomparable [] = True"
| "incomparable (x # xs) \<longleftrightarrow> (\<forall>y \<in> set xs. \<not> prefix x y \<and> \<not> prefix y x) \<and> incomparable xs"

text \<open>The check walks down the binary trie of the codes.\<close>

fun prefix_free_check :: "nat \<Rightarrow> bool list list \<Rightarrow> bool" where
  "prefix_free_check n [] = True"
| "prefix_free_check n [x] = True"
| "prefix_free_check 0 (x # y # zs) = False"
| "prefix_free_check (Suc n) (x # y # zs) =
     (let xs = x # y # zs in
      list_all (\<lambda>x. x \<noteq> []) xs \<and> prefix_free_check n (map tl (filter hd xs)) \<and>
      prefix_free_check n (map tl (filter (\<lambda>x. \<not> hd x) xs)))"

lemma incomparable_split:
  assumes "list_all (\<lambda>x. x \<noteq> []) xs" "incomparable (map tl (filter hd xs))" "incomparable (map tl (filter (\<lambda>x. \<not> hd x) xs))"
  shows "incomparable xs"
  using assms
proof (induction xs)
  case (Cons x xs)
  have "\<not> prefix x y \<and> \<not> prefix y x" if y: "y \<in> set xs" for y
  proof (cases "hd x = hd y")
    case True
    have "x \<noteq> []" "y \<noteq> []" using Cons.prems(1) y by (auto simp: list_all_iff)
    then obtain a b c where xy: "x = a # b" "y = a # c" using True by (cases x; cases y) auto
    have "\<not> prefix b c \<and> \<not> prefix c b"
      using Cons.prems(2,3) y xy by (cases a) (auto simp: image_iff)
    then show ?thesis using xy by simp
  next
    case False
    have "x \<noteq> []" "y \<noteq> []" using Cons.prems(1) y by (auto simp: list_all_iff)
    then show ?thesis using False by (cases x; cases y) auto
  qed
  moreover have "incomparable xs" using Cons by (auto split: if_splits)
  ultimately show ?case by simp
qed simp

lemma prefix_free_check_sound: "prefix_free_check n xs \<Longrightarrow> incomparable xs"
  by (induction n xs rule: prefix_free_check.induct) (simp_all only: prefix_free_check.simps Let_def incomparable_split, auto)

fun codes_from :: "(u32 \<times> nat) list \<Rightarrow> u8 \<Rightarrow> (bool list \<times> u8) set" where
  "codes_from [] s = {}"
| "codes_from ((code, l) # cs) s = insert (low l code, s) (codes_from cs (s + 1))"

definition code_list :: "(u32 \<times> nat) list \<Rightarrow> bool list list" where
  "code_list cs = map (\<lambda>(code, l). low l code) cs"

lemma build_tree_represents:
  assumes "represents C root" "prefix_free C" "incomparable (code_list cs)" "\<forall>(code, l) \<in> set cs. 1 \<le> l"
    and "\<And>x t y. (x, t) \<in> C \<Longrightarrow> y \<in> set (code_list cs) \<Longrightarrow> \<not> prefix x y \<and> \<not> prefix y x"
  shows "\<exists>r. build_tree cs s root = Return r \<and> represents (C \<union> codes_from cs s) r \<and> prefix_free (C \<union> codes_from cs s)"
  using assms
proof (induction cs arbitrary: C root s)
  case Nil
  then show ?case by simp
next
  case (Cons cl cs)
  obtain code l where cl: "cl = (code, l)" by (cases cl)
  let ?x = "low l code"
  have inc: "\<not> prefix z ?x \<and> \<not> prefix ?x z" if "(z, t) \<in> C" for z t
    using Cons.prems(5) [OF that, of ?x] cl by (simp add: code_list_def)
  then have pf: "prefix_free (insert (?x, s) C)" using Cons.prems(2) unfolding prefix_free_def by blast
  obtain r where r: "insert_code l code s root = Return r" "represents (insert (?x, s) C) r"
    using insert_code_represents [OF Cons.prems(1) pf] Cons.prems(4) inc cl by fastforce
  have "\<exists>r'. build_tree cs (s + 1) r = Return r' \<and> represents (insert (?x, s) C \<union> codes_from cs (s + 1)) r' \<and>
      prefix_free (insert (?x, s) C \<union> codes_from cs (s + 1))"
  proof (rule Cons.IH [OF r(2) pf])
    show "incomparable (code_list cs)" "\<forall>(code, l) \<in> set cs. 1 \<le> l"
      using Cons.prems(3,4) by (auto simp: code_list_def)
    show "\<not> prefix x y \<and> \<not> prefix y x" if "(x, t) \<in> insert (?x, s) C" "y \<in> set (code_list cs)" for x t y
      using that Cons.prems(3) Cons.prems(5) [of x t y] cl by (auto simp: code_list_def)
  qed
  then show ?case using r(1) cl by simp
qed


definition code_of :: "u8 \<Rightarrow> bool list" where
  "code_of s = low (huffmanCodeLen ! unat s) (huffmanCodes ! unat s)"

definition all_codes :: "(bool list \<times> u8) set" where
  "all_codes = range (\<lambda>s. (code_of s, s))"

lemma table_lengths: "length huffmanCodes = 256" "length huffmanCodeLen = 256"
  by (simp_all add: huffmanCodes_def huffmanCodeLen_def)

lemma table_incomparable: "prefix_free_check 30 (code_list (zip huffmanCodes huffmanCodeLen))"
  by code_simp

lemma table_code_lengths: "list_all (\<lambda>l. 1 \<le> l \<and> l \<le> 30) huffmanCodeLen"
  by code_simp

text \<open>Every code fits its length, and no code of at most seven bits consists of ones only.\<close>

lemma table_codes_fit: "list_all (\<lambda>(c, l). c < push_bit l 1 \<and> (l \<le> 7 \<longrightarrow> c + 1 \<noteq> push_bit l 1)) (zip huffmanCodes huffmanCodeLen)"
  by code_simp

lemma codes_from_nth:
  "codes_from cs s = (\<lambda>i. (low (snd (cs ! i)) (fst (cs ! i)), s + of_nat i)) ` {..<length cs}"
proof (induction cs arbitrary: s)
  case (Cons cl cs)
  obtain code l where cl: "cl = (code, l)" by (cases cl)
  have "codes_from (cl # cs) s = insert (low l code, s) ((\<lambda>i. (low (snd (cs ! i)) (fst (cs ! i)), s + 1 + of_nat i)) ` {..<length cs})"
    using Cons.IH cl by simp
  also have "\<dots> = (\<lambda>i. (low (snd ((cl # cs) ! i)) (fst ((cl # cs) ! i)), s + of_nat i)) ` {..<length (cl # cs)}"
    unfolding length_Cons lessThan_Suc_eq_insert_0 image_insert image_image using cl by (simp add: add.assoc)
  finally show ?case .
qed simp

lemma all_codes_from: "codes_from (zip huffmanCodes huffmanCodeLen) 0 = all_codes"
proof -
  have "codes_from (zip huffmanCodes huffmanCodeLen) 0 = (\<lambda>i. (code_of (of_nat i), of_nat i)) ` {..<256}"
    unfolding codes_from_nth by (intro image_cong) (auto simp: table_lengths code_of_def unat_of_nat)
  also have "\<dots> = all_codes"
    unfolding all_codes_def
  proof (intro equalityI subsetI)
    fix p assume "p \<in> range (\<lambda>s. (code_of s, s))"
    then obtain s where "p = (code_of s, s)" by blast
    then have "p = (\<lambda>i. (code_of (of_nat i), of_nat i)) (unat s)" by simp
    then show "p \<in> (\<lambda>i. (code_of (of_nat i), of_nat i)) ` {..<256}" using byte_unat_less [of s] by blast
  qed auto
  finally show ?thesis .
qed

lemma root_represents: "\<exists>root. buildRootHuffmanNode = Return root \<and> represents all_codes root \<and> prefix_free all_codes"
proof -
  have "\<forall>(code, l) \<in> set (zip huffmanCodes huffmanCodeLen). 1 \<le> l"
    using table_code_lengths by (auto simp: list_all_iff dest: set_zip_rightD)
  then show ?thesis
    using build_tree_represents [OF represents_empty _ prefix_free_check_sound [OF table_incomparable], of 0]
    by (simp add: all_codes_from prefix_free_def buildRootHuffmanNode_def)
qed
end
