(* ===== verification/HPACK_Huffman_Code.thy ===== *)
theory HPACK_Huffman_Code imports HPACK_Huffman
begin

text \<open>The Huffman coder of \<open>http2/hpack/huffman.go\<close> is correct. A string stands for the concatenation of its
  symbols' codes (\<open>encode_bits\<close>); the decoder's walk of the tree, its byte loop and its treatment of the last
  partial byte are sound and complete for that reading, and the encoder's 64-bit buffer writes exactly it, padded
  with ones to a byte boundary.\<close>

unbundle bit_operations_syntax

section \<open>The decoder's invariant\<close>

definition encode_bits :: "bytes \<Rightarrow> bool list" where
  "encode_bits s = concat (map code_of s)"

lemma encode_bits_simps [simp]: "encode_bits [] = []" "encode_bits (c # s) = code_of c @ encode_bits s"
  "encode_bits (s @ t) = encode_bits s @ encode_bits t"
  by (simp_all add: encode_bits_def)

lemma all_codes_iff [simp]: "(x, s) \<in> all_codes \<longleftrightarrow> x = code_of s"
  by (auto simp: all_codes_def)

lemma prefix_free_all: "prefix_free all_codes"
  using root_represents by blast

lemma code_prefix: "prefix (code_of s) (code_of t) \<Longrightarrow> s = t"
  using prefix_freeD [OF prefix_free_all, of "code_of s" s "code_of t" t] by simp

lemma code_length: "1 \<le> length (code_of s)" "length (code_of s) \<le> 30"
  using table_code_lengths table_lengths byte_unat_less [of s] by (auto simp: code_of_def list_all_length)

text \<open>The invariant of the decoder: the current node stands for the codes below the bits \<open>path\<close> already
  walked, and \<open>path\<close> followed by the unread bits is what has been read of the next symbols.\<close>

definition decode_inv :: "bool list \<Rightarrow> decode_state \<Rightarrow> bool" where
  "decode_inv path st \<longleftrightarrow> represents (below all_codes path) (at_node st) \<and> (\<exists>s. strict_prefix path (code_of s)) \<and>
     length path mod 8 = 0 \<and> sbits st = length path + cbits st"

definition pending :: "bool list \<Rightarrow> u64 \<Rightarrow> decode_state \<Rightarrow> bool list" where
  "pending path cur st = path @ low (cbits st) cur"

lemma decode_inv_root:
  assumes "represents all_codes root" "c = k"
  shows "decode_inv [] \<lparr>at_node = root, cbits = c, sbits = k, out = bs\<rparr>"
proof -
  have "strict_prefix [] (code_of 0)" using code_length(1) [of 0] by (cases "code_of 0") auto
  then show ?thesis using assms by (auto simp: decode_inv_def)
qed

lemma represents_nonempty: "represents C ch \<Longrightarrow> (x, s) \<in> C \<Longrightarrow> x \<noteq> []"
  by (auto elim: represents_E)

lemma not_code_prefix:
  assumes "decode_inv path st"
  shows "\<not> prefix (code_of s) path"
proof
  assume p: "prefix (code_of s) path"
  obtain t where t: "strict_prefix path (code_of t)" using assms by (auto simp: decode_inv_def)
  then have "s = t" using p code_prefix [of s t] by (auto simp: strict_prefix_def)
  then show False using p t prefix_order.antisym by (auto simp: strict_prefix_def)
qed

text \<open>What the child for a byte says about the codes.\<close>

lemma child_cases:
  assumes "decode_inv path st"
  obtains (invalid) "at_node st ! unat (b :: u8) = None"
      "\<And>s. \<not> prefix (code_of s) (path @ low 8 b) \<and> \<not> prefix (path @ low 8 b) (code_of s)"
  | (leaf) l s where "at_node st ! unat b = Some (Leaf l s)" "1 \<le> l" "l \<le> 8" "code_of s = path @ take l (low 8 b)"
  | (inner) c s where "at_node st ! unat b = Some (Internal c)" "represents (below all_codes (path @ low 8 b)) c"
      "strict_prefix (path @ low 8 b) (code_of s)"
proof -
  let ?bs = "low 8 b" and ?e = "at_node st ! unat b"
  have ent: "entry (below all_codes path) ?bs ?e"
    using assms by (auto simp: decode_inv_def elim: represents_E)
  have ne: "x \<noteq> []" if "path @ x = code_of s" for x s
    using not_code_prefix [OF assms, of s] that by auto
  show ?thesis
  proof (cases ?e)
    case None
    then have n: "\<not> prefix x ?bs \<and> \<not> prefix ?bs x" if "path @ x = code_of s" for x s
      using ent that by (auto elim: entry_None)
    have "\<not> prefix (code_of s) (path @ ?bs) \<and> \<not> prefix (path @ ?bs) (code_of s)" for s
    proof
      show "\<not> prefix (code_of s) (path @ ?bs)"
        using n [of _ s] not_code_prefix [OF assms, of s] by (auto simp: prefix_append)
      show "\<not> prefix (path @ ?bs) (code_of s)"
      proof
        assume "prefix (path @ ?bs) (code_of s)"
        then obtain z where "code_of s = path @ ?bs @ z" by (auto simp: prefix_def)
        then show False using n [of "?bs @ z" s] by simp
      qed
    qed
    then show ?thesis using invalid None by simp
  next
    case (Some n)
    show ?thesis
    proof (cases n)
      case (Leaf l s)
      then obtain x where x: "path @ x = code_of s" "prefix x ?bs" "l = length x"
        using ent Some by (auto elim!: entry_Leaf)
      have "l \<le> 8" using prefix_length_le [OF x(2)] x(3) by simp
      moreover have "x = take l ?bs" using x(2,3) by (auto simp: prefix_def)
      moreover have "1 \<le> l" using ne [OF x(1)] x(3) by (cases x) auto
      ultimately show ?thesis using leaf [of l s] Some Leaf x(1) by simp
    next
      case (Internal c)
      then obtain y s where c: "represents (below (below all_codes path) ?bs) c" "path @ ?bs @ y = code_of s"
        using ent Some by (auto elim!: entry_Internal)
      then have "y \<noteq> []" using represents_nonempty [OF c(1), of y s] by simp
      then have "strict_prefix (path @ ?bs) (code_of s)" using c(2) [symmetric] by (simp add: strict_prefix_def)
      then show ?thesis using inner [of c s] Some Internal c(1) by (simp add: below_append)
    qed
  qed
qed

text \<open>One full step: eight unread bits.\<close>

lemma full_step_cases:
  fixes cur :: u64
  assumes "decode_inv path st" "8 \<le> cbits st"
  defines "e \<equiv> at_node st ! unat (ucast (drop_bit (cbits st - 8) cur) :: u8)"
  obtains (invalid) "e = None" "\<And>s. \<not> prefix (code_of s) (path @ take 8 (low (cbits st) cur)) \<and>
      \<not> prefix (path @ take 8 (low (cbits st) cur)) (code_of s)"
  | (leaf) l s where "e = Some (Leaf l s)" "1 \<le> l" "l \<le> 8" "code_of s = path @ take l (low (cbits st) cur)"
  | (inner) c where "e = Some (Internal c)" "decode_inv (path @ take 8 (low (cbits st) cur)) (st\<lparr>at_node := c, cbits := cbits st - 8\<rparr>)"
proof -
  let ?b = "ucast (drop_bit (cbits st - 8) cur) :: u8"
  have bs: "take 8 (low (cbits st) cur) = low 8 ?b" using top_byte [OF assms(2), of cur] by simp
  show ?thesis
  proof (cases rule: child_cases [OF assms(1), of ?b, case_names invalid leaf inner])
    case invalid
    then show ?thesis using that(1) bs by (simp add: e_def)
  next
    case (leaf l s)
    then have "take l (low (cbits st) cur) = take l (low 8 ?b)" using bs by (metis min.absorb1 take_take)
    then show ?thesis using that(2) [of l s] leaf by (simp add: e_def)
  next
    case (inner c s)
    then have "decode_inv (path @ low 8 ?b) (st\<lparr>at_node := c, cbits := cbits st - 8\<rparr>)"
      using assms(1,2) by (auto simp: decode_inv_def)
    then show ?thesis using that(3) [of c] inner(1) bs by (simp add: e_def)
  qed
qed

definition fits :: "nat \<Rightarrow> bytes \<Rightarrow> bool" where
  "fits maxLen bs \<longleftrightarrow> maxLen = 0 \<or> length bs \<le> maxLen"

lemma write_sym_simps:
  "fits maxLen (out st @ [s]) \<Longrightarrow> write_sym root maxLen l s st =
     Return \<lparr>at_node = root, cbits = cbits st - l, sbits = cbits st - l, out = out st @ [s]\<rparr>"
  "\<lbrakk>fits maxLen (out st); write_sym root maxLen l s st = Return st'\<rbrakk> \<Longrightarrow>
     fits maxLen (out st @ [s]) \<and> st' = \<lparr>at_node = root, cbits = cbits st - l, sbits = cbits st - l, out = out st @ [s]\<rparr>"
  "write_sym root maxLen l s st \<noteq> Panic"
  by (auto simp: write_sym_def fits_def split: if_splits)

lemma take_low: "l \<le> c \<Longrightarrow> low c cur = take l (low c cur) @ low (c - l) cur"
proof -
  assume "l \<le> c"
  then have "low c cur = low l (drop_bit (c - l) cur) @ low (c - l) cur" using low_split [of "c - l" c cur] by simp
  then show ?thesis by simp
qed

text \<open>The state after a symbol was written.\<close>

definition emitted :: "node option list \<Rightarrow> nat \<Rightarrow> u8 \<Rightarrow> decode_state \<Rightarrow> decode_state" where
  "emitted root l s st = \<lparr>at_node = root, cbits = cbits st - l, sbits = cbits st - l, out = out st @ [s]\<rparr>"

lemma full_steps_sound:
  assumes "represents all_codes root"
  shows "\<lbrakk>decode_inv path st; cbits st \<le> fuel; fits maxLen (out st); full_steps fuel root maxLen cur st = Return st'\<rbrakk> \<Longrightarrow>
    \<exists>path'. decode_inv path' st' \<and> cbits st' < 8 \<and> fits maxLen (out st') \<and>
      encode_bits (out st') @ pending path' cur st' = encode_bits (out st) @ pending path cur st"
proof (induction fuel arbitrary: path st)
  case 0
  then show ?case by (auto simp: full_steps.simps [of 0])
next
  case (Suc fuel)
  show ?case
  proof (cases "cbits st < 8")
    case True
    then show ?thesis using Suc.prems by (auto simp: full_steps.simps [of "Suc fuel"])
  next
    case False
    then have c: "8 \<le> cbits st" by simp
    show ?thesis
    proof (cases rule: full_step_cases [OF Suc.prems(1) c, of cur, case_names invalid leaf inner])
      case invalid
      then show ?thesis using Suc.prems(4) False by (simp add: full_steps.simps [of "Suc fuel"])
    next
      case (leaf l s)
      obtain st1 where st1: "write_sym root maxLen l s st = Return st1" "full_steps fuel root maxLen cur st1 = Return st'"
        using Suc.prems(4) False leaf(1) by (auto simp: full_steps.simps [of "Suc fuel"])
      then have f: "fits maxLen (out st1)" "st1 = emitted root l s st"
        using write_sym_simps(2) [OF Suc.prems(3) st1(1)] by (auto simp: emitted_def)
      then have i: "decode_inv [] st1" using decode_inv_root [OF assms] by (simp add: emitted_def)
      have le: "cbits st1 \<le> fuel" using leaf(2) Suc.prems(2) f(2) by (simp add: emitted_def)
      obtain path' where p: "decode_inv path' st'" "cbits st' < 8" "fits maxLen (out st')"
        "encode_bits (out st') @ pending path' cur st' = encode_bits (out st1) @ pending [] cur st1"
        using Suc.IH [OF i le f(1) st1(2)] by blast
      have "encode_bits (out st1) @ pending [] cur st1 = encode_bits (out st) @ pending path cur st"
        using f(2) leaf c take_low [of l "cbits st" cur] by (simp add: emitted_def pending_def)
      then show ?thesis using p by auto
    next
      case (inner n)
      let ?st = "st\<lparr>at_node := n, cbits := cbits st - 8\<rparr>" and ?path = "path @ take 8 (low (cbits st) cur)"
      have r: "full_steps fuel root maxLen cur ?st = Return st'"
        using Suc.prems(4) False inner(1) by (simp add: full_steps.simps [of "Suc fuel"])
      have "pending ?path cur ?st = pending path cur st" using take_low [OF c, of cur] by (simp add: pending_def)
      then show ?thesis using Suc.IH [OF inner(2) _ _ r] Suc.prems(2,3) c by auto
    qed
  qed
qed


lemma next_symbol:
  assumes "code_of t @ x = encode_bits rest @ pad" "rest \<noteq> []"
  shows "\<exists>r. rest = t # r \<and> x = encode_bits r @ pad"
proof -
  obtain s r where r: "rest = s # r" using assms(2) by (cases rest) auto
  have "prefix (code_of t) (encode_bits rest @ pad)" using assms(1) by (metis prefixI)
  moreover have "prefix (code_of s) (encode_bits rest @ pad)" using r by simp
  ultimately have "s = t" using prefix_same_cases code_prefix by blast
  then show ?thesis using assms(1) r by simp
qed

lemma full_steps_complete:
  assumes "represents all_codes root" "length pad \<le> 7"
  shows "\<lbrakk>decode_inv path st; cbits st \<le> fuel; fits maxLen (out st @ rest); pending path cur st @ fut = encode_bits rest @ pad\<rbrakk> \<Longrightarrow>
    \<exists>st' path' rest'. full_steps fuel root maxLen cur st = Return st' \<and> decode_inv path' st' \<and> cbits st' < 8 \<and>
      out st' @ rest' = out st @ rest \<and> pending path' cur st' @ fut = encode_bits rest' @ pad"
proof (induction fuel arbitrary: path st rest)
  case 0
  then show ?case by (auto simp: full_steps.simps [of 0])
next
  case (Suc fuel)
  show ?case
  proof (cases "cbits st < 8")
    case True
    then show ?thesis using Suc.prems by (auto simp: full_steps.simps [of "Suc fuel"])
  next
    case False
    then have c: "8 \<le> cbits st" by simp
    note split = take_low [OF c, of cur]
    have stream: "path @ low (cbits st) cur @ fut = encode_bits rest @ pad"
      using Suc.prems(4) by (simp add: pending_def)
    have "rest \<noteq> []" using arg_cong [OF stream, of length] assms(2) c by auto
    show ?thesis
    proof (cases rule: full_step_cases [OF Suc.prems(1) c, of cur, case_names invalid leaf inner])
      case invalid
      obtain s r where r: "rest = s # r" using \<open>rest \<noteq> []\<close> by (cases rest) auto
      have "prefix (code_of s) (path @ low (cbits st) cur @ fut)" using stream r by simp
      moreover have "prefix (path @ take 8 (low (cbits st) cur)) (path @ low (cbits st) cur @ fut)"
        using split by (metis append.assoc prefixI same_prefix_prefix)
      ultimately show ?thesis using invalid(2) [of s] prefix_same_cases by blast
    next
      case (leaf l t)
      have t: "code_of t @ low (cbits st - l) cur @ fut = encode_bits rest @ pad"
        using stream leaf(3,4) c take_low [of l "cbits st" cur] by (metis append.assoc order_trans)
      obtain r where r: "rest = t # r" "low (cbits st - l) cur @ fut = encode_bits r @ pad"
        using next_symbol [OF t \<open>rest \<noteq> []\<close>] by blast
      let ?st = "emitted root l t st"
      have "fits maxLen (out st @ [t])" using Suc.prems(3) r(1) by (auto simp: fits_def)
      then have w: "write_sym root maxLen l t st = Return ?st"
        by (simp add: write_sym_simps(1) emitted_def)
      have "\<exists>st' path' rest'. full_steps fuel root maxLen cur ?st = Return st' \<and> decode_inv path' st' \<and> cbits st' < 8 \<and>
          out st' @ rest' = out ?st @ r \<and> pending path' cur st' @ fut = encode_bits rest' @ pad"
      proof (rule Suc.IH)
        show "decode_inv [] ?st" using decode_inv_root [OF assms(1)] by (simp add: emitted_def)
        show "cbits ?st \<le> fuel" using Suc.prems(2) leaf(2) by (simp add: emitted_def)
        show "fits maxLen (out ?st @ r)" using Suc.prems(3) r(1) by (simp add: emitted_def)
        show "pending [] cur ?st @ fut = encode_bits r @ pad" using r(2) by (simp add: pending_def emitted_def)
      qed
      then show ?thesis using False leaf(1) w r(1) by (simp add: full_steps.simps [of "Suc fuel"] emitted_def)
    next
      case (inner n)
      let ?st = "st\<lparr>at_node := n, cbits := cbits st - 8\<rparr>" and ?path = "path @ take 8 (low (cbits st) cur)"
      have "pending ?path cur ?st = pending path cur st" using split by (simp add: pending_def)
      then have "\<exists>st' path' rest'. full_steps fuel root maxLen cur ?st = Return st' \<and> decode_inv path' st' \<and> cbits st' < 8 \<and>
          out st' @ rest' = out ?st @ rest \<and> pending path' cur st' @ fut = encode_bits rest' @ pad"
        using Suc.prems c by (intro Suc.IH [OF inner(2)]) auto
      then show ?thesis using False inner(1) by (simp add: full_steps.simps [of "Suc fuel"])
    qed
  qed
qed

section \<open>The byte loop\<close>

text \<open>Shifting in a byte appends its bits to the unread ones.\<close>

lemma low_feed: "c < 8 \<Longrightarrow> low (c + 8) (push_bit 8 cur OR ucast (b :: u8) :: u64) = low c cur @ low 8 b"
proof -
  assume "c < 8"
  then have "low (c + 8) (push_bit 8 cur OR ucast b :: u64) = low c cur @ low 8 (ucast b :: u64)"
    by (intro low_shift_or) (auto simp: bit_simps dest: bit_imp_le_length)
  then show ?thesis using low_ucast [where 'b = 64, of 8 b] by simp
qed

lemma feed_step:
  assumes "decode_inv path st" "cbits st < 8"
  defines "st1 \<equiv> st\<lparr>cbits := cbits st + 8, sbits := sbits st + 8\<rparr>"
  shows "decode_inv path st1" "pending path (push_bit 8 cur OR ucast (b :: u8)) st1 = pending path cur st @ low 8 b"
  using assms(1) low_feed [OF assms(2), of cur b] by (auto simp: decode_inv_def pending_def st1_def)

lemma feed_bytes_sound:
  assumes "represents all_codes root"
  shows "\<lbrakk>decode_inv path st; cbits st < 8; fits maxLen (out st); feed_bytes root maxLen v cur st = Return (cur', st')\<rbrakk> \<Longrightarrow>
    \<exists>path'. decode_inv path' st' \<and> cbits st' < 8 \<and> fits maxLen (out st') \<and>
      encode_bits (out st') @ pending path' cur' st' = encode_bits (out st) @ pending path cur st @ bits_of v"
proof (induction v arbitrary: path cur st)
  case Nil
  then show ?case by auto
next
  case (Cons b v)
  let ?cur = "push_bit 8 cur OR ucast b" and ?st = "st\<lparr>cbits := cbits st + 8, sbits := sbits st + 8\<rparr>"
  obtain st1 where st1: "full_steps (cbits ?st) root maxLen ?cur ?st = Return st1"
    "feed_bytes root maxLen v ?cur st1 = Return (cur', st')"
    using Cons.prems(4) by (auto simp: Let_def)
  note f = feed_step [OF Cons.prems(1,2)]
  obtain path1 where p1: "decode_inv path1 st1" "cbits st1 < 8" "fits maxLen (out st1)"
    "encode_bits (out st1) @ pending path1 ?cur st1 = encode_bits (out ?st) @ pending path ?cur ?st"
    using full_steps_sound [OF assms f(1) order_refl _ st1(1)] Cons.prems(3) by auto
  obtain path' where "decode_inv path' st'" "cbits st' < 8" "fits maxLen (out st')"
    "encode_bits (out st') @ pending path' cur' st' = encode_bits (out st1) @ pending path1 ?cur st1 @ bits_of v"
    using Cons.IH [OF p1(1-3) st1(2)] by blast
  moreover have "encode_bits (out st1) @ pending path1 ?cur st1 @ bits_of v =
      encode_bits (out st) @ pending path cur st @ bits_of (b # v)"
    using arg_cong [OF p1(4), of "\<lambda>x. x @ bits_of v"] f(2) [of cur b] by simp
  ultimately show ?case by auto
qed

lemma feed_bytes_complete:
  assumes "represents all_codes root" "length pad \<le> 7"
  shows "\<lbrakk>decode_inv path st; cbits st < 8; fits maxLen (out st @ rest); pending path cur st @ bits_of v = encode_bits rest @ pad\<rbrakk> \<Longrightarrow>
    \<exists>cur' st' path' rest'. feed_bytes root maxLen v cur st = Return (cur', st') \<and> decode_inv path' st' \<and> cbits st' < 8 \<and>
      out st' @ rest' = out st @ rest \<and> pending path' cur' st' = encode_bits rest' @ pad"
proof (induction v arbitrary: path cur st rest)
  case Nil
  then show ?case by auto
next
  case (Cons b v)
  let ?cur = "push_bit 8 cur OR ucast b" and ?st = "st\<lparr>cbits := cbits st + 8, sbits := sbits st + 8\<rparr>"
  note f = feed_step [OF Cons.prems(1,2)]
  have "pending path ?cur ?st @ bits_of v = encode_bits rest @ pad" using f(2) [of cur b] Cons.prems(4) by simp
  then obtain st1 path1 rest1 where s1: "full_steps (cbits ?st) root maxLen ?cur ?st = Return st1" "decode_inv path1 st1"
    "cbits st1 < 8" "out st1 @ rest1 = out ?st @ rest" "pending path1 ?cur st1 @ bits_of v = encode_bits rest1 @ pad"
    using full_steps_complete [OF assms f(1) order_refl, of maxLen rest ?cur "bits_of v"] Cons.prems(3) by auto
  have fit: "fits maxLen (out st1 @ rest1)" using s1(4) Cons.prems(3) by simp
  show ?case using Cons.IH [OF s1(2,3) fit s1(5)] s1(1,4) by (auto simp: Let_def)
qed

section \<open>Padding\<close>

lemma low_ones_iff: "low k w = replicate k True \<longleftrightarrow> (\<forall>j < k. bit w j)"
  by (induction k) (auto simp: less_Suc_eq)

lemma mask_check: "c \<le> 8 \<Longrightarrow> (cur AND (push_bit c 1 - 1) = push_bit c 1 - 1) \<longleftrightarrow> low c (cur :: u64) = replicate c True"
proof -
  assume c: "c \<le> 8"
  have m: "push_bit c 1 - 1 = (mask c :: u64)" by (simp add: mask_eq_exp_minus_1)
  have "(cur AND mask c = mask c) \<longleftrightarrow> (\<forall>j < c. bit cur j)"
  proof
    assume a: "cur AND mask c = mask c"
    show "\<forall>j < c. bit cur j"
    proof (intro allI impI)
      fix j assume "j < c"
      then have "bit (mask c :: u64) j" using c by (simp add: bit_mask_iff)
      then show "bit cur j" using a by (metis bit_and_iff)
    qed
  qed (auto intro!: bit_eqI simp: bit_simps)
  then show ?thesis unfolding m low_ones_iff .
qed

lemma no_ones_code: "length (code_of s) \<le> 7 \<Longrightarrow> code_of s \<noteq> replicate (length (code_of s)) True"
proof
  assume l: "length (code_of s) \<le> 7" and o: "code_of s = replicate (length (code_of s)) True"
  let ?c = "huffmanCodes ! unat s" and ?l = "huffmanCodeLen ! unat s"
  have fit: "?c < push_bit ?l 1" "?l \<le> 7 \<longrightarrow> ?c + 1 \<noteq> push_bit ?l 1"
    using table_codes_fit byte_unat_less [of s] by (auto simp: list_all_length table_lengths)
  have l7: "?l \<le> 7" using l by (simp add: code_of_def)
  have "\<forall>j < ?l. bit ?c j" using o by (simp add: code_of_def low_ones_iff)
  then have "?c AND mask ?l = mask ?l" by (auto intro!: bit_eqI simp: bit_simps)
  moreover have "?c AND mask ?l = ?c"
  proof -
    have "unat (push_bit ?l 1 :: u32) = 2 ^ ?l"
      using l7 by (simp add: take_bit_nat_eq_self unsigned_push_bit_eq del: push_bit_of_1)
    then have "unat ?c < 2 ^ ?l" using fit(1) by (simp only: word_less_nat_alt)
    then show ?thesis by (simp add: take_bit_eq_mask [symmetric] word_unat_eq_iff unsigned_take_bit_eq take_bit_nat_eq_self)
  qed
  ultimately have "?c = mask ?l" by simp
  then show False using fit(2) l7 by (simp add: mask_eq_exp_minus_1)
qed

lemma sample_codes:
  "code_of 61 = [True, False, False, False, False, False]"
  "code_of 69 = [True, True, False, False, False, False, False]"
  "code_of 85 = [True, True, True, False, False, False, False]"
  "code_of 119 = [True, True, True, True, False, False, False]"
  "code_of 38 = [True, True, True, True, True, False, False, False]"
  "code_of 88 = [True, True, True, True, True, True, False, False]"
  "code_of 33 = [True, True, True, True, True, True, True, False, False, False]"
  by code_simp+

lemma padding_known:
  assumes "1 \<le> k" "k \<le> 7"
  shows "\<exists>s. prefix (code_of s) (replicate k True @ replicate (8 - k) False) \<or> prefix (replicate k True @ replicate (8 - k) False) (code_of s)"
proof -
  have "k = 1 \<or> k = 2 \<or> k = 3 \<or> k = 4 \<or> k = 5 \<or> k = 6 \<or> k = 7" using assms by auto
  then show ?thesis
    using sample_codes
    by (elim disjE)
      (rule exI [of _ 61] exI [of _ 69] exI [of _ 85] exI [of _ 119] exI [of _ 38] exI [of _ 88] exI [of _ 33],
       simp add: eval_nat_numeral)+
qed

section \<open>The last partial byte\<close>

lemma last_step_cases:
  fixes cur :: u64
  assumes "decode_inv path st" "cbits st < 8"
  defines "e \<equiv> at_node st ! unat (ucast (push_bit (8 - cbits st) cur) :: u8)"
    and "bs \<equiv> low (cbits st) cur @ replicate (8 - cbits st) False"
  obtains (invalid) "e = None" "\<And>s. \<not> prefix (code_of s) (path @ bs) \<and> \<not> prefix (path @ bs) (code_of s)"
  | (leaf) l s where "e = Some (Leaf l s)" "1 \<le> l" "code_of s = path @ take l bs" "l \<le> 8"
  | (inner) c s where "e = Some (Internal c)" "strict_prefix (path @ bs) (code_of s)"
proof -
  let ?b = "ucast (push_bit (8 - cbits st) cur) :: u8"
  have bs: "low 8 ?b = bs" using padded_byte [of "cbits st" cur] assms(2) by (simp add: bs_def)
  show ?thesis
    using child_cases [OF assms(1), of ?b] that unfolding bs e_def [symmetric] by metis
qed

lemma last_steps_sound:
  assumes "represents all_codes root"
  shows "\<lbrakk>decode_inv path st; cbits st < 8; cbits st \<le> fuel; fits maxLen (out st); last_steps fuel root maxLen cur st = Return st'\<rbrakk> \<Longrightarrow>
    \<exists>path'. decode_inv path' st' \<and> cbits st' < 8 \<and> fits maxLen (out st') \<and>
      encode_bits (out st') @ pending path' cur st' = encode_bits (out st) @ pending path cur st"
proof (induction fuel arbitrary: path st)
  case 0
  then show ?case by (auto simp: last_steps.simps [of 0])
next
  case (Suc fuel)
  show ?case
  proof (cases "cbits st = 0")
    case True
    then show ?thesis using Suc.prems by (auto simp: last_steps.simps [of "Suc fuel"])
  next
    case False
    show ?thesis
    proof (cases rule: last_step_cases [OF Suc.prems(1,2), of cur, case_names invalid leaf inner])
      case invalid
      then show ?thesis using Suc.prems(5) False by (simp add: last_steps.simps [of "Suc fuel"])
    next
      case (leaf l s)
      show ?thesis
      proof (cases "l > cbits st")
        case True
        then show ?thesis using leaf(1) False Suc.prems by (auto simp: last_steps.simps [of "Suc fuel"])
      next
        case le: False
        obtain st1 where st1: "write_sym root maxLen l s st = Return st1" "last_steps fuel root maxLen cur st1 = Return st'"
          using Suc.prems(5) False leaf(1) le by (auto simp: last_steps.simps [of "Suc fuel"])
        have f: "fits maxLen (out st1)" "st1 = emitted root l s st"
          using write_sym_simps(2) [OF Suc.prems(4) st1(1)] by (auto simp: emitted_def)
        have i: "decode_inv [] st1" using decode_inv_root [OF assms] f(2) by (simp add: emitted_def)
        have c: "cbits st1 < 8" "cbits st1 \<le> fuel" using leaf(2) Suc.prems(2,3) f(2) by (simp_all add: emitted_def)
        have "encode_bits (out st1) @ pending [] cur st1 = encode_bits (out st) @ pending path cur st"
          using f(2) leaf(3) le take_low [of l "cbits st" cur] by (simp add: emitted_def pending_def)
        then show ?thesis using Suc.IH [OF i c f(1) st1(2)] by auto
      qed
    next
      case (inner c s)
      then show ?thesis using Suc.prems False by (auto simp: last_steps.simps [of "Suc fuel"])
    qed
  qed
qed

text \<open>With no symbol left, the loop stops on a padding of ones.\<close>

lemma last_steps_padding:
  assumes "decode_inv path st" "cbits st < 8" "cbits st \<le> fuel" "pending path cur st = replicate k True" "k \<le> 7"
  shows "last_steps fuel root maxLen cur st = Return st" "sbits st \<le> 7" "low (cbits st) cur = replicate (cbits st) True"
proof -
  have "length path + cbits st = k" using arg_cong [OF assms(4), of length] by (simp add: pending_def)
  then have path: "path = []" "cbits st = k" using assms(1,5) by (auto simp: decode_inv_def)
  then show ones: "low (cbits st) cur = replicate (cbits st) True" using assms(4) by (simp add: pending_def)
  show "sbits st \<le> 7" using assms(1,5) path by (simp add: decode_inv_def)
  show "last_steps fuel root maxLen cur st = Return st"
  proof (cases "k = 0")
    case True
    then show ?thesis using path by (simp add: last_steps.simps)
  next
    case False
    then obtain n where n: "fuel = Suc n" using assms(3) path by (cases fuel) auto
    show ?thesis
    proof (cases rule: last_step_cases [OF assms(1,2), of cur, case_names invalid leaf inner])
      case invalid
      then show ?thesis using padding_known [of k] False assms(5) path ones by auto
    next
      case (leaf l s)
      have "l > k"
      proof (rule ccontr)
        assume "\<not> l > k"
        then have "code_of s = replicate l True" using leaf(3) path ones by (simp add: min_def)
        then show False using no_ones_code [of s] \<open>\<not> l > k\<close> assms(5) by simp
      qed
      then show ?thesis using leaf(1) n path by (simp add: last_steps.simps)
    next
      case (inner c s)
      then show ?thesis using n by (simp add: last_steps.simps)
    qed
  qed
qed

lemma last_steps_complete:
  assumes "represents all_codes root" "k \<le> 7"
  shows "\<lbrakk>decode_inv path st; cbits st < 8; cbits st \<le> fuel; fits maxLen (out st @ rest);
      pending path cur st = encode_bits rest @ replicate k True\<rbrakk> \<Longrightarrow>
    \<exists>st'. last_steps fuel root maxLen cur st = Return st' \<and> out st' = out st @ rest \<and> cbits st' < 8 \<and> sbits st' \<le> 7 \<and>
      low (cbits st') cur = replicate (cbits st') True"
proof (induction rest arbitrary: fuel path st)
  case Nil
  then show ?case using last_steps_padding [OF Nil.prems(1-3), of cur k] assms(2) by auto
next
  case (Cons s r)
  let ?bs = "low (cbits st) cur @ replicate (8 - cbits st) False"
  have pre: "prefix (code_of s) (path @ low (cbits st) cur)" using Cons.prems(5) by (simp add: pending_def)
  then have pre8: "prefix (code_of s) (path @ ?bs)" by (metis append.assoc prefix_prefix)
  have pos: "cbits st > 0" using pre not_code_prefix [OF Cons.prems(1), of s] by (cases "cbits st") auto
  then obtain n where n: "fuel = Suc n" using Cons.prems(3) by (cases fuel) auto
  show ?case
  proof (cases rule: last_step_cases [OF Cons.prems(1,2), of cur, case_names invalid leaf inner])
    case invalid
    then show ?thesis using pre8 by blast
  next
    case (leaf l t)
    have "prefix (code_of t) (path @ ?bs)" using leaf(3) take_is_prefix [of l ?bs] by simp
    then have t: "t = s" using pre8 prefix_same_cases code_prefix by blast
    have l: "l \<le> cbits st" using prefix_length_le [OF pre] leaf(3,4) t Cons.prems(2) by simp
    let ?st = "emitted root l s st"
    have code: "code_of s = path @ take l (low (cbits st) cur)" using leaf(3) t l by simp
    have "fits maxLen (out st @ [s])" using Cons.prems(4) by (auto simp: fits_def)
    then have w: "write_sym root maxLen l s st = Return ?st" by (simp add: write_sym_simps(1) emitted_def)
    have "\<exists>st'. last_steps n root maxLen cur ?st = Return st' \<and> out st' = out ?st @ r \<and> cbits st' < 8 \<and> sbits st' \<le> 7 \<and>
        low (cbits st') cur = replicate (cbits st') True"
    proof (rule Cons.IH)
      show "decode_inv [] ?st" using decode_inv_root [OF assms(1)] by (simp add: emitted_def)
      show "cbits ?st < 8" "cbits ?st \<le> n" using Cons.prems(2,3) leaf(2) n by (simp_all add: emitted_def)
      show "fits maxLen (out ?st @ r)" using Cons.prems(4) by (simp add: emitted_def)
      have "path @ take l (low (cbits st) cur) @ low (cbits st - l) cur = code_of s @ encode_bits r @ replicate k True"
        using Cons.prems(5) take_low [OF l, of cur] by (simp add: pending_def)
      then show "pending [] cur ?st = encode_bits r @ replicate k True"
        using code by (simp add: pending_def emitted_def)
    qed
    then show ?thesis using n pos leaf(1) t l w by (simp add: last_steps.simps [of "Suc n"] emitted_def)
  next
    case (inner c t)
    then have "prefix (code_of s) (code_of t)" using pre8 prefix_order.trans by (auto simp: strict_prefix_def)
    then show ?thesis using code_prefix [of s t] inner(2) pre8 prefix_order.antisym by (auto simp: strict_prefix_def)
  qed
qed

section \<open>The decoder accepts exactly the encodings\<close>

lemma root_built: obtains root where "buildRootHuffmanNode = Return root" "represents all_codes root"
  using root_represents by blast

lemma huffmanDecode_iff:
  "huffmanDecode maxLen v = Return s \<longleftrightarrow>
     (\<exists>k. k \<le> 7 \<and> bits_of v = encode_bits s @ replicate k True) \<and> (maxLen = 0 \<or> length s \<le> maxLen)"
proof -
  obtain root where root: "buildRootHuffmanNode = Return root" "represents all_codes root" by (rule root_built)
  let ?st0 = "\<lparr>at_node = root, cbits = 0, sbits = 0, out = []\<rparr>"
  have i0: "decode_inv [] ?st0" using decode_inv_root [OF root(2)] by simp
  have p0: "pending [] 0 ?st0 = []" by (simp add: pending_def)
  show ?thesis unfolding fits_def [symmetric]
  proof
    assume "huffmanDecode maxLen v = Return s"
    then obtain cur st st' where d: "feed_bytes root maxLen v 0 ?st0 = Return (cur, st)"
      "last_steps (cbits st) root maxLen cur st = Return st'" "sbits st' \<le> 7" "out st' = s"
      "cur AND (push_bit (cbits st') 1 - 1) = push_bit (cbits st') 1 - 1"
      by (auto simp: huffmanDecode_def root(1) split: if_splits)
    obtain path where p: "decode_inv path st" "cbits st < 8" "fits maxLen (out st)"
      "encode_bits (out st) @ pending path cur st = bits_of v"
      using feed_bytes_sound [OF root(2) i0 _ _ d(1)] p0 by (auto simp: fits_def)
    obtain path' where p': "decode_inv path' st'" "cbits st' < 8" "fits maxLen s"
      "encode_bits s @ pending path' cur st' = bits_of v"
      using last_steps_sound [OF root(2) p(1,2) order_refl p(3) d(2)] p(4) d(4) by auto
    have "path' = []" using p'(1) d(3) by (auto simp: decode_inv_def)
    then show "(\<exists>k. k \<le> 7 \<and> bits_of v = encode_bits s @ replicate k True) \<and> fits maxLen s"
      using p' d(5) mask_check [of "cbits st'" cur] by (auto simp: pending_def intro!: exI [of _ "cbits st'"])
  next
    assume "(\<exists>k. k \<le> 7 \<and> bits_of v = encode_bits s @ replicate k True) \<and> fits maxLen s"
    then obtain k where k: "k \<le> 7" "bits_of v = encode_bits s @ replicate k True" "fits maxLen s" by blast
    obtain cur st path rest where f: "feed_bytes root maxLen v 0 ?st0 = Return (cur, st)" "decode_inv path st" "cbits st < 8"
      "out st @ rest = s" "pending path cur st = encode_bits rest @ replicate k True"
      using feed_bytes_complete [OF root(2) _ i0, of "replicate k True" maxLen s 0 v] k p0 by auto
    obtain st' where l: "last_steps (cbits st) root maxLen cur st = Return st'" "out st' = s" "cbits st' < 8" "sbits st' \<le> 7"
      "low (cbits st') cur = replicate (cbits st') True"
      using last_steps_complete [OF root(2) k(1) f(2,3) order_refl _ f(5)] f(4) k(3) by auto
    then show "huffmanDecode maxLen v = Return s"
      using f(1) mask_check [of "cbits st'" cur] by (simp add: huffmanDecode_def root(1))
  qed
qed

lemma full_steps_no_panic:
  assumes "represents all_codes root"
  shows "\<lbrakk>decode_inv path st; cbits st \<le> fuel\<rbrakk> \<Longrightarrow> full_steps fuel root maxLen cur st \<noteq> Panic"
proof (induction fuel arbitrary: path st)
  case 0
  then show ?case by (simp add: full_steps.simps [of 0])
next
  case (Suc fuel)
  show ?case
  proof (cases "cbits st < 8")
    case True
    then show ?thesis by (simp add: full_steps.simps [of "Suc fuel"])
  next
    case False
    then have c: "8 \<le> cbits st" by simp
    show ?thesis
    proof (cases rule: full_step_cases [OF Suc.prems(1) c, of cur, case_names invalid leaf inner])
      case (leaf l s)
      have "full_steps fuel root maxLen cur (emitted root l s st) \<noteq> Panic"
        using leaf(2) Suc.prems(2) decode_inv_root [OF assms] by (intro Suc.IH) (auto simp: emitted_def)
      then show ?thesis using False leaf(1)
        by (auto simp: full_steps.simps [of "Suc fuel"] write_sym_def emitted_def)
    next
      case (inner n)
      then show ?thesis using Suc.IH [OF inner(2)] Suc.prems(2) c by (simp add: full_steps.simps [of "Suc fuel"])
    qed (use False in \<open>simp add: full_steps.simps [of "Suc fuel"]\<close>)
  qed
qed

lemma last_steps_no_panic:
  assumes "represents all_codes root"
  shows "\<lbrakk>decode_inv path st; cbits st < 8; cbits st \<le> fuel\<rbrakk> \<Longrightarrow> last_steps fuel root maxLen cur st \<noteq> Panic"
proof (induction fuel arbitrary: path st)
  case 0
  then show ?case by (simp add: last_steps.simps [of 0])
next
  case (Suc fuel)
  show ?case
  proof (cases rule: last_step_cases [OF Suc.prems(1,2), of cur, case_names invalid leaf inner])
    case (leaf l s)
    have "last_steps fuel root maxLen cur (emitted root l s st) \<noteq> Panic"
      using leaf(2) Suc.prems(2,3) decode_inv_root [OF assms] by (intro Suc.IH) (auto simp: emitted_def)
    then show ?thesis using leaf(1) by (auto simp: last_steps.simps [of "Suc fuel"] write_sym_def emitted_def)
  qed (simp_all add: last_steps.simps [of "Suc fuel"])
qed

lemma feed_bytes_no_panic:
  assumes "represents all_codes root"
  shows "\<lbrakk>decode_inv path st; cbits st < 8; fits maxLen (out st)\<rbrakk> \<Longrightarrow> feed_bytes root maxLen v cur st \<noteq> Panic"
proof (induction v arbitrary: path cur st)
  case (Cons b v)
  note f = feed_step [OF Cons.prems(1,2)]
  let ?cur = "push_bit 8 cur OR ucast b" and ?st = "st\<lparr>cbits := cbits st + 8, sbits := sbits st + 8\<rparr>"
  show ?case
  proof (cases "full_steps (cbits ?st) root maxLen ?cur ?st")
    case (Return st1)
    then obtain p where "decode_inv p st1" "cbits st1 < 8" "fits maxLen (out st1)"
      using full_steps_sound [OF assms f(1) order_refl _ Return] Cons.prems(3) by auto
    then show ?thesis using Cons.IH Return by (simp add: Let_def)
  qed (use full_steps_no_panic [OF assms f(1) order_refl] in \<open>auto simp: Let_def\<close>)
qed simp

lemma huffmanDecode_no_panic: "huffmanDecode maxLen v \<noteq> Panic"
proof -
  obtain root where root: "buildRootHuffmanNode = Return root" "represents all_codes root" by (rule root_built)
  let ?st0 = "\<lparr>at_node = root, cbits = 0, sbits = 0, out = []\<rparr>"
  have i0: "decode_inv [] ?st0" using decode_inv_root [OF root(2)] by simp
  have f: "feed_bytes root maxLen v 0 ?st0 \<noteq> Panic"
    using feed_bytes_no_panic [OF root(2) i0] by (simp add: fits_def)
  show ?thesis
  proof (cases "feed_bytes root maxLen v 0 ?st0")
    case (Return cs)
    obtain cur st where cs: "cs = (cur, st)" by force
    have z: "cbits ?st0 < 8" "fits maxLen (out ?st0)" by (simp_all add: fits_def)
    obtain path where "decode_inv path st" "cbits st < 8"
      using feed_bytes_sound [OF root(2) i0 z Return [unfolded cs]] by blast
    then have "last_steps (cbits st) root maxLen cur st \<noteq> Panic" using last_steps_no_panic [OF root(2)] by blast
    then show ?thesis using Return cs
      by (cases "last_steps (cbits st) root maxLen cur st") (simp_all add: huffmanDecode_def root(1))
  qed (use f in \<open>simp_all add: huffmanDecode_def root(1)\<close>)
qed

section \<open>The encoder writes the codes and pads with ones\<close>

lemma code_bits: "bit (ucast (huffmanCodes ! unat s) :: u64) j \<Longrightarrow> j < huffmanCodeLen ! unat (s :: u8)"
proof (rule ccontr)
  let ?c = "huffmanCodes ! unat s" and ?l = "huffmanCodeLen ! unat s"
  assume b: "bit (ucast ?c :: u64) j" and "\<not> j < ?l"
  have fit: "?c < push_bit ?l 1" and l: "?l \<le> 30"
    using table_codes_fit table_code_lengths byte_unat_less [of s] by (auto simp: list_all_length table_lengths)
  have "unat (push_bit ?l 1 :: u32) = 2 ^ ?l"
    using l by (simp add: take_bit_nat_eq_self unsigned_push_bit_eq del: push_bit_of_1)
  then have "unat ?c < 2 ^ ?l" using fit by (simp only: word_less_nat_alt)
  then have "take_bit ?l (unat ?c) = unat ?c" by (simp add: take_bit_nat_eq_self)
  moreover have "bit (unat ?c) j" using b by (simp add: bit_simps)
  ultimately have "bit (take_bit ?l (unat ?c)) j" by simp
  then show False using \<open>\<not> j < ?l\<close> by (simp add: bit_take_bit_iff)
qed

lemma low_code: "n < 32 \<Longrightarrow> low (n + huffmanCodeLen ! unat s)
    (push_bit (huffmanCodeLen ! unat s) x OR ucast (huffmanCodes ! unat s) :: u64) = low n x @ code_of s"
proof -
  assume n: "n < 32"
  have "huffmanCodeLen ! unat s \<le> 30" using code_length(2) [of s] by (simp add: code_of_def)
  then show ?thesis
    using n low_shift_or [of n "huffmanCodeLen ! unat s" "ucast (huffmanCodes ! unat s) :: u64" x] code_bits
    by (simp add: code_of_def low_ucast)
qed

lemma low_two_bytes: "low 16 y = low 8 (ucast (drop_bit 8 y) :: u8) @ low 8 (ucast y :: u8)"
  using low_add [of 8 8 y] by (simp add: low_ucast)

lemma low_four_bytes: "low 32 y = low 8 (ucast (drop_bit 24 y) :: u8) @ low 8 (ucast (drop_bit 16 y) :: u8) @
    low 8 (ucast (drop_bit 8 y) :: u8) @ low 8 (ucast y :: u8)"
  using low_add [of 16 16 y] low_two_bytes [of "drop_bit 16 y"] low_two_bytes [of y] by simp

lemma encode_loop_bits:
  "\<lbrakk>n < 32; encode_loop s x n dst = (x', n', dst')\<rbrakk> \<Longrightarrow>
     n' < 32 \<and> bits_of dst' @ low n' x' = bits_of dst @ low n x @ encode_bits s"
proof (induction s arbitrary: x n dst)
  case (Cons c s)
  let ?l = "huffmanCodeLen ! unat c" and ?x = "push_bit (huffmanCodeLen ! unat c mod 64) x OR ucast (huffmanCodes ! unat c)"
  have l: "?l \<le> 30" using code_length(2) [of c] by (simp add: code_of_def)
  then have low: "low (n + ?l) ?x = low n x @ code_of c" using low_code [OF Cons.prems(1), of c x] by simp
  show ?case
  proof (cases "n + ?l \<ge> 32")
    case True
    let ?n = "(n + ?l) mod 32" and ?y = "ucast (drop_bit ((n + ?l) mod 32) ?x) :: u32"
    let ?bs = "[ucast (drop_bit 24 ?y), ucast (drop_bit 16 ?y), ucast (drop_bit 8 ?y), ucast ?y] :: u8 list"
    have n: "n + ?l = 32 + ?n" using True l Cons.prems(1) by (simp add: le_mod_geq)
    have "bits_of ?bs @ low ?n ?x = low (32 + ?n) ?x"
      using low_four_bytes [of ?y] low_add [of 32 ?n ?x] by (simp add: low_ucast)
    then have "bits_of (dst @ ?bs) @ low ?n ?x @ encode_bits s = bits_of dst @ low n x @ encode_bits (c # s)"
      using low n by (metis append.assoc bits_of_simps(3) encode_bits_simps(2))
    then show ?thesis using Cons.IH [of ?n ?x "dst @ ?bs"] Cons.prems(2) True by (simp add: Let_def)
  next
    case False
    then show ?thesis using Cons.IH [of "n + ?l" ?x dst] Cons.prems(2) low by (simp add: Let_def)
  qed
qed simp

lemma low_pad: "\<lbrakk>n < 32; 0 < n mod 8\<rbrakk> \<Longrightarrow> low (n + (8 - n mod 8)) (push_bit (8 - n mod 8) x OR drop_bit (n mod 8) eosPadByte) =
    low n x @ replicate (8 - n mod 8) True"
proof -
  assume n: "n < 32" "0 < n mod 8"
  have e: "eosPadByte = mask 8" by (simp add: eosPadByte_def mask_eq_exp_minus_1)
  have b: "bit (drop_bit (n mod 8) eosPadByte) j \<longleftrightarrow> j < 8 - n mod 8" for j
    by (auto simp: e bit_simps)
  have "low (8 - n mod 8) (drop_bit (n mod 8) eosPadByte) = replicate (8 - n mod 8) True"
    unfolding low_ones_iff by (simp add: b)
  then show ?thesis using low_shift_or [of n "8 - n mod 8" "drop_bit (n mod 8) eosPadByte" x] b n by simp
qed

lemma flush_bits:
  fixes x :: u64
  assumes "m = 0 \<or> m = 8 \<or> m = 16 \<or> m = 24 \<or> m = 32"
  shows "bits_of (if m div 8 = 0 then dst else if m div 8 = 1 then dst @ [ucast x]
      else if m div 8 = 2 then dst @ [ucast (drop_bit 8 (ucast x :: u16)), ucast (ucast x :: u16)]
      else if m div 8 = 3 then dst @ [ucast (drop_bit 8 (ucast (drop_bit 8 x) :: u16)), ucast (ucast (drop_bit 8 x) :: u16), ucast x]
      else dst @ [ucast (drop_bit 24 (ucast x :: u32)), ucast (drop_bit 16 (ucast x :: u32)), ucast (drop_bit 8 (ucast x :: u32)), ucast (ucast x :: u32)]) =
    bits_of dst @ low m x"
proof -
  have l16: "low 16 x = bits_of [ucast (drop_bit 8 (ucast x :: u16)), ucast (ucast x :: u16)]"
    using low_two_bytes [of "ucast x :: u16"] low_ucast [where 'b = 16, of 16 x] by simp
  have l32: "low 32 x = bits_of [ucast (drop_bit 24 (ucast x :: u32)), ucast (drop_bit 16 (ucast x :: u32)),
      ucast (drop_bit 8 (ucast x :: u32)), ucast (ucast x :: u32)]"
    using low_four_bytes [of "ucast x :: u32"] low_ucast [where 'b = 32, of 32 x] by simp
  have l8: "low 8 x = bits_of [ucast x]" using low_ucast [where 'b = 8, of 8 x] by simp
  have l24: "low 24 x = bits_of [ucast (drop_bit 8 (ucast (drop_bit 8 x) :: u16)), ucast (ucast (drop_bit 8 x) :: u16), ucast x]"
    using low_add [of 16 8 x] low_two_bytes [of "ucast (drop_bit 8 x) :: u16"]
      low_ucast [where 'b = 16, of 16 "drop_bit 8 x"] l8 by simp
  from assms show ?thesis
  proof (elim disjE)
  qed (simp_all only: l8 l16 l24 l32 bits_of_simps(3), simp_all)
qed

lemma AppendHuffmanString_bits:
  "\<exists>k. k \<le> 7 \<and> bits_of (AppendHuffmanString dst s) = bits_of dst @ encode_bits s @ replicate k True"
proof -
  obtain x n d where e: "encode_loop s 0 0 dst = (x, n, d)" by (cases "encode_loop s 0 0 dst")
  have n: "n < 32" and bits: "bits_of d @ low n x = bits_of dst @ encode_bits s"
    using encode_loop_bits [OF _ e] by auto
  define k where "k = (if n mod 8 > 0 then 8 - n mod 8 else 0)"
  define x' where "x' = (if n mod 8 > 0 then push_bit (8 - n mod 8) x OR drop_bit (n mod 8) eosPadByte else x)"
  have low: "low (n + k) x' = low n x @ replicate k True" using low_pad [OF n, of x] by (simp add: k_def x'_def)
  have k: "k \<le> 7" by (auto simp: k_def)
  have "(n + (8 - n mod 8)) mod 8 = 0" by presburger
  then have "(n + k) mod 8 = 0" by (simp add: k_def)
  moreover have "n + (8 - n mod 8) \<le> 32" using n by presburger
  then have "n + k \<le> 32" using n by (simp add: k_def)
  ultimately obtain q where "n + k = 8 * q" "q \<le> 4" by (auto elim!: dvdE simp: mod_eq_0_iff_dvd)
  moreover from \<open>q \<le> 4\<close> have "q = 0 \<or> q = 1 \<or> q = 2 \<or> q = 3 \<or> q = 4" by auto
  ultimately have c: "n + k = 0 \<or> n + k = 8 \<or> n + k = 16 \<or> n + k = 24 \<or> n + k = 32" by auto
  have p: "(if n mod 8 > 0 then (push_bit (8 - n mod 8) x OR drop_bit (n mod 8) eosPadByte, n + (8 - n mod 8)) else (x, n)) = (x', n + k)"
    by (simp add: x'_def k_def)
  have "bits_of (AppendHuffmanString dst s) = bits_of d @ low (n + k) x'"
    unfolding AppendHuffmanString_def e Let_def prod.case p by (rule flush_bits [OF c])
  then show ?thesis using low bits k by (metis append.assoc)
qed

lemma encoded_length: "fold (\<lambda>c n. n + huffmanCodeLen ! unat c) s k = k + length (encode_bits s)"
  by (induction s arbitrary: k) (auto simp: code_of_def)

lemma length_AppendHuffmanString: "length (AppendHuffmanString dst s) = length dst + HuffmanEncodeLength s"
proof -
  obtain k where k: "k \<le> 7" "bits_of (AppendHuffmanString dst s) = bits_of dst @ encode_bits s @ replicate k True"
    using AppendHuffmanString_bits by blast
  have "8 * length (AppendHuffmanString dst s) = 8 * length dst + (length (encode_bits s) + k)"
    using arg_cong [OF k(2), of length] by simp
  then show ?thesis using k(1) by (simp add: HuffmanEncodeLength_def encoded_length)
qed

lemma bits_of_inject: "bits_of a = bits_of b \<longleftrightarrow> a = b"
proof
  show "bits_of a = bits_of b \<Longrightarrow> a = b"
  proof (induction a arbitrary: b)
    case Nil
    then have "length (bits_of b) = 0" by simp
    then show ?case by simp
  next
    case (Cons x a)
    have "8 * length b = 8 * length (x # a)" using arg_cong [OF Cons.prems, of length] by simp
    then obtain y b' where b: "b = y # b'" by (cases b) auto
    then show ?case using Cons low_byte_inj [of x y] by auto
  qed
qed simp

lemma AppendHuffmanString_append: "AppendHuffmanString dst s = dst @ AppendHuffmanString [] s"
proof -
  obtain k where k: "k \<le> 7" "bits_of (AppendHuffmanString dst s) = bits_of dst @ encode_bits s @ replicate k True"
    using AppendHuffmanString_bits by blast
  obtain m where m: "m \<le> 7" "bits_of (AppendHuffmanString [] s) = encode_bits s @ replicate m True"
    using AppendHuffmanString_bits [of "[]" s] by auto
  have "8 * length (AppendHuffmanString [] s) = length (encode_bits s) + m" using arg_cong [OF m(2), of length] by simp
  moreover have "8 * length (AppendHuffmanString dst s) = 8 * length dst + (length (encode_bits s) + k)"
    using arg_cong [OF k(2), of length] by simp
  ultimately have "m + 8 * length (AppendHuffmanString dst s) = k + 8 * (length dst + length (AppendHuffmanString [] s))"
    by simp
  then have "m mod 8 = k mod 8" by (metis mod_mult_self2)
  then have "k = m" using k(1) m(1) by simp
  then show ?thesis using k(2) m(2) by (simp flip: bits_of_inject)
qed

section \<open>Properties\<close>

text \<open>C36: \<open>huffmanDecode\<close> returns a string exactly when its input is the concatenation of the string's codes followed by
  at most seven padding bits, all ones, and the string keeps within the length limit (zero meaning none); and it
  never panics. In particular the EOS symbol, longer or other padding and truncated codes are rejected.\<close>

theorem huffmanDecode_exact:
  "(huffmanDecode maxLen v = Return s \<longleftrightarrow>
     (\<exists>k. k \<le> 7 \<and> bits_of v = encode_bits s @ replicate k True) \<and> (maxLen = 0 \<or> length s \<le> maxLen)) \<and>
   huffmanDecode maxLen v \<noteq> Panic"
  using huffmanDecode_iff huffmanDecode_no_panic by blast

text \<open>C37: Decoding what \<open>AppendHuffmanString\<close> writes returns the string, whatever its bytes, and
  \<open>HuffmanEncodeLength\<close> is the number of bytes it writes.\<close>

theorem AppendHuffmanString_round_trip:
  "HuffmanDecodeToString (AppendHuffmanString [] s) = Return s \<and>
   AppendHuffmanString dst s = dst @ AppendHuffmanString [] s \<and>
   length (AppendHuffmanString [] s) = HuffmanEncodeLength s"
  using AppendHuffmanString_bits [of "[]" s] AppendHuffmanString_append [of dst s] length_AppendHuffmanString [of "[]" s]
  by (simp add: HuffmanDecodeToString_def huffmanDecode_iff)

end
