(* ===== verification/HPACK_Decode.thy ===== *)
theory HPACK_Decode
  imports HPACK_Table HPACK_Huffman_Code
begin

text \<open>
  The decoder of \<open>src/http2/hpack/hpack.go\<close>.  The methods of \<open>Decoder\<close> are state transformers, so that what a
  failed call has changed stays changed.  The callback \<open>emit\<close> is known by what it does to the decoder: \<open>emits\<close> is the list of
  the fields it was called with, and \<open>emit_keep\<close> says, for the fields it was called with so far, whether it leaves
  emission enabled (the callback of the HTTP/2 framer switches it off).  \<open>saveBuf\<close> and \<open>buf\<close> are byte lists (\<open>buf\<close> may alias the storage of \<open>saveBuf\<close>, which is only ever overwritten by a copy of
  \<open>buf\<close> itself).  \<open>Write\<close> runs its loop with the length of the buffer as fuel, since every parsed representation
  consumes at least one byte.
\<close>

unbundle bit_operations_syntax

section \<open>The decoder\<close>

record Decoder =
  dec_dynTab :: dynamicTable
  emitEnabled :: bool
  maxStrLen :: int
  dec_buf :: bytes
  saveBuf :: bytes
  firstField :: bool
  emits :: "HeaderField list"
  emit_keep :: "HeaderField list \<Rightarrow> bool"

type_synonym 'a decoder = "(Decoder, hpack_error, 'a) meth"

definition NewDecoder :: "u32 \<Rightarrow> (HeaderField list \<Rightarrow> bool) \<Rightarrow> Decoder hpack" where
  "NewDecoder maxDynamicTableSize emitFunc =
     bind_outcome (setMaxSize (zero_dynamicTable\<lparr>allowedMaxSize := maxDynamicTableSize\<rparr>) maxDynamicTableSize) (\<lambda>dt.
     Return \<lparr>dec_dynTab = dt, emitEnabled = True, maxStrLen = 0, dec_buf = [], saveBuf = [], firstField = True, emits = [],
       emit_keep = emitFunc\<rparr>)"

definition SetMaxStringLength :: "Decoder \<Rightarrow> int \<Rightarrow> Decoder" where
  "SetMaxStringLength d n = d\<lparr>maxStrLen := n\<rparr>"

definition SetEmitEnabled :: "Decoder \<Rightarrow> bool \<Rightarrow> Decoder" where
  "SetEmitEnabled d v = d\<lparr>emitEnabled := v\<rparr>"

text \<open>A new callback has not been called yet.\<close>

definition SetEmitFunc :: "Decoder \<Rightarrow> (HeaderField list \<Rightarrow> bool) \<Rightarrow> Decoder" where
  "SetEmitFunc d emitFunc = d\<lparr>emits := [], emit_keep := emitFunc\<rparr>"

definition EmitEnabled :: "Decoder \<Rightarrow> bool" where
  "EmitEnabled d = emitEnabled d"

definition Decoder_SetMaxDynamicTableSize :: "Decoder \<Rightarrow> u32 \<Rightarrow> Decoder hpack" where
  "Decoder_SetMaxDynamicTableSize d v = bind_outcome (setMaxSize (dec_dynTab d) v) (\<lambda>dt. Return (d\<lparr>dec_dynTab := dt\<rparr>))"

definition SetAllowedMaxDynamicTableSize :: "Decoder \<Rightarrow> u32 \<Rightarrow> Decoder" where
  "SetAllowedMaxDynamicTableSize d v = d\<lparr>dec_dynTab := (dec_dynTab d)\<lparr>allowedMaxSize := v\<rparr>\<rparr>"

definition maxTableIndex :: "Decoder \<Rightarrow> nat" where
  "maxTableIndex d = table_len (dt_table (dec_dynTab d)) + table_len staticTable"

definition decoder_at :: "Decoder \<Rightarrow> u64 \<Rightarrow> HeaderField option hpack" where
  "decoder_at d i =
     (if i = 0 then Return None
      else if unat i \<le> table_len staticTable then
        bind_outcome (go_index (ents staticTable) (unat (i - 1))) (\<lambda>hf. Return (Some hf))
      else if unat i > maxTableIndex d then Return None
      else
        let dt = dt_table (dec_dynTab d) in
        bind_outcome (go_index (ents dt) (table_len dt - (unat i - table_len staticTable))) (\<lambda>hf. Return (Some hf)))"

section \<open>Parsing\<close>

definition callEmit :: "HeaderField \<Rightarrow> unit decoder" where
  "callEmit hf d =
     (if maxStrLen d \<noteq> 0 \<and> (int (length (HName hf)) > maxStrLen d \<or> int (length (HValue hf)) > maxStrLen d)
      then (Fail ErrStringLength, d)
      else (Return (), if emitEnabled d then d\<lparr>emits := emits d @ [hf], emitEnabled := emit_keep d (emits d @ [hf])\<rparr> else d))"

text \<open>The limit of \<open>huffmanDecode\<close> counts from zero, so that a negative \<open>maxStrLen\<close> is no limit there.\<close>

definition readString :: "Decoder \<Rightarrow> bytes \<Rightarrow> bool \<Rightarrow> (bytes \<times> bytes) hpack" where
  "readString d p wantStr =
     (case p of
        [] \<Rightarrow> Fail errNeedMore
      | b # _ \<Rightarrow>
          let isHuff = (b AND 128 \<noteq> 0) in
          bind_outcome (readVarInt 7 p) (\<lambda>(strLen, p).
          if maxStrLen d \<noteq> 0 \<and> strLen > of_int (maxStrLen d) then Fail ErrStringLength
          else if length p < unat strLen then Fail errNeedMore
          else if \<not> isHuff then
            Return (if wantStr then take (unat strLen) p else [], drop (unat strLen) p)
          else if wantStr then
            bind_outcome (huffmanDecode (nat (maxStrLen d)) (take (unat strLen) p)) (\<lambda>s.
            Return (s, drop (unat strLen) p))
          else Return ([], drop (unat strLen) p)))"

datatype indexType = indexedTrue | indexedFalse | indexedNever

definition indexed :: "indexType \<Rightarrow> bool" where
  "indexed v \<longleftrightarrow> v = indexedTrue"

definition sensitive :: "indexType \<Rightarrow> bool" where
  "sensitive v \<longleftrightarrow> v = indexedNever"

definition parseFieldIndexed :: "unit decoder" where
  "parseFieldIndexed d =
     bind_meth (lift_meth (readVarInt 7 (dec_buf d))) (\<lambda>(idx, buf).
     bind_meth (lift_meth (decoder_at d idx)) (\<lambda>hf.
     case hf of
       None \<Rightarrow> lift_meth (Fail (DecodingError (InvalidIndexError (sint idx))))
     | Some hf \<Rightarrow> \<lambda>d. callEmit \<lparr>HName = HName hf, HValue = HValue hf, Sensitive = False\<rparr> (d\<lparr>dec_buf := buf\<rparr>))) d"

text \<open>The name of a literal: that of the entry, or a string.\<close>

definition literal_name :: "Decoder \<Rightarrow> u64 \<Rightarrow> bytes \<Rightarrow> bool \<Rightarrow> (bytes \<times> bytes) hpack" where
  "literal_name d nameIdx buf wantStr =
     (if nameIdx > 0 then
        bind_outcome (decoder_at d nameIdx) (\<lambda>ihf.
        case ihf of
          None \<Rightarrow> Fail (DecodingError (InvalidIndexError (sint nameIdx)))
        | Some ihf \<Rightarrow> Return (HName ihf, buf))
      else readString d buf wantStr)"

definition parseFieldLiteral :: "nat \<Rightarrow> indexType \<Rightarrow> unit decoder" where
  "parseFieldLiteral n it d =
     bind_meth (lift_meth (readVarInt n (dec_buf d))) (\<lambda>(nameIdx, buf).
     let wantStr = (emitEnabled d \<or> indexed it) in
     bind_meth (lift_meth (literal_name d nameIdx buf wantStr)) (\<lambda>(name, buf).
     bind_meth (lift_meth (readString d buf wantStr)) (\<lambda>(val, buf).
     let hf = \<lparr>HName = name, HValue = val, Sensitive = False\<rparr> in
     bind_meth (lift_meth (if indexed it then dynamic_add (dec_dynTab d) hf else Return (dec_dynTab d))) (\<lambda>dt d.
     callEmit (hf\<lparr>Sensitive := sensitive it\<rparr>) (d\<lparr>dec_buf := buf, dec_dynTab := dt\<rparr>))))) d"

definition parseDynamicTableSizeUpdate :: "unit decoder" where
  "parseDynamicTableSizeUpdate d =
     (if \<not> firstField d \<and> dt_size (dec_dynTab d) > 0 then (Fail (DecodingError SizeUpdateNotFirst), d)
      else
        bind_meth (lift_meth (readVarInt 5 (dec_buf d))) (\<lambda>(size, buf).
        if size > ucast (allowedMaxSize (dec_dynTab d)) then lift_meth (Fail (DecodingError SizeUpdateTooLarge))
        else
          bind_meth (lift_meth (setMaxSize (dec_dynTab d) (ucast size))) (\<lambda>dt d.
          (Return (), d\<lparr>dec_dynTab := dt, dec_buf := buf\<rparr>))) d)"

definition parseHeaderFieldRepr :: "unit decoder" where
  "parseHeaderFieldRepr d =
     (case go_index (dec_buf d) 0 of
        Return b \<Rightarrow>
          if b AND 128 \<noteq> 0 then parseFieldIndexed d
          else if b AND 192 = 64 then parseFieldLiteral 6 indexedTrue d
          else if b AND 240 = 0 then parseFieldLiteral 4 indexedFalse d
          else if b AND 240 = 16 then parseFieldLiteral 4 indexedNever d
          else if b AND 224 = 32 then parseDynamicTableSizeUpdate d
          else (Fail (DecodingError InvalidEncoding), d)
      | Fail e \<Rightarrow> (Fail e, d)
      | Panic \<Rightarrow> (Panic, d))"

section \<open>Blocks\<close>

text \<open>The last resort check of \<open>Write\<close>, in 64 bit arithmetic.\<close>

definition too_long :: "Decoder \<Rightarrow> bool" where
  "too_long d \<longleftrightarrow> maxStrLen d \<noteq> 0 \<and> int (length (dec_buf d)) > sint (2 * (of_int (maxStrLen d) + 8) :: u64)"

fun write_loop :: "nat \<Rightarrow> nat \<Rightarrow> Decoder \<Rightarrow> (nat \<times> hpack_error option) hpack \<times> Decoder" where
  "write_loop fuel len d =
     (if dec_buf d = [] then (Return (len, None), d)
      else case fuel of
        0 \<Rightarrow> (Panic, d)
      | Suc fuel \<Rightarrow>
          (case parseHeaderFieldRepr d of
             (Return _, d) \<Rightarrow> write_loop fuel len (d\<lparr>firstField := False\<rparr>)
           | (Fail err, d) \<Rightarrow>
               if err = errNeedMore then
                 if too_long d then (Return (0, Some ErrStringLength), d)
                 else (Return (len, None), d\<lparr>saveBuf := saveBuf d @ dec_buf d\<rparr>)
               else (Return (len, Some err), d\<lparr>firstField := False\<rparr>)
           | (Panic, d) \<Rightarrow> (Panic, d)))"

declare write_loop.simps [simp del]

definition Decoder_Write :: "bytes \<Rightarrow> Decoder \<Rightarrow> (nat \<times> hpack_error option) hpack \<times> Decoder" where
  "Decoder_Write p d =
     (if length p = 0 then (Return (0, None), d)
      else
        let d = (if length (saveBuf d) = 0 then d\<lparr>dec_buf := p\<rparr> else d\<lparr>dec_buf := saveBuf d @ p, saveBuf := []\<rparr>) in
        write_loop (length (dec_buf d)) (length p) d)"

definition Decoder_Close :: "unit decoder" where
  "Decoder_Close d =
     (if length (saveBuf d) > 0 then (Fail (DecodingError TruncatedHeaders), d\<lparr>saveBuf := []\<rparr>)
      else (Return (), d\<lparr>firstField := True\<rparr>))"

text \<open>\<open>DecodeFull\<close> collects the calls of its own callback and restores the old one.\<close>

definition DecodeFull :: "bytes \<Rightarrow> (Decoder, hpack_error, HeaderField list) meth" where
  "DecodeFull p d =
     (case
        (case Decoder_Write p (SetEmitFunc d (\<lambda>_. True)) of
           (Return (n, None), d1) \<Rightarrow>
             (case Decoder_Close d1 of
                (Return _, d2) \<Rightarrow> (Return (emits d2), d2)
              | (Fail err, d2) \<Rightarrow> (Fail err, d2)
              | (Panic, d2) \<Rightarrow> (Panic, d2))
         | (Return (n, Some err), d1) \<Rightarrow> (Fail err, d1)
         | (Fail err, d1) \<Rightarrow> (Fail err, d1)
         | (Panic, d1) \<Rightarrow> (Panic, d1)) of
        (r, d') \<Rightarrow> (r, d'\<lparr>emits := emits d, emit_keep := emit_keep d\<rparr>))"


section \<open>Reading more of the input\<close>

text \<open>A successful read consumes a non-empty prefix and does not look beyond it; a failed read other than
  \<open>errNeedMore\<close> fails on every longer input.\<close>

lemma readString_extend:
  "readString d p w = Return (s, rest) \<Longrightarrow> readString d (p @ q) w = Return (s, rest @ q)"
  "readString d p w = Fail e \<Longrightarrow> e \<noteq> errNeedMore \<Longrightarrow> readString d (p @ q) w = Fail e"
proof -
  have "(\<forall>s rest. readString d p w = Return (s, rest) \<longrightarrow> readString d (p @ q) w = Return (s, rest @ q)) \<and>
      (\<forall>e. readString d p w = Fail e \<longrightarrow> e \<noteq> errNeedMore \<longrightarrow> readString d (p @ q) w = Fail e)"
  proof (cases p)
    case (Cons b bs)
    show ?thesis
    proof (cases "readVarInt 7 (b # bs)")
      case (Return x)
      obtain n r where x: "x = (n, r)" by force
      have "readVarInt 7 (b # bs @ q) = Return (n, r @ q)"
        using readVarInt_extend(1) [of 7 "b # bs" n r q] Return x by simp
      then show ?thesis using Cons Return x
        by (cases "huffmanDecode (nat (maxStrLen d)) (take (unat n) r)") (simp_all add: readString_def)
    next
      case (Fail e)
      then show ?thesis using Cons readVarInt_extend(2) [of 7 "b # bs" e q] by (simp add: readString_def)
    qed (use Cons in \<open>simp add: readString_def\<close>)
  qed (simp add: readString_def)
  then show "readString d p w = Return (s, rest) \<Longrightarrow> readString d (p @ q) w = Return (s, rest @ q)"
    "readString d p w = Fail e \<Longrightarrow> e \<noteq> errNeedMore \<Longrightarrow> readString d (p @ q) w = Fail e"
    by blast+
qed

lemma readVarInt_shorter: "readVarInt n p = Return (v, rest) \<Longrightarrow> length rest < length p"
  using readVarInt_suffix [of n p v rest] by auto

lemma readString_shorter: "readString d p w = Return (s, rest) \<Longrightarrow> length rest < length p"
  by (auto simp: readString_def Let_def dest!: readVarInt_shorter split: list.splits if_splits)

lemma readString_no_panic [simp]: "readString d p w \<noteq> Panic"
  using readVarInt_no_panic [of 7] huffmanDecode_no_panic by (auto simp: readString_def Let_def split: list.splits if_splits)

lemma readString_cong [simp]: "readString (d\<lparr>dec_buf := b\<rparr>) p w = readString d p w"
  by (cases p) (simp_all add: readString_def cong: if_cong)

lemma decoder_at_cong [simp]: "decoder_at (d\<lparr>dec_buf := b\<rparr>) i = decoder_at d i"
  by (simp add: decoder_at_def maxTableIndex_def)

lemma decoder_at_no_panic [simp]: "decoder_at d i \<noteq> Panic"
proof -
  have "unat (i - 1) < 61" if "i \<noteq> 0" "unat i \<le> 61"
    using that by (simp add: unat_minus_one)
  then show ?thesis by (auto simp: decoder_at_def maxTableIndex_def Let_def table_len_def)
qed

lemma decoder_at_not_Fail [simp]: "decoder_at d i \<noteq> Fail e"
  by (auto simp: decoder_at_def Let_def)

lemma callEmit_cong: "callEmit hf (d\<lparr>dec_buf := b @ q\<rparr>) = (case callEmit hf (d\<lparr>dec_buf := b\<rparr>) of (r, d') \<Rightarrow> (r, d'\<lparr>dec_buf := dec_buf d' @ q\<rparr>))"
  by (simp add: callEmit_def)


lemma dynamic_not_Fail [simp]: "dynamic_add dt f \<noteq> Fail e" "setMaxSize dt v \<noteq> Fail e"
  by (auto simp: dynamic_add_def setMaxSize_def evict_def evictOldest_def Let_def split: prod.splits)

text \<open>How a parsing method treats its buffer.\<close>

definition steady :: "unit decoder \<Rightarrow> Decoder \<Rightarrow> bool" where
  "steady f d \<longleftrightarrow> (case f d of (r, d') \<Rightarrow>
     (r = Return () \<longrightarrow> length (dec_buf d') < length (dec_buf d)) \<and>
     (r = Fail errNeedMore \<longrightarrow> d' = d) \<and>
     (r \<noteq> Fail errNeedMore \<longrightarrow> (\<forall>q. f (d\<lparr>dec_buf := dec_buf d @ q\<rparr>) = (r, d'\<lparr>dec_buf := dec_buf d' @ q\<rparr>))))"

lemma callEmit_steady:
  assumes "f d = callEmit hf (d\<lparr>dec_buf := b\<rparr>)" "length b < length (dec_buf d)"
    "\<And>q. f (d\<lparr>dec_buf := dec_buf d @ q\<rparr>) = callEmit hf (d\<lparr>dec_buf := b @ q\<rparr>)"
  shows "steady f d"
  using assms by (auto simp: steady_def callEmit_def)

lemma callEmit_steady_add:
  assumes "f d = callEmit hf (d\<lparr>dec_buf := b, dec_dynTab := dt\<rparr>)" "length b < length (dec_buf d)"
    "\<And>q. f (d\<lparr>dec_buf := dec_buf d @ q\<rparr>) = callEmit hf (d\<lparr>dec_buf := b @ q, dec_dynTab := dt\<rparr>)"
  shows "steady f d"
  using assms by (auto simp: steady_def callEmit_def)

lemma fail_steady:
  assumes "f d = (r, d)" "r \<noteq> Return ()" "\<And>q. r \<noteq> Fail errNeedMore \<Longrightarrow> f (d\<lparr>dec_buf := dec_buf d @ q\<rparr>) = (r, d\<lparr>dec_buf := dec_buf d @ q\<rparr>)"
  shows "steady f d"
  using assms by (auto simp: steady_def)

lemma parseFieldIndexed_steady: "steady parseFieldIndexed d"
proof (cases "readVarInt 7 (dec_buf d)")
  case (Return x)
  obtain idx buf where x: "x = (idx, buf)" by force
  have v: "\<And>q. readVarInt 7 (dec_buf d @ q) = Return (idx, buf @ q)" and l: "length buf < length (dec_buf d)"
    using Return x readVarInt_extend(1) readVarInt_shorter by auto
  show ?thesis
  proof (cases "decoder_at d idx")
    case at: (Return hf)
    show ?thesis
    proof (cases hf)
      case None
      then show ?thesis using Return x v at by (intro fail_steady) (auto simp: parseFieldIndexed_def lift_meth_def)
    next
      case (Some hf')
      then show ?thesis using Return x v at l
        by (intro callEmit_steady [where b = buf]) (auto simp: parseFieldIndexed_def lift_meth_def)
    qed
  qed auto
next
  case (Fail e)
  then show ?thesis using readVarInt_extend(2)
    by (intro fail_steady [of _ _ "Fail e"]) (auto simp: parseFieldIndexed_def lift_meth_def)
qed (use readVarInt_no_panic [of 7] in auto)


lemma literal_name_extend:
  "literal_name d i buf w = Return (n, buf') \<Longrightarrow> literal_name d i (buf @ q) w = Return (n, buf' @ q)"
  "literal_name d i buf w = Fail e \<Longrightarrow> e \<noteq> errNeedMore \<Longrightarrow> literal_name d i (buf @ q) w = Fail e"
  "literal_name d i buf w = Return (n, buf') \<Longrightarrow> length buf' \<le> length buf"
  by (auto simp: literal_name_def readString_extend dest: readString_shorter split: if_splits option.splits)

lemma literal_name_no_panic [simp]: "literal_name d i buf w \<noteq> Panic"
  by (auto simp: literal_name_def split: option.splits)

lemma literal_name_cong [simp]: "literal_name (d\<lparr>dec_buf := b\<rparr>) i buf w = literal_name d i buf w"
  by (simp add: literal_name_def cong: if_cong)

lemma parseFieldLiteral_steady:
  assumes "1 \<le> n" "n \<le> 8"
  shows "steady (parseFieldLiteral n it) d"
proof (cases "readVarInt n (dec_buf d)")
  case (Return x)
  obtain i buf where x: "x = (i, buf)" by force
  let ?w = "emitEnabled d \<or> indexed it"
  have v: "\<And>q. readVarInt n (dec_buf d @ q) = Return (i, buf @ q)" and l: "length buf < length (dec_buf d)"
    using Return x readVarInt_extend(1) readVarInt_shorter by auto
  show ?thesis
  proof (cases "literal_name d i buf ?w")
    case name: (Return y)
    obtain nm buf1 where y: "y = (nm, buf1)" by force
    have v1: "\<And>q. literal_name d i (buf @ q) ?w = Return (nm, buf1 @ q)" and l1: "length buf1 \<le> length buf"
      using name y literal_name_extend(1,3) by auto
    show ?thesis
    proof (cases "readString d buf1 ?w")
      case val: (Return z)
      obtain vl buf2 where z: "z = (vl, buf2)" by force
      have v2: "\<And>q. readString d (buf1 @ q) ?w = Return (vl, buf2 @ q)" and l2: "length buf2 < length buf1"
        using val z readString_extend(1) readString_shorter by auto
      let ?hf = "\<lparr>HName = nm, HValue = vl, Sensitive = False\<rparr>"
      show ?thesis
      proof (cases "if indexed it then dynamic_add (dec_dynTab d) ?hf else Return (dec_dynTab d)")
        case dt: (Return dt)
        show ?thesis using Return x v name y v1 val z v2 dt l l1 l2
          by (intro callEmit_steady_add [where b = buf2 and dt = dt]) (auto simp: parseFieldLiteral_def lift_meth_def Let_def)
      next
        case Panic
        then show ?thesis using Return x v name y v1 val z v2
          by (intro fail_steady [of _ _ Panic]) (auto simp: parseFieldLiteral_def lift_meth_def Let_def)
      qed (auto split: if_splits)
    next
      case (Fail e)
      then show ?thesis using Return x v name y v1 readString_extend(2) [OF Fail]
        by (intro fail_steady [of _ _ "Fail e"]) (auto simp: parseFieldLiteral_def lift_meth_def Let_def)
    qed simp
  next
    case (Fail e)
    then show ?thesis using Return x v literal_name_extend(2) [OF Fail]
      by (intro fail_steady [of _ _ "Fail e"]) (auto simp: parseFieldLiteral_def lift_meth_def Let_def)
  qed simp
next
  case (Fail e)
  then show ?thesis using readVarInt_extend(2)
    by (intro fail_steady [of _ _ "Fail e"]) (auto simp: parseFieldLiteral_def lift_meth_def)
qed (use readVarInt_no_panic [OF assms] in auto)

lemma parseDynamicTableSizeUpdate_steady: "steady parseDynamicTableSizeUpdate d"
proof (cases "\<not> firstField d \<and> dt_size (dec_dynTab d) > 0")
  case True
  then show ?thesis by (intro fail_steady) (auto simp: parseDynamicTableSizeUpdate_def)
next
  case False
  show ?thesis
  proof (cases "readVarInt 5 (dec_buf d)")
    case (Return x)
    obtain sz buf where x: "x = (sz, buf)" by force
    have v: "\<And>q. readVarInt 5 (dec_buf d @ q) = Return (sz, buf @ q)" and l: "length buf < length (dec_buf d)"
      using Return x readVarInt_extend(1) readVarInt_shorter by auto
    show ?thesis
    proof (cases "setMaxSize (dec_dynTab d) (ucast sz)")
      case dt: (Return dt)
      then show ?thesis using False Return x v l
        by (auto simp: steady_def parseDynamicTableSizeUpdate_def lift_meth_def)
    next
      case Panic
      then show ?thesis using False Return x v
        by (auto simp: steady_def parseDynamicTableSizeUpdate_def lift_meth_def)
    qed simp
  next
    case (Fail e)
    then show ?thesis using False readVarInt_extend(2)
      by (intro fail_steady [of _ _ "Fail e"]) (auto simp: parseDynamicTableSizeUpdate_def lift_meth_def)
  qed (use readVarInt_no_panic [of 5] in auto)
qed

lemma parse_steady: "dec_buf d \<noteq> [] \<Longrightarrow> steady parseHeaderFieldRepr d"
proof -
  assume "dec_buf d \<noteq> []"
  then obtain b bs where b: "dec_buf d = b # bs" by (cases "dec_buf d") auto
  note st = parseFieldIndexed_steady [of d] parseFieldLiteral_steady [of 6 indexedTrue d]
    parseFieldLiteral_steady [of 4 indexedFalse d] parseFieldLiteral_steady [of 4 indexedNever d] parseDynamicTableSizeUpdate_steady [of d]
  have transfer: "steady parseHeaderFieldRepr d"
    if "steady g d" "\<And>q. parseHeaderFieldRepr (d\<lparr>dec_buf := b # q\<rparr>) = g (d\<lparr>dec_buf := b # q\<rparr>)" for g
  proof -
    have "d\<lparr>dec_buf := b # bs\<rparr> = d" using b by (cases d) simp
    then have "parseHeaderFieldRepr d = g d" using that(2) [of bs] by simp
    then show ?thesis using that b by (simp add: steady_def)
  qed
  have parse: "parseHeaderFieldRepr (d\<lparr>dec_buf := b # q\<rparr>) =
     (if b AND 128 \<noteq> 0 then parseFieldIndexed else if b AND 192 = 64 then parseFieldLiteral 6 indexedTrue
      else if b AND 240 = 0 then parseFieldLiteral 4 indexedFalse else if b AND 240 = 16 then parseFieldLiteral 4 indexedNever
      else if b AND 224 = 32 then parseDynamicTableSizeUpdate else (\<lambda>d. (Fail (DecodingError InvalidEncoding), d))) (d\<lparr>dec_buf := b # q\<rparr>)" for q
    by (simp add: parseHeaderFieldRepr_def)
  show ?thesis by (rule transfer [OF _ parse]) (use st in \<open>auto simp: steady_def\<close>)
qed

section \<open>The state stays well formed\<close>

definition decoder_ok :: "Decoder \<Rightarrow> bool" where
  "decoder_ok d \<longleftrightarrow> dynamic_ok (dec_dynTab d) \<and> maxSize (dec_dynTab d) \<le> allowedMaxSize (dec_dynTab d)"

abbreviation inserted :: "Decoder \<Rightarrow> nat" where
  "inserted d \<equiv> added (dt_table (dec_dynTab d))"

text \<open>What a parsing method does to the rest of the state.\<close>

definition keeps_ok :: "Decoder \<Rightarrow> 'a hpack \<times> Decoder \<Rightarrow> bool" where
  "keeps_ok d rd \<longleftrightarrow> (case rd of (r, d') \<Rightarrow> r \<noteq> Panic \<and> decoder_ok d' \<and> inserted d' \<le> inserted d + 1 \<and>
     allowedMaxSize (dec_dynTab d') = allowedMaxSize (dec_dynTab d) \<and> maxStrLen d' = maxStrLen d \<and>
     emit_keep d' = emit_keep d \<and> saveBuf d' = saveBuf d \<and> firstField d' = firstField d)"

lemma keeps_okI [intro]: "decoder_ok d \<Longrightarrow> r \<noteq> Panic \<Longrightarrow> keeps_ok d (r, d)"
  by (simp add: keeps_ok_def)

lemma callEmit_keeps:
  "decoder_ok d \<Longrightarrow> keeps_ok d (callEmit hf (d\<lparr>dec_buf := b\<rparr>))"
  "\<lbrakk>decoder_ok (d\<lparr>dec_dynTab := dt\<rparr>); allowedMaxSize dt = allowedMaxSize (dec_dynTab d); added (dt_table dt) \<le> inserted d + 1\<rbrakk> \<Longrightarrow>
     keeps_ok d (callEmit hf (d\<lparr>dec_buf := b, dec_dynTab := dt\<rparr>))"
  by (simp_all add: keeps_ok_def callEmit_def decoder_ok_def)

lemma parseFieldIndexed_keeps: "decoder_ok d \<Longrightarrow> keeps_ok d (parseFieldIndexed d)"
  by (auto simp: parseFieldIndexed_def bind_meth.simps lift_meth_def readVarInt_no_panic callEmit_keeps(1)
      split: outcome.splits option.splits)

lemma parseFieldLiteral_keeps:
  assumes "decoder_ok d" "inserted d + 1 < 2 ^ 64" "1 \<le> n" "n \<le> 8"
  shows "keeps_ok d (parseFieldLiteral n it d)"
proof -
  have add: "keeps_ok d (bind_meth (lift_meth (if indexed it then dynamic_add (dec_dynTab d) hf else Return (dec_dynTab d)))
      (\<lambda>dt d. callEmit hf' (d\<lparr>dec_buf := b, dec_dynTab := dt\<rparr>)) d)" for hf hf' b
  proof (cases "indexed it")
    case True
    have "dynamic_ok (dec_dynTab d)" using assms(1) by (simp add: decoder_ok_def)
    then show ?thesis
      by (rule dynamic_add_ok [OF _ assms(2), of hf])
        (use True assms(1) in \<open>auto simp: lift_meth_def decoder_ok_def intro!: callEmit_keeps(2)\<close>)
  next
    case False
    then show ?thesis using assms(1) by (auto simp: lift_meth_def intro!: callEmit_keeps(1))
  qed
  show ?thesis
    using assms readVarInt_no_panic [OF assms(3,4)] add
    unfolding parseFieldLiteral_def Let_def
    by (auto simp: bind_meth.simps [of "lift_meth (readVarInt n (dec_buf d))"] bind_meth.simps [of "lift_meth (literal_name d _ _ _)"]
        bind_meth.simps [of "lift_meth (readString d _ _)"] lift_meth_def [of "readVarInt n _"]
        lift_meth_def [of "literal_name d _ _ _"] lift_meth_def [of "readString d _ _"] split: outcome.splits)
qed

lemma unat_widen [simp]: "unat (ucast (x :: u32) :: u64) = unat x"
proof -
  have "unat x < 2 ^ 32" using unsigned_less [of x] by simp
  then show ?thesis by (simp add: unsigned_ucast_eq take_bit_nat_eq_self)
qed

lemma parseDynamicTableSizeUpdate_keeps:
  assumes "decoder_ok d"
  shows "keeps_ok d (parseDynamicTableSizeUpdate d)"
proof -
  have dyn: "dynamic_ok (dec_dynTab d)" using assms by (simp add: decoder_ok_def)
  have set: "keeps_ok d (bind_meth (lift_meth (setMaxSize (dec_dynTab d) (ucast sz))) (\<lambda>dt d. (Return (), d\<lparr>dec_dynTab := dt, dec_buf := b\<rparr>)) d)"
    if "\<not> sz > ucast (allowedMaxSize (dec_dynTab d))" for sz :: u64 and b
  proof -
    have "unat sz \<le> unat (allowedMaxSize (dec_dynTab d))" using that by (simp add: word_less_nat_alt)
    then have "(ucast sz :: u32) \<le> allowedMaxSize (dec_dynTab d)"
      by (simp add: word_le_nat_alt unsigned_ucast_eq) (rule order_trans [OF take_bit_nat_less_eq_self])
    then show ?thesis
      by (rule_tac setMaxSize_ok [OF dyn, of "ucast sz"]) (auto simp: lift_meth_def keeps_ok_def decoder_ok_def)
  qed
  show ?thesis
    using assms readVarInt_no_panic [of 5] set
    unfolding parseDynamicTableSizeUpdate_def
    by (auto simp: bind_meth.simps [of "lift_meth (readVarInt 5 (dec_buf d))"] lift_meth_def [of "readVarInt 5 _"]
        lift_meth_def [of "Fail _"] split: outcome.splits)
qed

lemma parse_keeps:
  assumes "decoder_ok d" "inserted d + 1 < 2 ^ 64" "dec_buf d \<noteq> []"
  shows "keeps_ok d (parseHeaderFieldRepr d)"
  using assms parseFieldIndexed_keeps parseFieldLiteral_keeps [OF assms(1,2)] parseDynamicTableSizeUpdate_keeps
  by (auto simp: parseHeaderFieldRepr_def)


section \<open>The loop of \<open>Write\<close>\<close>

definition run_buf :: "nat \<Rightarrow> Decoder \<Rightarrow> (nat \<times> hpack_error option) hpack \<times> Decoder" where
  "run_buf len d = write_loop (length (dec_buf d)) len d"

lemma parse_shorter: "parseHeaderFieldRepr d = (Return u, d') \<Longrightarrow> dec_buf d \<noteq> [] \<Longrightarrow> length (dec_buf d') < length (dec_buf d)"
  using parse_steady [of d] by (simp add: steady_def)

lemma write_loop_fuel:
  "\<lbrakk>length (dec_buf d) \<le> f; length (dec_buf d) \<le> g\<rbrakk> \<Longrightarrow> write_loop f len d = write_loop g len d"
proof (induction f arbitrary: g d)
  case 0
  then show ?case by (simp add: write_loop.simps)
next
  case (Suc f)
  show ?case
  proof (cases "dec_buf d = []")
    case True
    then show ?thesis by (simp add: write_loop.simps)
  next
    case False
    then obtain g' where g: "g = Suc g'" using Suc.prems(2) by (cases g) auto
    have "write_loop f len (d'\<lparr>firstField := False\<rparr>) = write_loop g' len (d'\<lparr>firstField := False\<rparr>)"
      if "parseHeaderFieldRepr d = (Return u, d')" for u d'
      using parse_shorter [OF that False] Suc.prems g by (intro Suc.IH) simp_all
    then show ?thesis using False g
      by (simp add: write_loop.simps [of "Suc f"] write_loop.simps [of "Suc g'"] split: prod.splits outcome.splits)
  qed
qed

lemma run_buf_rec:
  "run_buf len d =
     (if dec_buf d = [] then (Return (len, None), d)
      else case parseHeaderFieldRepr d of
        (Return _, d) \<Rightarrow> run_buf len (d\<lparr>firstField := False\<rparr>)
      | (Fail err, d) \<Rightarrow>
          if err = errNeedMore then
            if too_long d then (Return (0, Some ErrStringLength), d)
            else (Return (len, None), d\<lparr>saveBuf := saveBuf d @ dec_buf d\<rparr>)
          else (Return (len, Some err), d\<lparr>firstField := False\<rparr>)
      | (Panic, d) \<Rightarrow> (Panic, d))"
proof (cases "dec_buf d")
  case Nil
  then show ?thesis by (simp add: run_buf_def write_loop.simps)
next
  case (Cons b bs)
  have "write_loop (length bs) len (d'\<lparr>firstField := False\<rparr>) = run_buf len (d'\<lparr>firstField := False\<rparr>)"
    if "parseHeaderFieldRepr d = (Return u, d')" for u d'
    using parse_shorter [OF that] Cons unfolding run_buf_def by (intro write_loop_fuel) auto
  then show ?thesis using Cons
    by (simp add: run_buf_def [of len d] write_loop.simps [of "Suc _"] split: prod.splits outcome.splits)
qed

lemma Decoder_Write_run:
  "Decoder_Write p d = (if p = [] then (Return (0, None), d) else run_buf (length p) (d\<lparr>dec_buf := saveBuf d @ p, saveBuf := []\<rparr>))"
  by (cases d) (simp add: Decoder_Write_def run_buf_def Let_def)

definition loop_ok :: "Decoder \<Rightarrow> bool" where
  "loop_ok d \<longleftrightarrow> decoder_ok d \<and> inserted d + length (dec_buf d) < 2 ^ 64"

lemma loop_ok_step:
  assumes "loop_ok d" "dec_buf d \<noteq> []" "parseHeaderFieldRepr d = (r, d')"
  shows "r \<noteq> Panic" "decoder_ok d'" "inserted d' \<le> inserted d + 1" "maxStrLen d' = maxStrLen d" "saveBuf d' = saveBuf d"
    "allowedMaxSize (dec_dynTab d') = allowedMaxSize (dec_dynTab d)" "r = Return () \<Longrightarrow> loop_ok (d'\<lparr>firstField := False\<rparr>)"
proof -
  have "inserted d + 1 < 2 ^ 64" using assms(1,2) by (cases "dec_buf d") (auto simp: loop_ok_def)
  then have k: "keeps_ok d (r, d')" using parse_keeps [of d] assms by (auto simp: loop_ok_def)
  then show "r \<noteq> Panic" "decoder_ok d'" "inserted d' \<le> inserted d + 1" "maxStrLen d' = maxStrLen d" "saveBuf d' = saveBuf d"
    "allowedMaxSize (dec_dynTab d') = allowedMaxSize (dec_dynTab d)"
    by (auto simp: keeps_ok_def)
  show "loop_ok (d'\<lparr>firstField := False\<rparr>)" if "r = Return ()"
    using parse_shorter [of d "()" d'] that assms k by (auto simp: loop_ok_def keeps_ok_def decoder_ok_def)
qed

lemma run_buf_ok:
  assumes "loop_ok d"
  shows "\<exists>n err d'. run_buf len d = (Return (n, err), d') \<and> decoder_ok d' \<and> inserted d' \<le> inserted d + length (dec_buf d) \<and>
    allowedMaxSize (dec_dynTab d') = allowedMaxSize (dec_dynTab d)"
  using assms
proof (induction "length (dec_buf d)" arbitrary: d rule: less_induct)
  case less
  show ?case
  proof (cases "dec_buf d = []")
    case True
    then show ?thesis using less.prems by (simp add: run_buf_rec loop_ok_def)
  next
    case False
    obtain r d1 where p: "parseHeaderFieldRepr d = (r, d1)" by force
    note st = loop_ok_step [OF less.prems False p]
    have pos: "1 \<le> length (dec_buf d)" using False by (cases "dec_buf d") auto
    show ?thesis
    proof (cases r)
      case (Return u)
      then have "length (dec_buf (d1\<lparr>firstField := False\<rparr>)) < length (dec_buf d)" using parse_shorter p False by simp
      moreover from this obtain n err d' where "run_buf len (d1\<lparr>firstField := False\<rparr>) = (Return (n, err), d')" "decoder_ok d'"
        "inserted d' \<le> inserted d1 + length (dec_buf d1)" "allowedMaxSize (dec_dynTab d') = allowedMaxSize (dec_dynTab d1)"
        using less.hyps [of "d1\<lparr>firstField := False\<rparr>"] st(7) Return by auto
      ultimately show ?thesis using p Return False st(3,6) by (simp add: run_buf_rec [of len d])
    next
      case (Fail e)
      then show ?thesis using p False st(2,3,6) pos by (auto simp: run_buf_rec [of len d] decoder_ok_def)
    qed (use st(1) in simp)
  qed
qed


section \<open>Blocks in pieces\<close>

lemma first_buf_commute: "d\<lparr>dec_buf := b, firstField := v\<rparr> = d\<lparr>firstField := v, dec_buf := b\<rparr>"
  by simp

text \<open>Running on a longer buffer is running on the first part and then on what it left.\<close>

lemma run_buf_append:
  assumes "loop_ok d" "maxStrLen d = 0" "saveBuf d = []" "run_buf len d = (Return (n, None), d1)"
  shows "n = len \<and> run_buf len' (d\<lparr>dec_buf := dec_buf d @ q\<rparr>) = run_buf len' (d1\<lparr>dec_buf := saveBuf d1 @ q, saveBuf := []\<rparr>)"
  using assms
proof (induction "length (dec_buf d)" arbitrary: d rule: less_induct)
  case less
  show ?case
  proof (cases "dec_buf d = []")
    case True
    then have "n = len" "d1 = d" using less.prems(4) by (simp_all add: run_buf_rec [of len])
    moreover have "d\<lparr>dec_buf := dec_buf d @ q\<rparr> = d\<lparr>dec_buf := saveBuf d @ q, saveBuf := []\<rparr>"
      using True less.prems(3) by (cases d) simp
    ultimately show ?thesis by metis
  next
    case False
    obtain r d' where p: "parseHeaderFieldRepr d = (r, d')" by force
    note st = loop_ok_step [OF less.prems(1) False p]
    show ?thesis
    proof (cases r)
      case (Return u)
      let ?d = "d'\<lparr>firstField := False\<rparr>"
      have r: "run_buf len ?d = (Return (n, None), d1)" using less.prems(4) p Return False by (simp add: run_buf_rec [of len d])
      have "parseHeaderFieldRepr (d\<lparr>dec_buf := dec_buf d @ q\<rparr>) = (Return u, d'\<lparr>dec_buf := dec_buf d' @ q\<rparr>)"
        using parse_steady [OF False] p Return by (simp add: steady_def)
      then have "run_buf len' (d\<lparr>dec_buf := dec_buf d @ q\<rparr>) = run_buf len' (?d\<lparr>dec_buf := dec_buf ?d @ q\<rparr>)"
        using False by (simp add: first_buf_commute run_buf_rec [of len' "d\<lparr>dec_buf := dec_buf d @ q\<rparr>"])
      moreover have "length (dec_buf ?d) < length (dec_buf d)" using parse_shorter p Return False by simp
      ultimately show ?thesis using less.hyps [OF _ _ _ _ r] st Return less.prems(2,3) by simp
    next
      case (Fail e)
      then have e: "e = errNeedMore" "d' = d" "n = len" "d1 = d\<lparr>saveBuf := dec_buf d\<rparr>"
        using less.prems p False parse_steady [OF False]
        by (auto simp: run_buf_rec [of len d] steady_def too_long_def split: if_splits)
      moreover have "d\<lparr>dec_buf := dec_buf d @ q\<rparr> = d1\<lparr>dec_buf := saveBuf d1 @ q, saveBuf := []\<rparr>"
        using e(4) less.prems(3) by (cases d) simp
      ultimately show ?thesis by metis
    qed (use st(1) in simp)
  qed
qed

lemma run_buf_error_append:
  assumes "loop_ok d" "maxStrLen d = 0" "run_buf len d = (Return (n, Some err), d1)"
  shows "run_buf len' (d\<lparr>dec_buf := dec_buf d @ q\<rparr>) = (Return (len', Some err), d1\<lparr>dec_buf := dec_buf d1 @ q\<rparr>)"
  using assms
proof (induction "length (dec_buf d)" arbitrary: d rule: less_induct)
  case less
  show ?case
  proof (cases "dec_buf d = []")
    case True
    then show ?thesis using less.prems by (simp add: run_buf_rec [of len])
  next
    case False
    obtain r d' where p: "parseHeaderFieldRepr d = (r, d')" by force
    note st = loop_ok_step [OF less.prems(1) False p]
    have ext: "parseHeaderFieldRepr (d\<lparr>dec_buf := dec_buf d @ q\<rparr>) = (r, d'\<lparr>dec_buf := dec_buf d' @ q\<rparr>)" if "r \<noteq> Fail errNeedMore"
      using parse_steady [OF False] p that by (simp add: steady_def)
    show ?thesis
    proof (cases r)
      case (Return u)
      let ?d = "d'\<lparr>firstField := False\<rparr>"
      have r: "run_buf len ?d = (Return (n, Some err), d1)" using less.prems(3) p Return False by (simp add: run_buf_rec [of len d])
      have "run_buf len' (d\<lparr>dec_buf := dec_buf d @ q\<rparr>) = run_buf len' (?d\<lparr>dec_buf := dec_buf ?d @ q\<rparr>)"
        using False ext Return by (simp add: first_buf_commute run_buf_rec [of len' "d\<lparr>dec_buf := dec_buf d @ q\<rparr>"])
      moreover have "length (dec_buf ?d) < length (dec_buf d)" using parse_shorter p Return False by simp
      ultimately show ?thesis using less.hyps [OF _ _ _ r] st Return less.prems(2) by simp
    next
      case (Fail e)
      then have "e = err" "e \<noteq> errNeedMore" "d1 = d'\<lparr>firstField := False\<rparr>"
        using less.prems p False st(4) by (auto simp: run_buf_rec [of len d] too_long_def split: if_splits)
      then show ?thesis using False ext Fail by (simp add: first_buf_commute run_buf_rec [of len' "d\<lparr>dec_buf := dec_buf d @ q\<rparr>"])
    qed (use st(1) in simp)
  qed
qed


lemma parse_settings: "maxStrLen (snd (parseHeaderFieldRepr d)) = maxStrLen d \<and> saveBuf (snd (parseHeaderFieldRepr d)) = saveBuf d"
proof -
  have emit: "maxStrLen (snd (callEmit hf d)) = maxStrLen d" "saveBuf (snd (callEmit hf d)) = saveBuf d" for hf d
    by (simp_all add: callEmit_def)
  have "maxStrLen (snd (parseFieldIndexed d)) = maxStrLen d \<and> saveBuf (snd (parseFieldIndexed d)) = saveBuf d"
    "maxStrLen (snd (parseFieldLiteral n it d)) = maxStrLen d \<and> saveBuf (snd (parseFieldLiteral n it d)) = saveBuf d"
    "maxStrLen (snd (parseDynamicTableSizeUpdate d)) = maxStrLen d \<and> saveBuf (snd (parseDynamicTableSizeUpdate d)) = saveBuf d" for n it
    by (auto simp: parseFieldIndexed_def parseFieldLiteral_def parseDynamicTableSizeUpdate_def Let_def bind_meth.simps
        lift_meth_def emit split: outcome.splits option.splits prod.splits)
  then show ?thesis by (simp add: parseHeaderFieldRepr_def split: outcome.splits)
qed

lemmas parse_maxStrLen = parse_settings [THEN conjunct1]
lemmas parse_saveBuf = parse_settings [THEN conjunct2]

text \<open>Without a string limit the byte count is the one passed in.\<close>

lemma run_buf_len: "\<lbrakk>maxStrLen d = 0; run_buf len d = (Return (n, err), d')\<rbrakk> \<Longrightarrow>
    n = len \<and> maxStrLen d' = 0 \<and> run_buf len' d = (Return (len', err), d')"
proof (induction "length (dec_buf d)" arbitrary: d rule: less_induct)
  case less
  show ?case
  proof (cases "dec_buf d = []")
    case True
    then show ?thesis using less.prems by (simp add: run_buf_rec [of len] run_buf_rec [of len'])
  next
    case False
    obtain r d1 where p: "parseHeaderFieldRepr d = (r, d1)" by force
    have m: "maxStrLen d1 = 0" using parse_maxStrLen [of d] p less.prems(1) by simp
    show ?thesis
    proof (cases r)
      case (Return u)
      then show ?thesis using less.hyps [of "d1\<lparr>firstField := False\<rparr>"] parse_shorter [of d u d1] p False m less.prems(2)
        by (simp add: run_buf_rec [of len d] run_buf_rec [of len' d])
    next
      case (Fail e)
      then show ?thesis using p False m less.prems(2)
        by (auto simp: run_buf_rec [of len d] run_buf_rec [of len' d] too_long_def split: if_splits)
    next
      case Panic
      then show ?thesis using p False less.prems(2) by (simp add: run_buf_rec [of len d])
    qed
  qed
qed

lemma NewDecoder_ok: "\<exists>d. NewDecoder v k = Return d \<and> decoder_ok d \<and> inserted d = 0 \<and> ents (dt_table (dec_dynTab d)) = [] \<and>
    maxSize (dec_dynTab d) = v \<and> allowedMaxSize (dec_dynTab d) = v \<and>
    emitEnabled d \<and> maxStrLen d = 0 \<and> dec_buf d = [] \<and> saveBuf d = [] \<and> firstField d \<and> emits d = [] \<and> emit_keep d = k"
proof -
  have "dynamic_ok (zero_dynamicTable\<lparr>allowedMaxSize := v\<rparr>)" using zero_dynamicTable_ok(1) by (simp add: dynamic_ok_def)
  then show ?thesis
    by (rule setMaxSize_ok [of _ v]) (auto simp: NewDecoder_def decoder_ok_def)
qed

section \<open>Properties\<close>

text \<open>C9: On any input, \<open>Write\<close> returns without panicking and keeps the decoder well formed: the recorded size of the dynamic table
  is the sum of its entries, at most the maximum size, which is at most the allowed maximum; the indices agree with
  linear search.  (Fewer than \<open>2 ^ 64\<close> bytes are written over the life of the decoder.)\<close>

theorem Decoder_Write_safe:
  assumes "decoder_ok d" "inserted d + length (saveBuf d) + length p < 2 ^ 64"
  shows "\<exists>n err d'. Decoder_Write p d = (Return (n, err), d') \<and> dynamic_ok (dec_dynTab d') \<and>
    maxSize (dec_dynTab d') \<le> allowedMaxSize (dec_dynTab d') \<and> allowedMaxSize (dec_dynTab d') = allowedMaxSize (dec_dynTab d) \<and>
    inserted d' \<le> inserted d + length (saveBuf d) + length p"
proof (cases "p = []")
  case True
  then show ?thesis using assms by (simp add: Decoder_Write_run decoder_ok_def)
next
  case False
  let ?d = "d\<lparr>dec_buf := saveBuf d @ p, saveBuf := []\<rparr>"
  have "loop_ok ?d" using assms by (simp add: loop_ok_def decoder_ok_def)
  from run_buf_ok [OF this, of "length p"] show ?thesis using False by (auto simp: Decoder_Write_run decoder_ok_def)
qed

theorem Decoder_Write_safe_witness:
  "\<exists>d n err d'. NewDecoder 4096 (\<lambda>_. True) = Return d \<and> Decoder_Write [0x40, 1, 97, 0xFF, 0xFF] d = (Return (n, err), d') \<and> dynamic_ok (dec_dynTab d')"
proof -
  obtain d where d: "NewDecoder 4096 (\<lambda>_. True) = Return d" "decoder_ok d" "inserted d = 0" "saveBuf d = []" using NewDecoder_ok by blast
  have "inserted d + length (saveBuf d) + length [0x40, 1, 97, 0xFF, 0xFF :: u8] < 2 ^ 64" using d(3,4) by simp
  from Decoder_Write_safe [OF d(2) this] show ?thesis using d(1) by auto
qed

text \<open>C8: Without a string limit, feeding a header block in pieces is feeding it at once.  If writing \<open>p\<close> succeeds, writing \<open>q\<close> next
  gives the error, the added up byte count and the decoder state that writing both together gives.  If writing \<open>p\<close> fails, so does writing
  both, with the same error and in the same state but for \<open>q\<close> at the end of the unread bytes.\<close>

theorem Decoder_Write_chunks:
  assumes "decoder_ok d" "maxStrLen d = 0" "inserted d + length (saveBuf d) + length p < 2 ^ 64"
  shows "(Decoder_Write p d = (Return (n, None), d1) \<longrightarrow> Decoder_Write q d1 = (Return (m, err), d2) \<longrightarrow>
      Decoder_Write (p @ q) d = (Return (n + m, err), d2)) \<and>
    (Decoder_Write p d = (Return (n, Some e), d1) \<longrightarrow>
      Decoder_Write (p @ q) d = (Return (length p + length q, Some e), d1\<lparr>dec_buf := dec_buf d1 @ q\<rparr>))"
proof (cases "p = [] \<or> q = []")
  case True
  then show ?thesis
  proof
    assume "p = []"
    then show ?thesis by (auto simp: Decoder_Write_run)
  next
    let ?d = "d\<lparr>dec_buf := saveBuf d @ p, saveBuf := []\<rparr>"
    assume q: "q = []"
    have "n = length p" if "p \<noteq> []" "run_buf (length p) ?d = (Return (n, err), d1)" for err n d1
      using run_buf_len [OF _ that(2)] assms(2) by simp
    then show ?thesis using q by (auto simp: Decoder_Write_run)
  qed
next
  case False
  let ?d = "d\<lparr>dec_buf := saveBuf d @ p, saveBuf := []\<rparr>"
  have ok: "loop_ok ?d" "maxStrLen ?d = 0" "saveBuf ?d = []" using assms by (simp_all add: loop_ok_def decoder_ok_def)
  have both: "Decoder_Write (p @ q) d = run_buf (length p + length q) (?d\<lparr>dec_buf := dec_buf ?d @ q\<rparr>)"
    using False by (cases d) (simp add: Decoder_Write_run)
  show ?thesis
  proof (intro conjI impI)
    assume 1: "Decoder_Write p d = (Return (n, None), d1)" and 2: "Decoder_Write q d1 = (Return (m, err), d2)"
    have r1: "run_buf (length p) ?d = (Return (n, None), d1)" using 1 False by (simp add: Decoder_Write_run)
    let ?d1 = "d1\<lparr>dec_buf := saveBuf d1 @ q, saveBuf := []\<rparr>"
    have r2: "run_buf (length q) ?d1 = (Return (m, err), d2)" using 2 False by (simp add: Decoder_Write_run)
    have m: "maxStrLen d1 = 0" "n = length p" using run_buf_len [OF ok(2) r1] by auto
    then have "m = length q" using run_buf_len [OF _ r2] by simp
    moreover have "run_buf (length p + length q) ?d1 = (Return (length p + length q, err), d2)"
      using run_buf_len [OF _ r2, of "length p + length q"] m by simp
    ultimately show "Decoder_Write (p @ q) d = (Return (n + m, err), d2)"
      using both run_buf_append [OF ok r1, of "length p + length q" q] m by simp
  next
    assume "Decoder_Write p d = (Return (n, Some e), d1)"
    then have "run_buf (length p) ?d = (Return (n, Some e), d1)" using False by (simp add: Decoder_Write_run)
    from run_buf_error_append [OF ok(1,2) this, of "length p + length q" q]
    show "Decoder_Write (p @ q) d = (Return (length p + length q, Some e), d1\<lparr>dec_buf := dec_buf d1 @ q\<rparr>)" using both by simp
  qed
qed


lemma write_static_field:
  assumes "maxStrLen d = 0" "saveBuf d = []" "b = 0x82 \<or> b = 0x84"
  shows "\<exists>d'. Decoder_Write [b] d = (Return (1, None), d') \<and> maxStrLen d' = 0 \<and> saveBuf d' = []"
proof -
  obtain i where i: "i = 2 \<or> i = 4" "readVarInt 7 [b] = Return (i, [])"
    using assms(3) by (auto simp: readVarInt_def Let_def)
  have b: "b AND 128 \<noteq> 0" using assms(3) by auto
  have at: "decoder_at d' i = Return (Some (staticTableEntries ! unat (i - 1)))" for d'
    using i(1) by (auto simp: decoder_at_def table_len_def)
  let ?f = "\<lambda>g. \<lparr>HName = HName g, HValue = HValue g, Sensitive = False\<rparr>"
  have "parseHeaderFieldRepr (d\<lparr>dec_buf := [b], saveBuf := []\<rparr>) =
      callEmit (?f (staticTableEntries ! unat (i - 1))) (d\<lparr>saveBuf := [], dec_buf := []\<rparr>)"
    using b i(2) at by (simp add: parseHeaderFieldRepr_def parseFieldIndexed_def lift_meth_def)
  then show ?thesis using assms(1,2)
    by (simp add: Decoder_Write_run run_buf_rec [of "Suc 0"] callEmit_def)
qed

theorem Decoder_Write_chunks_witness:
  "\<exists>d d1 d2. NewDecoder 4096 (\<lambda>_. True) = Return d \<and> Decoder_Write [0x82] d = (Return (1, None), d1) \<and>
     Decoder_Write [0x84] d1 = (Return (1, None), d2) \<and> Decoder_Write [0x82, 0x84] d = (Return (2, None), d2)"
proof -
  obtain d where d: "NewDecoder 4096 (\<lambda>_. True) = Return d" "decoder_ok d" "inserted d = 0" "saveBuf d = []" "maxStrLen d = 0"
    using NewDecoder_ok by blast
  obtain d1 where d1: "Decoder_Write [0x82] d = (Return (1, None), d1)" "maxStrLen d1 = 0" "saveBuf d1 = []"
    using write_static_field [OF d(5,4)] by blast
  obtain d2 where d2: "Decoder_Write [0x84] d1 = (Return (1, None), d2)"
    using write_static_field [OF d1(2,3)] by blast
  have "inserted d + length (saveBuf d) + length [0x82 :: u8] < 2 ^ 64" using d(3,4) by simp
  from Decoder_Write_chunks [OF d(2,5) this] have "Decoder_Write ([0x82] @ [0x84]) d = (Return (1 + 1, None), d2)"
    using d1(1) d2 by blast
  then show ?thesis using d(1) d1(1) d2 by auto
qed

text \<open>An integer in \<open>k + 1\<close> groups of seven bits, however small it is, and a string behind its length written like that.\<close>

fun padded_int :: "nat \<Rightarrow> u64 \<Rightarrow> bytes" where
  "padded_int 0 i = [ucast i]"
| "padded_int (Suc k) i = ucast (0x80 OR (i AND 0x7F)) # padded_int k (drop_bit 7 i)"

definition padded_string :: "nat \<Rightarrow> bytes \<Rightarrow> bytes" where
  "padded_string k s = 0x7F # padded_int k (of_nat (length s - 127)) @ s"

lemma read_padded_int:
  "\<lbrakk>unat i < 2 ^ (7 * Suc k); m + 7 * k < 63\<rbrakk> \<Longrightarrow> read_loop (padded_int k i @ rest) acc m = Return (acc + push_bit m i, rest)"
proof (induction k arbitrary: i acc m)
  case 0
  then have "\<not> i \<ge> 128" by (simp add: word_le_nat_alt)
  then show ?case using final_byte [of i] by (simp add: Let_def)
next
  case (Suc k)
  have "unat (drop_bit 7 i) = unat i div 128" by (simp add: drop_bit_eq_div unat_div)
  then have "unat (drop_bit 7 i) < 2 ^ (7 * Suc k)" using Suc.prems(1) by (simp add: div_less_iff_less_mult power_add)
  moreover have "push_bit m (take_bit 7 i) + push_bit (m + 7) (drop_bit 7 i) = push_bit m i"
    by (metis add.commute bits_ident push_bit_add push_bit_push_bit)
  ultimately show ?case using Suc.IH [of "drop_bit 7 i" "m + 7"] Suc.prems(2) continued_byte [of i] by (simp add: Let_def add.assoc)
qed

lemma readString_padded:
  assumes "127 \<le> length s" "length s < 2 ^ (7 * Suc k)" "k \<le> 8" "int (length s) \<le> maxStrLen d" "maxStrLen d < 2 ^ 32"
  shows "readString d (padded_string k s @ rest) w = Return (if w then s else [], rest)"
proof -
  let ?n = "of_nat (length s) :: u64"
  have len: "unat ?n = length s" "unat (of_nat (length s - 127) :: u64) = length s - 127" using assms(4,5) by (simp_all add: unat_of_nat)
  have "127 + of_nat (length s - 127) = ?n" using assms(1) by (simp add: of_nat_diff)
  then have v: "readVarInt 7 (padded_string k s @ rest) = Return (?n, s @ rest)"
    using read_padded_int [of "of_nat (length s - 127)" k 0 "s @ rest" 127] assms(2,3) len(2)
    by (simp add: padded_string_def readVarInt_def Let_def)
  obtain m where m: "maxStrLen d = int m" using assms(4) zero_le_imp_eq_int [of "maxStrLen d"] by auto
  then have "\<not> ?n > of_int (maxStrLen d)" using assms(4,5) len(1) by (simp add: word_less_nat_alt unat_of_nat)
  then show ?thesis using v len(1) by (simp add: readString_def padded_string_def)
qed

lemma parse_padded_literal:
  assumes "127 \<le> length s" "127 \<le> length v" "length s < 2 ^ (7 * Suc k)" "length v < 2 ^ (7 * Suc j)" "k \<le> 8" "j \<le> 8"
    "int (length s) \<le> maxStrLen d" "int (length v) \<le> maxStrLen d" "maxStrLen d < 2 ^ 32" "dec_buf d = 0 # padded_string k s @ padded_string j v"
  shows "parseHeaderFieldRepr d =
    (Return (), snd (callEmit \<lparr>HName = if emitEnabled d then s else [], HValue = if emitEnabled d then v else [], Sensitive = False\<rparr> (d\<lparr>dec_buf := []\<rparr>)))"
proof -
  note rs = readString_padded [OF assms(1,3,5,7,9)] readString_padded [OF assms(2,4,6,8,9), of "[]"]
  have "readVarInt 4 (dec_buf d) = Return (0, padded_string k s @ padded_string j v)"
    using assms(10) by (simp add: readVarInt_def Let_def)
  then have "parseFieldLiteral 4 indexedFalse d =
      callEmit \<lparr>HName = if emitEnabled d then s else [], HValue = if emitEnabled d then v else [], Sensitive = False\<rparr> (d\<lparr>dec_buf := []\<rparr>)"
    using rs by (simp add: parseFieldLiteral_def literal_name_def indexed_def sensitive_def lift_meth_def)
  moreover have "parseHeaderFieldRepr d = parseFieldLiteral 4 indexedFalse d" using assms(10) by (simp add: parseHeaderFieldRepr_def)
  ultimately show ?thesis using assms(7,8) by (simp add: callEmit_def)
qed

text \<open>C39: The allowance of eight bytes per string that the check in \<open>Write\<close> makes for lengths is less than the ten bytes
  \<open>readVarInt\<close> accepts.  Under a string limit \<open>m\<close>, a literal field whose name and value are within the limit, but with lengths written in
  more bytes than necessary, is accepted in one \<open>Write\<close>; but cut at any place behind the first \<open>2 * (m + 8)\<close> bytes, the first
  part is refused as too long.\<close>

theorem Decoder_Write_limit_split:
  assumes "saveBuf d = []" "maxStrLen d = int m" "m < 2 ^ 32" "127 \<le> length s" "length s \<le> m" "127 \<le> length v" "length v \<le> m"
    "length s < 2 ^ (7 * Suc k)" "k \<le> 8" "length v < 2 ^ (7 * Suc j)" "j \<le> 8"
    "p @ q = 0 # padded_string k s @ padded_string j v" "q \<noteq> []" "2 * (m + 8) < length p"
  shows "\<exists>d1 d2. Decoder_Write (p @ q) d = (Return (length (p @ q), None), d1) \<and> saveBuf d1 = [] \<and>
      emits d1 = emits d @ (if emitEnabled d then [\<lparr>HName = s, HValue = v, Sensitive = False\<rparr>] else []) \<and>
    Decoder_Write p d = (Return (0, Some ErrStringLength), d2)"
proof -
  have ne: "p \<noteq> []" "p @ q \<noteq> []" using assms(14) by auto
  let ?d = "d\<lparr>dec_buf := p, saveBuf := []\<rparr>"
  let ?e = "snd (callEmit \<lparr>HName = if emitEnabled d then s else [], HValue = if emitEnabled d then v else [], Sensitive = False\<rparr> (d\<lparr>saveBuf := [], dec_buf := []\<rparr>))"
  have full: "parseHeaderFieldRepr (d\<lparr>dec_buf := p @ q, saveBuf := []\<rparr>) = (Return (), ?e)"
    using parse_padded_literal [of s v k j "d\<lparr>dec_buf := p @ q, saveBuf := []\<rparr>"] assms by (simp add: surjective_pairing)
  have buf: "dec_buf ?e = []" by (simp add: callEmit_def)
  obtain r d2 where r: "parseHeaderFieldRepr ?d = (r, d2)" by force
  have "r = Fail errNeedMore \<and> d2 = ?d"
  proof (rule ccontr)
    assume n: "\<not> ?thesis"
    have st: "steady parseHeaderFieldRepr ?d" using parse_steady [of ?d] ne by simp
    then have "r \<noteq> Fail errNeedMore" using n r by (auto simp: steady_def)
    then have "parseHeaderFieldRepr (?d\<lparr>dec_buf := dec_buf ?d @ q\<rparr>) = (r, d2\<lparr>dec_buf := dec_buf d2 @ q\<rparr>)" using st r by (simp add: steady_def)
    moreover have "?d\<lparr>dec_buf := dec_buf ?d @ q\<rparr> = d\<lparr>dec_buf := p @ q, saveBuf := []\<rparr>" by simp
    ultimately have "?e = d2\<lparr>dec_buf := dec_buf d2 @ q\<rparr>" using full by (metis prod.inject)
    then show False using arg_cong [of ?e _ dec_buf] buf assms(13) by simp
  qed
  moreover have "sint (2 * (of_int (int m) + 8) :: u64) = 2 * (int m + 8)"
  proof -
    have eq: "(2 * (of_int (int m) + 8) :: u64) = of_int (2 * (int m + 8))" by simp
    have small: "sint (of_int x :: u64) = x" if "0 \<le> x" "x < 2 ^ 63" for x using that by transfer (simp add: signed_take_bit_int_eq_self)
    show ?thesis unfolding eq by (rule small) (use assms(3) in simp_all)
  qed
  then have "too_long ?d" using assms(2,4,5,14) by (simp add: too_long_def)
  ultimately have "Decoder_Write p d = (Return (0, Some ErrStringLength), ?d)"
    using r ne assms(1) by (simp add: Decoder_Write_run run_buf_rec [of _ ?d])
  moreover have "Decoder_Write (p @ q) d = (Return (length (p @ q), None), ?e\<lparr>firstField := False\<rparr>)"
    using full buf ne assms(1) by (simp add: Decoder_Write_run run_buf_rec [of _ "d\<lparr>dec_buf := p @ q, saveBuf := []\<rparr>"] run_buf_rec [of _ "?e\<lparr>firstField := False\<rparr>"])
  moreover have "saveBuf (?e\<lparr>firstField := False\<rparr>) = []"
    "emits (?e\<lparr>firstField := False\<rparr>) = emits d @ (if emitEnabled d then [\<lparr>HName = s, HValue = v, Sensitive = False\<rparr>] else [])"
    using assms(2,5,7) by (simp_all add: callEmit_def)
  ultimately show ?thesis by blast
qed

definition limited_decoder :: Decoder where
  "limited_decoder = \<lparr>dec_dynTab = zero_dynamicTable, emitEnabled = True, maxStrLen = 127, dec_buf = [], saveBuf = [], firstField = True, emits = [], emit_keep = (\<lambda>_. True)\<rparr>"

theorem Decoder_Write_limit_split_witness:
  "let p = 0 # padded_string 8 (replicate 127 97) @ 0x7F # padded_int 8 0 @ replicate 126 98 in
   \<exists>d1 d2. Decoder_Write (p @ [98]) limited_decoder = (Return (275, None), d1) \<and>
     Decoder_Write p limited_decoder = (Return (0, Some ErrStringLength), d2)"
proof -
  let ?p = "0 # padded_string 8 (replicate 127 97) @ 0x7F # padded_int 8 0 @ replicate 126 98"
  have "length (padded_int k i) = Suc k" for k i by (induction k i rule: padded_int.induct) simp_all
  then have len: "length ?p = 274" by (simp add: padded_string_def)
  have app: "?p @ [98] = 0 # padded_string 8 (replicate 127 97) @ padded_string 8 (replicate 127 98)"
    using replicate_append_same [of 126 "98 :: u8"] by (simp add: padded_string_def flip: replicate_Suc)
  have lim: "saveBuf limited_decoder = []" "maxStrLen limited_decoder = int 127" by (simp_all add: limited_decoder_def)
  show ?thesis unfolding Let_def
    using Decoder_Write_limit_split [OF lim _ _ _ _ _ _ _ _ _ app] len by auto
qed

end
