(* ===== verification/H2_Frame.thy ===== *)
theory H2_Frame
  imports HPACK_Decode
begin

text \<open>
  The frames of \<open>src/http2/frame.go\<close>: frame headers, the ten frame types with their parsers, the \<open>Write\<close> methods of \<open>Framer\<close>, and the
  reading of one frame with the check of the frame order.  The \<open>io.Reader\<close> of a framer is the list of the bytes still to come,
  after which it reports \<open>EOF\<close>; its \<open>io.Writer\<close> is a function from the bytes of a \<open>Write\<close> call to its results, and \<open>written\<close>
  lists the calls.  \<open>counted\<close> lists the calls of \<open>countError\<close>; every error of a parser comes with its token.  A frame holds its
  payload by value; that its memory belongs to the framer is the flag \<open>fh_valid\<close>, which the next \<open>ReadFrame\<close> clears in the last
  frame.  Error details keep the arguments of the formatted text.  Logging and the reuse of frames are left out: they do not change what is read or written.
\<close>

unbundle bit_operations_syntax

section \<open>Frame headers\<close>

type_synonym FrameType = u8

abbreviation (input) FrameData :: FrameType where "FrameData \<equiv> 0"
abbreviation (input) FrameHeaders :: FrameType where "FrameHeaders \<equiv> 1"
abbreviation (input) FramePriority :: FrameType where "FramePriority \<equiv> 2"
abbreviation (input) FrameRSTStream :: FrameType where "FrameRSTStream \<equiv> 3"
abbreviation (input) FrameSettings :: FrameType where "FrameSettings \<equiv> 4"
abbreviation (input) FramePushPromise :: FrameType where "FramePushPromise \<equiv> 5"
abbreviation (input) FramePing :: FrameType where "FramePing \<equiv> 6"
abbreviation (input) FrameGoAway :: FrameType where "FrameGoAway \<equiv> 7"
abbreviation (input) FrameWindowUpdate :: FrameType where "FrameWindowUpdate \<equiv> 8"
abbreviation (input) FrameContinuation :: FrameType where "FrameContinuation \<equiv> 9"

type_synonym Flags = u8

definition Flags_Has :: "Flags \<Rightarrow> Flags \<Rightarrow> bool" where
  "Flags_Has f v \<longleftrightarrow> f AND v = v"

abbreviation (input) FlagEndStream :: Flags where "FlagEndStream \<equiv> 1"
abbreviation (input) FlagAck :: Flags where "FlagAck \<equiv> 1"
abbreviation (input) FlagEndHeaders :: Flags where "FlagEndHeaders \<equiv> 4"
abbreviation (input) FlagPadded :: Flags where "FlagPadded \<equiv> 8"
abbreviation (input) FlagPriority :: Flags where "FlagPriority \<equiv> 0x20"

record FrameHeader =
  fh_valid :: bool
  fh_Type :: FrameType
  fh_Flags :: Flags
  fh_Length :: u32
  fh_StreamID :: u32

record PriorityParam =
  StreamDep :: u32
  Exclusive :: bool
  Weight :: u8

definition PriorityParam_IsZero :: "PriorityParam \<Rightarrow> bool" where
  "PriorityParam_IsZero p \<longleftrightarrow> p = \<lparr>StreamDep = 0, Exclusive = False, Weight = 0\<rparr>"

datatype Frame =
  DataFrame FrameHeader bytes
| HeadersFrame FrameHeader PriorityParam bytes
| PriorityFrame FrameHeader PriorityParam
| RSTStreamFrame FrameHeader u32
| SettingsFrame FrameHeader bytes
| PushPromiseFrame FrameHeader u32 bytes
| PingFrame FrameHeader bytes
| GoAwayFrame FrameHeader u32 u32 bytes
| WindowUpdateFrame FrameHeader u32
| ContinuationFrame FrameHeader bytes
| UnknownFrame FrameHeader bytes

fun Frame_Header :: "Frame \<Rightarrow> FrameHeader" where
  "Frame_Header (DataFrame h _) = h"
| "Frame_Header (HeadersFrame h _ _) = h"
| "Frame_Header (PriorityFrame h _) = h"
| "Frame_Header (RSTStreamFrame h _) = h"
| "Frame_Header (SettingsFrame h _) = h"
| "Frame_Header (PushPromiseFrame h _ _) = h"
| "Frame_Header (PingFrame h _) = h"
| "Frame_Header (GoAwayFrame h _ _ _) = h"
| "Frame_Header (WindowUpdateFrame h _) = h"
| "Frame_Header (ContinuationFrame h _) = h"
| "Frame_Header (UnknownFrame h _) = h"

definition invalid_header :: "FrameHeader \<Rightarrow> FrameHeader" where
  "invalid_header h = h\<lparr>fh_valid := False\<rparr>"

fun invalidate :: "Frame \<Rightarrow> Frame" where
  "invalidate (DataFrame h d) = DataFrame (invalid_header h) d"
| "invalidate (HeadersFrame h p b) = HeadersFrame (invalid_header h) p b"
| "invalidate (PriorityFrame h p) = PriorityFrame (invalid_header h) p"
| "invalidate (RSTStreamFrame h c) = RSTStreamFrame (invalid_header h) c"
| "invalidate (SettingsFrame h p) = SettingsFrame (invalid_header h) p"
| "invalidate (PushPromiseFrame h i b) = PushPromiseFrame (invalid_header h) i b"
| "invalidate (PingFrame h d) = PingFrame (invalid_header h) d"
| "invalidate (GoAwayFrame h i c d) = GoAwayFrame (invalid_header h) i c d"
| "invalidate (WindowUpdateFrame h i) = WindowUpdateFrame (invalid_header h) i"
| "invalidate (ContinuationFrame h b) = ContinuationFrame (invalid_header h) b"
| "invalidate (UnknownFrame h p) = UnknownFrame (invalid_header h) p"

definition checkValid :: "FrameHeader \<Rightarrow> ('e, unit) outcome" where
  "checkValid h = (if \<not> fh_valid h then Panic else Return ())"

text \<open>The accessors of the frames that have them.\<close>

fun Data :: "Frame \<Rightarrow> ('e, bytes) outcome" where
  "Data (DataFrame h d) = bind_outcome (checkValid h) (\<lambda>_. Return d)"
| "Data _ = Panic"

fun DebugData :: "Frame \<Rightarrow> ('e, bytes) outcome" where
  "DebugData (GoAwayFrame h _ _ d) = bind_outcome (checkValid h) (\<lambda>_. Return d)"
| "DebugData _ = Panic"

fun Payload :: "Frame \<Rightarrow> ('e, bytes) outcome" where
  "Payload (UnknownFrame h p) = bind_outcome (checkValid h) (\<lambda>_. Return p)"
| "Payload _ = Panic"

fun HeaderBlockFragment :: "Frame \<Rightarrow> ('e, bytes) outcome" where
  "HeaderBlockFragment (HeadersFrame h _ b) = bind_outcome (checkValid h) (\<lambda>_. Return b)"
| "HeaderBlockFragment (ContinuationFrame h b) = bind_outcome (checkValid h) (\<lambda>_. Return b)"
| "HeaderBlockFragment (PushPromiseFrame h _ b) = bind_outcome (checkValid h) (\<lambda>_. Return b)"
| "HeaderBlockFragment _ = Panic"

definition StreamEnded :: "Frame \<Rightarrow> bool" where
  "StreamEnded f = Flags_Has (fh_Flags (Frame_Header f)) FlagEndStream"

definition HeadersEnded :: "Frame \<Rightarrow> bool" where
  "HeadersEnded f = Flags_Has (fh_Flags (Frame_Header f)) FlagEndHeaders"

definition HasPriority :: "Frame \<Rightarrow> bool" where
  "HasPriority f = Flags_Has (fh_Flags (Frame_Header f)) FlagPriority"

definition IsAck :: "Frame \<Rightarrow> bool" where
  "IsAck f = Flags_Has (fh_Flags (Frame_Header f)) FlagAck"

section \<open>Errors\<close>

abbreviation (input) ErrCodeProtocol :: u32 where "ErrCodeProtocol \<equiv> 1"
abbreviation (input) ErrCodeFlowControl :: u32 where "ErrCodeFlowControl \<equiv> 3"
abbreviation (input) ErrCodeFrameSize :: u32 where "ErrCodeFrameSize \<equiv> 6"
abbreviation (input) ErrCodeCompression :: u32 where "ErrCodeCompression \<equiv> 9"

datatype h2_reason =
  Reason string
| PrioritySize nat
| WantContinuation FrameType u32 FrameType u32
| WrongContinuation u32 u32
| UnexpectedContinuation u32

datatype header_error =
  headerFieldValueError bytes
| headerFieldNameError bytes
| pseudoHeaderError bytes
| duplicatePseudoHeaderError bytes
| errMixPseudoHeaderTypes
| errPseudoAfterRegular

datatype h2_error =
  EOF
| ErrUnexpectedEOF
| ErrShortWrite
| ErrFrameTooLarge
| ConnectionError u32
| StreamError u32 u32 "header_error option"
| connError u32 h2_reason
| errStreamID
| errDepStreamID
| errPadLength
| errPadBytes
| errWindowIncrement
| errIllegalMeta
| WriterError nat

definition streamError :: "u32 \<Rightarrow> u32 \<Rightarrow> h2_error" where
  "streamError sid code = StreamError sid code None"

datatype error_detail = ReasonDetail h2_reason | HeaderDetail header_error

definition terminalReadFrameError :: "h2_error option \<Rightarrow> bool" where
  "terminalReadFrameError err = (case err of Some (StreamError _ _ _) \<Rightarrow> False | _ \<Rightarrow> err \<noteq> None)"

section \<open>The framer\<close>

record Framer =
  fr_input :: bytes
  lastFrame :: "Frame option"
  errDetail :: "error_detail option"
  counted :: "string list"
  lastHeaderStream :: u32
  maxReadSize :: u32
  fr_w :: "bytes \<Rightarrow> nat \<times> h2_error option"
  written :: "bytes list"
  wbuf :: bytes
  AllowIllegalWrites :: bool
  AllowIllegalReads :: bool
  ReadMetaHeaders :: "Decoder option"
  MaxHeaderListSize :: u32

type_synonym 'a framer = "(Framer, h2_error, 'a) meth"

definition SetMaxReadFrameSize :: "u32 \<Rightarrow> Framer \<Rightarrow> Framer" where
  "SetMaxReadFrameSize v fr = fr\<lparr>maxReadSize := (if v > 0xFFFFFF then 0xFFFFFF else v)\<rparr>"

definition NewFramer :: "(bytes \<Rightarrow> nat \<times> h2_error option) \<Rightarrow> bytes \<Rightarrow> Framer" where
  "NewFramer w r =
     SetMaxReadFrameSize 0xFFFFFF
       \<lparr>fr_input = r, lastFrame = None, errDetail = None, counted = [], lastHeaderStream = 0, maxReadSize = 0, fr_w = w, written = [],
        wbuf = [], AllowIllegalWrites = False, AllowIllegalReads = False, ReadMetaHeaders = None, MaxHeaderListSize = 0\<rparr>"

definition ErrorDetail :: "Framer \<Rightarrow> error_detail option" where
  "ErrorDetail fr = errDetail fr"

section \<open>Writing\<close>

definition startWrite :: "FrameType \<Rightarrow> Flags \<Rightarrow> u32 \<Rightarrow> Framer \<Rightarrow> Framer" where
  "startWrite ftype flags streamID fr =
     fr\<lparr>wbuf := [0, 0, 0, ftype, flags, ucast (drop_bit 24 streamID), ucast (drop_bit 16 streamID), ucast (drop_bit 8 streamID), ucast streamID]\<rparr>"

definition writeBytes :: "bytes \<Rightarrow> Framer \<Rightarrow> Framer" where
  "writeBytes v fr = fr\<lparr>wbuf := wbuf fr @ v\<rparr>"

definition writeByte :: "u8 \<Rightarrow> Framer \<Rightarrow> Framer" where
  "writeByte v fr = fr\<lparr>wbuf := wbuf fr @ [v]\<rparr>"

definition writeUint16 :: "u16 \<Rightarrow> Framer \<Rightarrow> Framer" where
  "writeUint16 v fr = fr\<lparr>wbuf := wbuf fr @ [ucast (drop_bit 8 v), ucast v]\<rparr>"

definition writeUint32 :: "u32 \<Rightarrow> Framer \<Rightarrow> Framer" where
  "writeUint32 v fr = fr\<lparr>wbuf := wbuf fr @ [ucast (drop_bit 24 v), ucast (drop_bit 16 v), ucast (drop_bit 8 v), ucast v]\<rparr>"

definition endWrite :: "unit framer" where
  "endWrite fr =
     (let n = length (wbuf fr) - 9 in
      if n \<ge> 2 ^ 24 then (Fail ErrFrameTooLarge, fr)
      else
        let b = [of_nat (drop_bit 16 n), of_nat (drop_bit 8 n), of_nat n] @ drop 3 (wbuf fr);
            fr = fr\<lparr>wbuf := b, written := written fr @ [b]\<rparr> in
        case fr_w fr b of
          (_, Some err) \<Rightarrow> (Fail err, fr)
        | (n, None) \<Rightarrow> if n \<noteq> length b then (Fail ErrShortWrite, fr) else (Return (), fr))"

definition validStreamIDOrZero :: "u32 \<Rightarrow> bool" where
  "validStreamIDOrZero streamID \<longleftrightarrow> streamID AND push_bit 31 1 = 0"

definition validStreamID :: "u32 \<Rightarrow> bool" where
  "validStreamID streamID \<longleftrightarrow> streamID \<noteq> 0 \<and> streamID AND push_bit 31 1 = 0"

definition flag :: "bool \<Rightarrow> Flags \<Rightarrow> Flags \<Rightarrow> Flags" where
  "flag c v flags = (if c then flags OR v else flags)"

text \<open>A nil padding is \<open>None\<close>.\<close>

definition WriteDataPadded :: "u32 \<Rightarrow> bool \<Rightarrow> bytes \<Rightarrow> bytes option \<Rightarrow> unit framer" where
  "WriteDataPadded streamID endStream data pad fr =
     (let pad_bytes = (case pad of None \<Rightarrow> [] | Some p \<Rightarrow> p) in
      if \<not> validStreamID streamID \<and> \<not> AllowIllegalWrites fr then (Fail errStreamID, fr)
      else if length pad_bytes > 255 then (Fail errPadLength, fr)
      else if \<not> AllowIllegalWrites fr \<and> (\<exists>b \<in> set pad_bytes. b \<noteq> 0) then (Fail errPadBytes, fr)
      else
        let flags = flag (pad \<noteq> None) FlagPadded (flag endStream FlagEndStream 0);
            fr = startWrite FrameData flags streamID fr;
            fr = (if pad \<noteq> None then writeByte (of_nat (length pad_bytes)) fr else fr) in
        endWrite (writeBytes pad_bytes (writeBytes data fr)))"

definition WriteData :: "u32 \<Rightarrow> bool \<Rightarrow> bytes \<Rightarrow> unit framer" where
  "WriteData streamID endStream data = WriteDataPadded streamID endStream data None"

record Setting =
  ID :: u16
  Val :: u32

abbreviation (input) SettingEnablePush :: u16 where "SettingEnablePush \<equiv> 2"
abbreviation (input) SettingInitialWindowSize :: u16 where "SettingInitialWindowSize \<equiv> 4"
abbreviation (input) SettingMaxFrameSize :: u16 where "SettingMaxFrameSize \<equiv> 5"

definition Setting_Valid :: "Setting \<Rightarrow> (h2_error, unit) outcome" where
  "Setting_Valid s =
     (if ID s = SettingEnablePush then
        if Val s \<noteq> 1 \<and> Val s \<noteq> 0 then Fail (ConnectionError ErrCodeProtocol) else Return ()
      else if ID s = SettingInitialWindowSize then
        if Val s > 0x7FFFFFFF then Fail (ConnectionError ErrCodeFlowControl) else Return ()
      else if ID s = SettingMaxFrameSize then
        if Val s < 16384 \<or> Val s > 0xFFFFFF then Fail (ConnectionError ErrCodeProtocol) else Return ()
      else Return ())"

fun write_settings :: "Setting list \<Rightarrow> Framer \<Rightarrow> Framer" where
  "write_settings [] fr = fr"
| "write_settings (s # settings) fr = write_settings settings (writeUint32 (Val s) (writeUint16 (ID s) fr))"

definition WriteSettings :: "Setting list \<Rightarrow> unit framer" where
  "WriteSettings settings fr = endWrite (write_settings settings (startWrite FrameSettings 0 0 fr))"

definition WriteSettingsAck :: "unit framer" where
  "WriteSettingsAck fr = endWrite (startWrite FrameSettings FlagAck 0 fr)"

text \<open>The data of a ping are eight bytes.\<close>

definition WritePing :: "bool \<Rightarrow> bytes \<Rightarrow> unit framer" where
  "WritePing ack data fr = endWrite (writeBytes data (startWrite FramePing (if ack then FlagAck else 0) 0 fr))"

definition WriteGoAway :: "u32 \<Rightarrow> u32 \<Rightarrow> bytes \<Rightarrow> unit framer" where
  "WriteGoAway maxStreamID code debugData fr =
     endWrite (writeBytes debugData (writeUint32 code (writeUint32 (maxStreamID AND 0x7FFFFFFF) (startWrite FrameGoAway 0 0 fr))))"

definition WriteWindowUpdate :: "u32 \<Rightarrow> u32 \<Rightarrow> unit framer" where
  "WriteWindowUpdate streamID incr fr =
     (if (incr < 1 \<or> incr > 2147483647) \<and> \<not> AllowIllegalWrites fr then (Fail errWindowIncrement, fr)
      else endWrite (writeUint32 incr (startWrite FrameWindowUpdate 0 streamID fr)))"

record HeadersFrameParam =
  hp_StreamID :: u32
  hp_BlockFragment :: bytes
  hp_EndStream :: bool
  hp_EndHeaders :: bool
  hp_PadLength :: u8
  hp_Priority :: PriorityParam

definition padZeros :: bytes where
  "padZeros = replicate 255 0"

definition exclusive_bit :: "PriorityParam \<Rightarrow> u32" where
  "exclusive_bit p = (if Exclusive p then StreamDep p OR push_bit 31 1 else StreamDep p)"

definition WriteHeaders :: "HeadersFrameParam \<Rightarrow> unit framer" where
  "WriteHeaders p fr =
     (if \<not> validStreamID (hp_StreamID p) \<and> \<not> AllowIllegalWrites fr then (Fail errStreamID, fr)
      else
        let flags = flag (\<not> PriorityParam_IsZero (hp_Priority p)) FlagPriority (flag (hp_EndHeaders p) FlagEndHeaders
              (flag (hp_EndStream p) FlagEndStream (flag (hp_PadLength p \<noteq> 0) FlagPadded 0)));
            fr = startWrite FrameHeaders flags (hp_StreamID p) fr;
            fr = (if hp_PadLength p \<noteq> 0 then writeByte (hp_PadLength p) fr else fr) in
        if \<not> PriorityParam_IsZero (hp_Priority p) \<and> \<not> validStreamIDOrZero (StreamDep (hp_Priority p)) \<and> \<not> AllowIllegalWrites fr
        then (Fail errDepStreamID, fr)
        else
          let fr = (if \<not> PriorityParam_IsZero (hp_Priority p)
                    then writeByte (Weight (hp_Priority p)) (writeUint32 (exclusive_bit (hp_Priority p)) fr) else fr) in
          endWrite (writeBytes (take (unat (hp_PadLength p)) padZeros) (writeBytes (hp_BlockFragment p) fr)))"

definition WritePriority :: "u32 \<Rightarrow> PriorityParam \<Rightarrow> unit framer" where
  "WritePriority streamID p fr =
     (if \<not> validStreamID streamID \<and> \<not> AllowIllegalWrites fr then (Fail errStreamID, fr)
      else if \<not> validStreamIDOrZero (StreamDep p) then (Fail errDepStreamID, fr)
      else endWrite (writeByte (Weight p) (writeUint32 (exclusive_bit p) (startWrite FramePriority 0 streamID fr))))"

definition WriteRSTStream :: "u32 \<Rightarrow> u32 \<Rightarrow> unit framer" where
  "WriteRSTStream streamID code fr =
     (if \<not> validStreamID streamID \<and> \<not> AllowIllegalWrites fr then (Fail errStreamID, fr)
      else endWrite (writeUint32 code (startWrite FrameRSTStream 0 streamID fr)))"

definition WriteContinuation :: "u32 \<Rightarrow> bool \<Rightarrow> bytes \<Rightarrow> unit framer" where
  "WriteContinuation streamID endHeaders headerBlockFragment fr =
     (if \<not> validStreamID streamID \<and> \<not> AllowIllegalWrites fr then (Fail errStreamID, fr)
      else endWrite (writeBytes headerBlockFragment (startWrite FrameContinuation (flag endHeaders FlagEndHeaders 0) streamID fr)))"

record PushPromiseParam =
  pp_StreamID :: u32
  pp_PromiseID :: u32
  pp_BlockFragment :: bytes
  pp_EndHeaders :: bool
  pp_PadLength :: u8

definition WritePushPromise :: "PushPromiseParam \<Rightarrow> unit framer" where
  "WritePushPromise p fr =
     (if \<not> validStreamID (pp_StreamID p) \<and> \<not> AllowIllegalWrites fr then (Fail errStreamID, fr)
      else
        let flags = flag (pp_EndHeaders p) FlagEndHeaders (flag (pp_PadLength p \<noteq> 0) FlagPadded 0);
            fr = startWrite FramePushPromise flags (pp_StreamID p) fr;
            fr = (if pp_PadLength p \<noteq> 0 then writeByte (pp_PadLength p) fr else fr) in
        if \<not> validStreamID (pp_PromiseID p) \<and> \<not> AllowIllegalWrites fr then (Fail errStreamID, fr)
        else endWrite (writeBytes (take (unat (pp_PadLength p)) padZeros) (writeBytes (pp_BlockFragment p) (writeUint32 (pp_PromiseID p) fr))))"

definition WriteRawFrame :: "FrameType \<Rightarrow> Flags \<Rightarrow> u32 \<Rightarrow> bytes \<Rightarrow> unit framer" where
  "WriteRawFrame t flags streamID payload fr = endWrite (writeBytes payload (startWrite t flags streamID fr))"

section \<open>Parsing\<close>

definition readByte :: "bytes \<Rightarrow> (h2_error, bytes \<times> u8) outcome" where
  "readByte p = (case p of [] \<Rightarrow> Fail ErrUnexpectedEOF | b # remain \<Rightarrow> Return (remain, b))"

definition readUint32 :: "bytes \<Rightarrow> (h2_error, bytes \<times> u32) outcome" where
  "readUint32 p =
     (if length p < 4 then Fail ErrUnexpectedEOF
      else bind_outcome (BigEndian_Uint32 (take 4 p)) (\<lambda>v. Return (drop 4 p, v)))"

text \<open>An error of a parser and the token it passes to \<open>countError\<close>.\<close>

type_synonym parse_error = "string \<times> h2_error"

abbreviation counting :: "string \<Rightarrow> (h2_error, 'a) outcome \<Rightarrow> (parse_error, 'a) outcome" where
  "counting token \<equiv> map_error (Pair token)"

definition parseDataFrame :: "FrameHeader \<Rightarrow> bytes \<Rightarrow> (parse_error, Frame) outcome" where
  "parseDataFrame fh payload =
     (if fh_StreamID fh = 0 then
        Fail (''frame_data_stream_0'', connError ErrCodeProtocol (Reason ''DATA frame with stream ID 0''))
      else
        bind_outcome (if Flags_Has (fh_Flags fh) FlagPadded then counting ''frame_data_pad_byte_short'' (readByte payload) else Return (payload, 0))
          (\<lambda>(payload, padSize).
        if unat padSize > length payload then
          Fail (''frame_data_pad_too_big'', connError ErrCodeProtocol (Reason ''pad size larger than data payload''))
        else Return (DataFrame fh (take (length payload - unat padSize) payload))))"

definition NumSettings :: "bytes \<Rightarrow> nat" where
  "NumSettings p = length p div 6"

definition Setting_at :: "bytes \<Rightarrow> nat \<Rightarrow> ('e, Setting) outcome" where
  "Setting_at buf i =
     bind_outcome (bind_outcome (go_slice buf (i * 6) (i * 6 + 2)) BigEndian_Uint16) (\<lambda>sid.
     bind_outcome (bind_outcome (go_slice buf (i * 6 + 2) (i * 6 + 6)) BigEndian_Uint32) (\<lambda>v.
     Return \<lparr>ID = sid, Val = v\<rparr>))"

fun value_loop :: "bytes \<Rightarrow> u16 \<Rightarrow> nat list \<Rightarrow> ('e, u32 option) outcome" where
  "value_loop p sid [] = Return None"
| "value_loop p sid (i # is) = bind_outcome (Setting_at p i) (\<lambda>s. if ID s = sid then Return (Some (Val s)) else value_loop p sid is)"

definition Settings_Value :: "FrameHeader \<Rightarrow> bytes \<Rightarrow> u16 \<Rightarrow> ('e, u32 option) outcome" where
  "Settings_Value fh p sid = bind_outcome (checkValid fh) (\<lambda>_. value_loop p sid [0..<NumSettings p])"

definition parseSettingsFrame :: "FrameHeader \<Rightarrow> bytes \<Rightarrow> (parse_error, Frame) outcome" where
  "parseSettingsFrame fh p =
     (if Flags_Has (fh_Flags fh) FlagAck \<and> fh_Length fh > 0 then
        Fail (''frame_settings_ack_with_length'', ConnectionError ErrCodeFrameSize)
      else if fh_StreamID fh \<noteq> 0 then Fail (''frame_settings_has_stream'', ConnectionError ErrCodeProtocol)
      else if length p mod 6 \<noteq> 0 then Fail (''frame_settings_mod_6'', ConnectionError ErrCodeFrameSize)
      else
        bind_outcome (Settings_Value fh p SettingInitialWindowSize) (\<lambda>v.
        case v of
          Some v \<Rightarrow>
            if v > 0x7FFFFFFF then Fail (''frame_settings_window_size_too_big'', ConnectionError ErrCodeFlowControl)
            else Return (SettingsFrame fh p)
        | None \<Rightarrow> Return (SettingsFrame fh p)))"

text \<open>\<open>HasDuplicates\<close> compares all pairs of up to nine settings and keeps a set of ids for more.\<close>

fun later_same :: "bytes \<Rightarrow> u16 \<Rightarrow> nat list \<Rightarrow> ('e, bool) outcome" where
  "later_same p idi [] = Return False"
| "later_same p idi (j # js) = bind_outcome (Setting_at p j) (\<lambda>s. if idi = ID s then Return True else later_same p idi js)"

fun pairs_loop :: "bytes \<Rightarrow> nat list \<Rightarrow> ('e, bool) outcome" where
  "pairs_loop p [] = Return False"
| "pairs_loop p (i # is) =
     bind_outcome (Setting_at p i) (\<lambda>s. bind_outcome (later_same p (ID s) is) (\<lambda>b. if b then Return True else pairs_loop p is))"

fun seen_loop :: "bytes \<Rightarrow> u16 set \<Rightarrow> nat list \<Rightarrow> ('e, bool) outcome" where
  "seen_loop p seen [] = Return False"
| "seen_loop p seen (i # is) = bind_outcome (Setting_at p i) (\<lambda>s. if ID s \<in> seen then Return True else seen_loop p (insert (ID s) seen) is)"

definition HasDuplicates :: "bytes \<Rightarrow> ('e, bool) outcome" where
  "HasDuplicates p =
     (let num = NumSettings p in
      if num = 0 then Return False
      else if num < 10 then pairs_loop p [0..<num]
      else seen_loop p {} [0..<num])"

fun foreach_loop :: "bytes \<Rightarrow> (Setting \<Rightarrow> ('s, 'e, unit) meth) \<Rightarrow> nat list \<Rightarrow> ('s, 'e, unit) meth" where
  "foreach_loop p fn [] = lift_meth (Return ())"
| "foreach_loop p fn (i # is) = bind_meth (lift_meth (Setting_at p i)) (\<lambda>s. bind_meth (fn s) (\<lambda>_. foreach_loop p fn is))"

definition ForeachSetting :: "FrameHeader \<Rightarrow> bytes \<Rightarrow> (Setting \<Rightarrow> ('s, 'e, unit) meth) \<Rightarrow> ('s, 'e, unit) meth" where
  "ForeachSetting fh p fn = bind_meth (lift_meth (checkValid fh)) (\<lambda>_. foreach_loop p fn [0..<NumSettings p])"

definition parsePingFrame :: "FrameHeader \<Rightarrow> bytes \<Rightarrow> (parse_error, Frame) outcome" where
  "parsePingFrame fh payload =
     (if length payload \<noteq> 8 then Fail (''frame_ping_length'', ConnectionError ErrCodeFrameSize)
      else if fh_StreamID fh \<noteq> 0 then Fail (''frame_ping_has_stream'', ConnectionError ErrCodeProtocol)
      else Return (PingFrame fh payload))"

definition parseGoAwayFrame :: "FrameHeader \<Rightarrow> bytes \<Rightarrow> (parse_error, Frame) outcome" where
  "parseGoAwayFrame fh p =
     (if fh_StreamID fh \<noteq> 0 then Fail (''frame_goaway_has_stream'', ConnectionError ErrCodeProtocol)
      else if length p < 8 then Fail (''frame_goaway_short'', ConnectionError ErrCodeFrameSize)
      else
        bind_outcome (bind_outcome (go_slice p 0 4) BigEndian_Uint32) (\<lambda>last.
        bind_outcome (bind_outcome (go_slice p 4 8) BigEndian_Uint32) (\<lambda>code.
        Return (GoAwayFrame fh (last AND 0x7FFFFFFF) code (drop 8 p)))))"

definition parseUnknownFrame :: "FrameHeader \<Rightarrow> bytes \<Rightarrow> (parse_error, Frame) outcome" where
  "parseUnknownFrame fh p = Return (UnknownFrame fh p)"

definition parseWindowUpdateFrame :: "FrameHeader \<Rightarrow> bytes \<Rightarrow> (parse_error, Frame) outcome" where
  "parseWindowUpdateFrame fh p =
     (if length p \<noteq> 4 then Fail (''frame_windowupdate_bad_len'', ConnectionError ErrCodeFrameSize)
      else
        bind_outcome (BigEndian_Uint32 (take 4 p)) (\<lambda>v.
        let inc = v AND 0x7FFFFFFF in
        if inc = 0 then
          if fh_StreamID fh = 0 then Fail (''frame_windowupdate_zero_inc_conn'', ConnectionError ErrCodeProtocol)
          else Fail (''frame_windowupdate_zero_inc_stream'', streamError (fh_StreamID fh) ErrCodeProtocol)
        else Return (WindowUpdateFrame fh inc)))"

definition priority_of :: "u32 \<Rightarrow> u8 \<Rightarrow> PriorityParam" where
  "priority_of v weight = \<lparr>StreamDep = v AND 0x7FFFFFFF, Exclusive = (v \<noteq> v AND 0x7FFFFFFF), Weight = weight\<rparr>"

definition headers_priority :: "Flags \<Rightarrow> bytes \<Rightarrow> (parse_error, bytes \<times> PriorityParam) outcome" where
  "headers_priority flags p =
     (if Flags_Has flags FlagPriority then
        bind_outcome (counting ''frame_headers_prio_short'' (readUint32 p)) (\<lambda>(p, v).
        bind_outcome (counting ''frame_headers_prio_weight_short'' (readByte p)) (\<lambda>(p, weight).
        Return (p, priority_of v weight)))
      else Return (p, \<lparr>StreamDep = 0, Exclusive = False, Weight = 0\<rparr>))"

definition parseHeadersFrame :: "FrameHeader \<Rightarrow> bytes \<Rightarrow> (parse_error, Frame) outcome" where
  "parseHeadersFrame fh p =
     (if fh_StreamID fh = 0 then
        Fail (''frame_headers_zero_stream'', connError ErrCodeProtocol (Reason ''HEADERS frame with stream ID 0''))
      else
        bind_outcome (if Flags_Has (fh_Flags fh) FlagPadded then counting ''frame_headers_pad_short'' (readByte p) else Return (p, 0)) (\<lambda>(p, padLength).
        bind_outcome (headers_priority (fh_Flags fh) p) (\<lambda>(p, priority).
        if length p < unat padLength then Fail (''frame_headers_pad_too_big'', streamError (fh_StreamID fh) ErrCodeProtocol)
        else Return (HeadersFrame fh priority (take (length p - unat padLength) p)))))"

definition parsePriorityFrame :: "FrameHeader \<Rightarrow> bytes \<Rightarrow> (parse_error, Frame) outcome" where
  "parsePriorityFrame fh payload =
     (if fh_StreamID fh = 0 then
        Fail (''frame_priority_zero_stream'', connError ErrCodeProtocol (Reason ''PRIORITY frame with stream ID 0''))
      else if length payload \<noteq> 5 then
        Fail (''frame_priority_bad_length'', connError ErrCodeFrameSize (PrioritySize (length payload)))
      else
        bind_outcome (BigEndian_Uint32 (take 4 payload)) (\<lambda>v.
        bind_outcome (go_index payload 4) (\<lambda>weight.
        Return (PriorityFrame fh (priority_of v weight)))))"

definition parseRSTStreamFrame :: "FrameHeader \<Rightarrow> bytes \<Rightarrow> (parse_error, Frame) outcome" where
  "parseRSTStreamFrame fh p =
     (if length p \<noteq> 4 then Fail (''frame_rststream_bad_len'', ConnectionError ErrCodeFrameSize)
      else if fh_StreamID fh = 0 then Fail (''frame_rststream_zero_stream'', ConnectionError ErrCodeProtocol)
      else bind_outcome (BigEndian_Uint32 (take 4 p)) (\<lambda>code. Return (RSTStreamFrame fh code)))"

definition parseContinuationFrame :: "FrameHeader \<Rightarrow> bytes \<Rightarrow> (parse_error, Frame) outcome" where
  "parseContinuationFrame fh p =
     (if fh_StreamID fh = 0 then
        Fail (''frame_continuation_zero_stream'', connError ErrCodeProtocol (Reason ''CONTINUATION frame with stream ID 0''))
      else Return (ContinuationFrame fh p))"

definition parsePushPromise :: "FrameHeader \<Rightarrow> bytes \<Rightarrow> (parse_error, Frame) outcome" where
  "parsePushPromise fh p =
     (if fh_StreamID fh = 0 then Fail (''frame_pushpromise_zero_stream'', ConnectionError ErrCodeProtocol)
      else
        bind_outcome (if Flags_Has (fh_Flags fh) FlagPadded then counting ''frame_pushpromise_pad_short'' (readByte p) else Return (p, 0)) (\<lambda>(p, padLength).
        bind_outcome (counting ''frame_pushpromise_promiseid_short'' (readUint32 p)) (\<lambda>(p, promiseID).
        if unat padLength > length p then Fail (''frame_pushpromise_pad_too_big'', ConnectionError ErrCodeProtocol)
        else Return (PushPromiseFrame fh (promiseID AND 0x7FFFFFFF) (take (length p - unat padLength) p)))))"

definition typeFrameParser :: "FrameType \<Rightarrow> FrameHeader \<Rightarrow> bytes \<Rightarrow> (parse_error, Frame) outcome" where
  "typeFrameParser t =
     (if t = FrameData then parseDataFrame else if t = FrameHeaders then parseHeadersFrame
      else if t = FramePriority then parsePriorityFrame else if t = FrameRSTStream then parseRSTStreamFrame
      else if t = FrameSettings then parseSettingsFrame else if t = FramePushPromise then parsePushPromise
      else if t = FramePing then parsePingFrame else if t = FrameGoAway then parseGoAwayFrame
      else if t = FrameWindowUpdate then parseWindowUpdateFrame else if t = FrameContinuation then parseContinuationFrame
      else parseUnknownFrame)"

section \<open>Reading\<close>

text \<open>\<open>io.ReadFull\<close>.\<close>

definition ReadFull :: "nat \<Rightarrow> bytes framer" where
  "ReadFull n fr =
     (if n \<le> length (fr_input fr) then (Return (take n (fr_input fr)), fr\<lparr>fr_input := drop n (fr_input fr)\<rparr>)
      else (Fail (if fr_input fr = [] then EOF else ErrUnexpectedEOF), fr\<lparr>fr_input := []\<rparr>))"

definition header_of :: "bytes \<Rightarrow> (h2_error, FrameHeader) outcome" where
  "header_of buf =
     (case buf of
        [b0, b1, b2, b3, b4, b5, b6, b7, b8] \<Rightarrow>
          bind_outcome (BigEndian_Uint32 [b5, b6, b7, b8]) (\<lambda>v.
          Return \<lparr>fh_valid = True, fh_Type = b3, fh_Flags = b4,
            fh_Length = push_bit 16 (ucast b0) OR push_bit 8 (ucast b1) OR ucast b2, fh_StreamID = v AND 0x7FFFFFFF\<rparr>)
      | _ \<Rightarrow> Panic)"

definition readFrameHeader :: "FrameHeader framer" where
  "readFrameHeader = bind_meth (ReadFull 9) (\<lambda>buf. lift_meth (header_of buf))"

definition framer_connError :: "u32 \<Rightarrow> h2_reason \<Rightarrow> 'a framer" where
  "framer_connError code reason fr = (Fail (ConnectionError code), fr\<lparr>errDetail := Some (ReasonDetail reason)\<rparr>)"

definition checkFrameOrder :: "Frame \<Rightarrow> unit framer" where
  "checkFrameOrder f fr =
     (let last = lastFrame fr; fr = fr\<lparr>lastFrame := Some f\<rparr>; fh = Frame_Header f;
          next_stream = (if fh_Type fh = FrameHeaders \<or> fh_Type fh = FrameContinuation
            then fr\<lparr>lastHeaderStream := (if Flags_Has (fh_Flags fh) FlagEndHeaders then 0 else fh_StreamID fh)\<rparr> else fr) in
      if AllowIllegalReads fr then (Return (), fr)
      else if lastHeaderStream fr \<noteq> 0 then
        if fh_Type fh \<noteq> FrameContinuation then
          (case last of
             None \<Rightarrow> (Panic, fr)
           | Some l \<Rightarrow> framer_connError ErrCodeProtocol
               (WantContinuation (fh_Type fh) (fh_StreamID fh) (fh_Type (Frame_Header l)) (lastHeaderStream fr)) fr)
        else if fh_StreamID fh \<noteq> lastHeaderStream fr then
          framer_connError ErrCodeProtocol (WrongContinuation (fh_StreamID fh) (lastHeaderStream fr)) fr
        else (Return (), next_stream)
      else if fh_Type fh = FrameContinuation then framer_connError ErrCodeProtocol (UnexpectedContinuation (fh_StreamID fh)) fr
      else (Return (), next_stream))"

text \<open>\<open>ReadFrame\<close> up to the merging of header blocks.\<close>

definition parse_payload :: "FrameHeader \<Rightarrow> bytes \<Rightarrow> Frame framer" where
  "parse_payload fh payload fr =
     (case typeFrameParser (fh_Type fh) fh payload of
        Return f \<Rightarrow> bind_meth (checkFrameOrder f) (\<lambda>_. lift_meth (Return f)) fr
      | Fail (token, connError code reason) \<Rightarrow> framer_connError code reason (fr\<lparr>counted := counted fr @ [token]\<rparr>)
      | Fail (token, err) \<Rightarrow> (Fail err, fr\<lparr>counted := counted fr @ [token]\<rparr>)
      | Panic \<Rightarrow> (Panic, fr))"

definition read_one :: "Frame framer" where
  "read_one fr =
     bind_meth readFrameHeader (\<lambda>fh fr.
       if fh_Length fh > maxReadSize fr then (Fail ErrFrameTooLarge, fr)
       else bind_meth (ReadFull (unat (fh_Length fh))) (parse_payload fh) fr)
     (fr\<lparr>errDetail := None, lastFrame := map_option invalidate (lastFrame fr)\<rparr>)"

section \<open>Frames on the wire\<close>

definition wire24 :: "nat \<Rightarrow> bytes" where
  "wire24 n = [of_nat (drop_bit 16 n), of_nat (drop_bit 8 n), of_nat n]"

definition frame_bytes :: "FrameType \<Rightarrow> Flags \<Rightarrow> u32 \<Rightarrow> bytes \<Rightarrow> bytes" where
  "frame_bytes ty flags sid payload = wire24 (length payload) @ [ty, flags] @ wire32 sid @ payload"

definition sent_header :: "FrameType \<Rightarrow> Flags \<Rightarrow> nat \<Rightarrow> u32 \<Rightarrow> FrameHeader" where
  "sent_header ty flags n sid =
     \<lparr>fh_valid = True, fh_Type = ty, fh_Flags = flags, fh_Length = of_nat n, fh_StreamID = sid AND 0x7FFFFFFF\<rparr>"

lemma sent_header_simps [simp]:
  "fh_valid (sent_header ty flags n sid)" "fh_Type (sent_header ty flags n sid) = ty" "fh_Flags (sent_header ty flags n sid) = flags"
  "fh_Length (sent_header ty flags n sid) = of_nat n" "fh_StreamID (sent_header ty flags n sid) = sid AND 0x7FFFFFFF"
  by (simp_all add: sent_header_def)

lemma join24:
  assumes "n < 2 ^ 24"
  shows "push_bit 16 (ucast (of_nat (drop_bit 16 n) :: u8)) OR push_bit 8 (ucast (of_nat (drop_bit 8 n) :: u8)) OR ucast (of_nat n :: u8) = (of_nat n :: u32)"
proof (rule bit_word_eqI)
  fix k :: nat
  assume k: "k < LENGTH(32)"
  have high: "\<not> bit n k" if "24 \<le> k"
  proof -
    have "n < 2 ^ k" using assms that by (meson less_le_trans power_increasing_iff one_less_numeral_iff semiring_norm(76) order_trans)
    then show ?thesis by (simp add: bit_iff_odd)
  qed
  consider "k < 8" | "8 \<le> k" "k < 16" | "16 \<le> k" "k < 24" | "24 \<le> k" by fastforce
  then show "bit (push_bit 16 (ucast (of_nat (drop_bit 16 n) :: u8)) OR push_bit 8 (ucast (of_nat (drop_bit 8 n) :: u8)) OR ucast (of_nat n :: u8) :: u32) k =
      bit (of_nat n :: u32) k"
    using k high by cases (auto simp: bit_simps bit_of_nat_iff)
qed

lemma header_of_wire:
  assumes "n < 2 ^ 24"
  shows "header_of (wire24 n @ [ty, flags] @ wire32 sid) = Return (sent_header ty flags n sid)"
proof -
  have "BigEndian_Uint32 [ucast (drop_bit 24 sid), ucast (drop_bit 16 sid), ucast (drop_bit 8 sid), ucast sid] = (Return sid :: (h2_error, u32) outcome)"
    using BigEndian_wire(2) [of sid] by (simp only: wire32_def)
  then show ?thesis using join24 [OF assms] by (simp add: header_of_def wire24_def wire32_def sent_header_def)
qed

text \<open>What the fields of the framer a read does not touch are.\<close>

definition fresh_read :: "bytes \<Rightarrow> Framer \<Rightarrow> Framer" where
  "fresh_read rest fr = fr\<lparr>errDetail := None, lastFrame := map_option invalidate (lastFrame fr), fr_input := rest\<rparr>"

lemma read_one_frame:
  assumes "fr_input fr = frame_bytes ty flags sid payload @ rest" "length payload < 2 ^ 24" "of_nat (length payload) \<le> maxReadSize fr"
  shows "read_one fr = parse_payload (sent_header ty flags (length payload) sid) payload (fresh_read rest fr)"
proof -
  let ?n = "length payload"
  let ?h = "wire24 ?n @ [ty, flags] @ wire32 sid"
  have i: "fr_input fr = ?h @ payload @ rest" "length ?h = 9"
    using assms(1) by (simp_all add: frame_bytes_def wire24_def)
  have h: "readFrameHeader (fr\<lparr>errDetail := None, lastFrame := map_option invalidate (lastFrame fr)\<rparr>) =
      (Return (sent_header ty flags ?n sid), fresh_read (payload @ rest) fr)"
    using i header_of_wire [OF assms(2), of ty flags sid]
    by (simp add: readFrameHeader_def ReadFull_def lift_meth_def fresh_read_def del: append.append_Cons append_assoc)
  have "unat (of_nat ?n :: u32) = ?n" using assms(2) by (simp add: unat_of_nat)
  then have "bind_meth (ReadFull (unat (fh_Length (sent_header ty flags ?n sid)))) (parse_payload (sent_header ty flags ?n sid)) (fresh_read (payload @ rest) fr) =
      parse_payload (sent_header ty flags ?n sid) payload (fresh_read rest fr)"
    by (simp add: ReadFull_def fresh_read_def)
  moreover have "\<not> fh_Length (sent_header ty flags ?n sid) > maxReadSize (fresh_read (payload @ rest) fr)"
    using assms(3) by (simp add: fresh_read_def linorder_not_less)
  ultimately show ?thesis using h unfolding read_one_def by simp
qed

section \<open>What the write methods send\<close>

text \<open>A call of a write method.\<close>

datatype write_call =
  CallData u32 bool bytes "bytes option"
| CallHeaders HeadersFrameParam
| CallPriority u32 PriorityParam
| CallRSTStream u32 u32
| CallSettings "Setting list"
| CallSettingsAck
| CallPushPromise PushPromiseParam
| CallPing bool bytes
| CallGoAway u32 u32 bytes
| CallWindowUpdate u32 u32
| CallContinuation u32 bool bytes
| CallRaw FrameType Flags u32 bytes

fun perform :: "write_call \<Rightarrow> unit framer" where
  "perform (CallData sid endStream data pad) = WriteDataPadded sid endStream data pad"
| "perform (CallHeaders p) = WriteHeaders p"
| "perform (CallPriority sid p) = WritePriority sid p"
| "perform (CallRSTStream sid code) = WriteRSTStream sid code"
| "perform (CallSettings settings) = WriteSettings settings"
| "perform CallSettingsAck = WriteSettingsAck"
| "perform (CallPushPromise p) = WritePushPromise p"
| "perform (CallPing ack data) = WritePing ack data"
| "perform (CallGoAway sid code debug) = WriteGoAway sid code debug"
| "perform (CallWindowUpdate sid incr) = WriteWindowUpdate sid incr"
| "perform (CallContinuation sid endHeaders frag) = WriteContinuation sid endHeaders frag"
| "perform (CallRaw t flags sid payload) = WriteRawFrame t flags sid payload"

abbreviation pad_bytes :: "bytes option \<Rightarrow> bytes" where
  "pad_bytes pad \<equiv> (case pad of None \<Rightarrow> [] | Some p \<Rightarrow> p)"

abbreviation pad_field :: "bytes option \<Rightarrow> bytes" where
  "pad_field pad \<equiv> (case pad of None \<Rightarrow> [] | Some p \<Rightarrow> [of_nat (length p)])"

abbreviation zeros_field :: "u8 \<Rightarrow> bytes" where
  "zeros_field n \<equiv> (if n = 0 then [] else [n])"

definition priority_bytes :: "PriorityParam \<Rightarrow> bytes" where
  "priority_bytes p = wire32 (exclusive_bit p) @ [Weight p]"

definition priority_field :: "PriorityParam \<Rightarrow> bytes" where
  "priority_field p = (if PriorityParam_IsZero p then [] else priority_bytes p)"

definition settings_bytes :: "Setting list \<Rightarrow> bytes" where
  "settings_bytes settings = concat (map (\<lambda>s. wire16 (ID s) @ wire32 (Val s)) settings)"

text \<open>Type, flags, stream and payload of the frame a call sends.\<close>

fun call_type :: "write_call \<Rightarrow> FrameType" where
  "call_type (CallData _ _ _ _) = FrameData"
| "call_type (CallHeaders _) = FrameHeaders"
| "call_type (CallPriority _ _) = FramePriority"
| "call_type (CallRSTStream _ _) = FrameRSTStream"
| "call_type (CallSettings _) = FrameSettings"
| "call_type CallSettingsAck = FrameSettings"
| "call_type (CallPushPromise _) = FramePushPromise"
| "call_type (CallPing _ _) = FramePing"
| "call_type (CallGoAway _ _ _) = FrameGoAway"
| "call_type (CallWindowUpdate _ _) = FrameWindowUpdate"
| "call_type (CallContinuation _ _ _) = FrameContinuation"
| "call_type (CallRaw t _ _ _) = t"

fun call_flags :: "write_call \<Rightarrow> Flags" where
  "call_flags (CallData _ endStream _ pad) = flag (pad \<noteq> None) FlagPadded (flag endStream FlagEndStream 0)"
| "call_flags (CallHeaders p) =
     flag (\<not> PriorityParam_IsZero (hp_Priority p)) FlagPriority (flag (hp_EndHeaders p) FlagEndHeaders
       (flag (hp_EndStream p) FlagEndStream (flag (hp_PadLength p \<noteq> 0) FlagPadded 0)))"
| "call_flags (CallPushPromise p) = flag (pp_EndHeaders p) FlagEndHeaders (flag (pp_PadLength p \<noteq> 0) FlagPadded 0)"
| "call_flags CallSettingsAck = FlagAck"
| "call_flags (CallPing ack _) = (if ack then FlagAck else 0)"
| "call_flags (CallContinuation _ endHeaders _) = flag endHeaders FlagEndHeaders 0"
| "call_flags (CallRaw _ flags _ _) = flags"
| "call_flags _ = 0"

fun call_stream :: "write_call \<Rightarrow> u32" where
  "call_stream (CallData sid _ _ _) = sid"
| "call_stream (CallHeaders p) = hp_StreamID p"
| "call_stream (CallPriority sid _) = sid"
| "call_stream (CallRSTStream sid _) = sid"
| "call_stream (CallPushPromise p) = pp_StreamID p"
| "call_stream (CallWindowUpdate sid _) = sid"
| "call_stream (CallContinuation sid _ _) = sid"
| "call_stream (CallRaw _ _ sid _) = sid"
| "call_stream _ = 0"

fun call_payload :: "write_call \<Rightarrow> bytes" where
  "call_payload (CallData _ _ data pad) = pad_field pad @ data @ pad_bytes pad"
| "call_payload (CallHeaders p) =
     zeros_field (hp_PadLength p) @ priority_field (hp_Priority p) @ hp_BlockFragment p @ replicate (unat (hp_PadLength p)) 0"
| "call_payload (CallPriority _ p) = priority_bytes p"
| "call_payload (CallRSTStream _ code) = wire32 code"
| "call_payload (CallSettings settings) = settings_bytes settings"
| "call_payload CallSettingsAck = []"
| "call_payload (CallPushPromise p) =
     zeros_field (pp_PadLength p) @ wire32 (pp_PromiseID p) @ pp_BlockFragment p @ replicate (unat (pp_PadLength p)) 0"
| "call_payload (CallPing _ data) = data"
| "call_payload (CallGoAway sid code debug) = wire32 (sid AND 0x7FFFFFFF) @ wire32 code @ debug"
| "call_payload (CallWindowUpdate _ incr) = wire32 incr"
| "call_payload (CallContinuation _ _ frag) = frag"
| "call_payload (CallRaw _ _ _ payload) = payload"

text \<open>What the write methods check unless illegal writes are allowed.\<close>

fun legal_call :: "write_call \<Rightarrow> bool" where
  "legal_call (CallData sid _ _ pad) = (validStreamID sid \<and> length (pad_bytes pad) \<le> 255 \<and> (\<forall>b \<in> set (pad_bytes pad). b = 0))"
| "legal_call (CallHeaders p) = (validStreamID (hp_StreamID p) \<and> validStreamIDOrZero (StreamDep (hp_Priority p)))"
| "legal_call (CallPriority sid p) = (validStreamID sid \<and> validStreamIDOrZero (StreamDep p))"
| "legal_call (CallRSTStream sid _) = validStreamID sid"
| "legal_call (CallPushPromise p) = (validStreamID (pp_StreamID p) \<and> validStreamID (pp_PromiseID p))"
| "legal_call (CallWindowUpdate _ incr) = (1 \<le> incr \<and> incr \<le> 2147483647)"
| "legal_call (CallContinuation sid _ _) = validStreamID sid"
| "legal_call _ = True"

lemma write_simps [simp]:
  "wbuf (writeBytes v fr) = wbuf fr @ v" "wbuf (writeByte b fr) = wbuf fr @ [b]" "wbuf (writeUint16 h fr) = wbuf fr @ wire16 h"
  "wbuf (writeUint32 w fr) = wbuf fr @ wire32 w" "wbuf (startWrite ty flags sid fr) = [0, 0, 0, ty, flags] @ wire32 sid"
  by (simp_all add: writeBytes_def writeByte_def writeUint16_def writeUint32_def startWrite_def wire16_def wire32_def)

text \<open>The framer after a write: only the buffer and the log of the writes differ.\<close>

definition same_framer :: "Framer \<Rightarrow> Framer \<Rightarrow> bool" where
  "same_framer fr fr' \<longleftrightarrow> fr'\<lparr>wbuf := wbuf fr, written := written fr\<rparr> = fr"

definition building :: "Framer \<Rightarrow> Framer \<Rightarrow> bool" where
  "building fr fr' \<longleftrightarrow> (\<exists>b. fr' = fr\<lparr>wbuf := b\<rparr>)"

lemma building_intros [simp, intro]:
  "building fr fr' \<Longrightarrow> building fr (writeBytes v fr')" "building fr fr' \<Longrightarrow> building fr (writeByte b fr')"
  "building fr fr' \<Longrightarrow> building fr (writeUint16 h fr')" "building fr fr' \<Longrightarrow> building fr (writeUint32 w fr')"
  "building fr (startWrite ty flags sid fr)"
  by (auto simp: building_def writeBytes_def writeByte_def writeUint16_def writeUint32_def startWrite_def)

lemma write_settings_simps [simp]:
  "wbuf (write_settings settings fr) = wbuf fr @ settings_bytes settings"
  "building fr0 fr \<Longrightarrow> building fr0 (write_settings settings fr)"
  by (induction settings arbitrary: fr) (simp_all add: settings_bytes_def)

lemma endWrite_sends:
  assumes "building fr fr'" "wbuf fr' = [0, 0, 0, ty, flags] @ wire32 sid @ payload" "endWrite fr' = (Return (), fr'')"
  shows "written fr'' = written fr @ [frame_bytes ty flags sid payload] \<and> length payload < 2 ^ 24 \<and> same_framer fr fr''"
  using assms
  by (auto simp: endWrite_def Let_def frame_bytes_def wire24_def same_framer_def building_def split: if_splits prod.splits option.splits)

lemma endWrite_writes:
  assumes "building fr fr'" "wbuf fr' = [0, 0, 0, ty, flags] @ wire32 sid @ payload" "length payload < 2 ^ 24" "\<And>b. fr_w fr b = (length b, None)"
  shows "\<exists>fr''. endWrite fr' = (Return (), fr'')"
  using assms by (auto simp: endWrite_def Let_def building_def)

lemma pad_zeros: "take (unat (n :: u8)) padZeros = replicate (unat n) 0"
  using byte_unat_less [of n] by (simp add: padZeros_def)

text \<open>A legal call builds the bytes of its frame and writes them at once.\<close>

lemma perform_legal:
  assumes "legal_call c"
  shows "\<exists>fr'. building fr fr' \<and> wbuf fr' = [0, 0, 0, call_type c, call_flags c] @ wire32 (call_stream c) @ call_payload c \<and>
    perform c fr = endWrite fr'"
proof -
  have send: "\<exists>fr'. building fr fr' \<and> wbuf fr' = b \<and> endWrite x = endWrite fr'" if "building fr x" "wbuf x = b" for x b
    using that by blast
  show ?thesis
  proof (cases c)
    case (CallData sid e data pad)
    then show ?thesis using assms
      by (cases pad) (simp_all add: WriteDataPadded_def Let_def, (rule send; simp)+)
  next
    case (CallHeaders p)
    then show ?thesis using assms
      by (cases "hp_PadLength p = 0"; cases "PriorityParam_IsZero (hp_Priority p)")
        (simp_all add: WriteHeaders_def Let_def priority_field_def priority_bytes_def pad_zeros, (rule send; simp)+)
  next
    case (CallPushPromise p)
    then show ?thesis using assms
      by (cases "pp_PadLength p = 0") (simp_all add: WritePushPromise_def Let_def pad_zeros, (rule send; simp)+)
  next
    case (CallPing ack data)
    then show ?thesis by (cases ack) (simp_all add: WritePing_def, (rule send; simp)+)
  next
    case (CallWindowUpdate sid incr)
    then have "\<not> (incr < 1 \<or> incr > 2147483647)" using assms by (simp only: legal_call.simps linorder_not_less de_Morgan_disj)
    then have "perform c fr = endWrite (writeUint32 incr (startWrite 8 0 sid fr))"
      using CallWindowUpdate by (simp only: perform.simps WriteWindowUpdate_def simp_thms if_False)
    then show ?thesis using CallWindowUpdate by (simp only:, intro send) simp_all
  qed (use assms in \<open>simp_all add: WritePriority_def WriteRSTStream_def WriteSettings_def WriteSettingsAck_def WriteGoAway_def
      WriteContinuation_def WriteRawFrame_def priority_bytes_def\<close>, (rule send; simp)+)
qed

lemma perform_illegal:
  assumes "\<not> legal_call c" "\<not> AllowIllegalWrites fr"
  shows "\<exists>e fr'. perform c fr = (Fail e, fr') \<and> written fr' = written fr"
proof (cases c)
  case (CallData sid e data pad)
  then show ?thesis using assms by (auto simp: WriteDataPadded_def Let_def)
next
  case (CallHeaders p)
  have "validStreamIDOrZero (StreamDep (hp_Priority p))" if "PriorityParam_IsZero (hp_Priority p)"
    using that by (simp add: PriorityParam_IsZero_def validStreamIDOrZero_def)
  then show ?thesis using CallHeaders assms
    by (auto simp: WriteHeaders_def Let_def startWrite_def writeByte_def)
next
  case (CallPushPromise p)
  then show ?thesis using assms by (auto simp: WritePushPromise_def Let_def startWrite_def writeByte_def)
next
  case (CallWindowUpdate sid incr)
  then show ?thesis using assms by (auto simp: WriteWindowUpdate_def linorder_not_le)
qed (use assms in \<open>auto simp: WritePriority_def WriteRSTStream_def WriteContinuation_def\<close>)

lemma perform_sends:
  assumes "perform c fr = (Return (), fr')" "\<not> AllowIllegalWrites fr"
  shows "legal_call c \<and> length (call_payload c) < 2 ^ 24 \<and> same_framer fr fr' \<and>
    written fr' = written fr @ [frame_bytes (call_type c) (call_flags c) (call_stream c) (call_payload c)]"
proof -
  have legal: "legal_call c" using perform_illegal [of c fr] assms by force
  from perform_legal [OF this, of fr] obtain fr1 where fr1: "building fr fr1"
    "wbuf fr1 = [0, 0, 0, call_type c, call_flags c] @ wire32 (call_stream c) @ call_payload c" "perform c fr = endWrite fr1" by blast
  have "endWrite fr1 = (Return (), fr')" using fr1(3) assms(1) by simp
  from endWrite_sends [OF fr1(1,2) this] legal show ?thesis by simp
qed

section \<open>What the parsers make of it\<close>

lemma Has_flag [simp]: "Flags_Has (flag c v f) v \<longleftrightarrow> c \<or> Flags_Has f v" "v AND u = 0 \<Longrightarrow> Flags_Has (flag c v f) u \<longleftrightarrow> Flags_Has f u"
proof -
  have "(f OR v) AND v = v" by (rule bit_word_eqI) (auto simp: bit_simps)
  then show "Flags_Has (flag c v f) v \<longleftrightarrow> c \<or> Flags_Has f v" by (simp add: Flags_Has_def flag_def)
  have "(f OR v) AND u = (f AND u) OR (v AND u)" by (rule bit_word_eqI) (auto simp: bit_simps)
  then show "Flags_Has (flag c v f) u \<longleftrightarrow> Flags_Has f u" if "v AND u = 0" using that by (simp add: Flags_Has_def flag_def)
qed

lemma Has_zero [simp]: "Flags_Has 0 v \<longleftrightarrow> v = 0"
  by (auto simp: Flags_Has_def)

lemma top_bit: "bit (push_bit 31 1 :: u32) n \<longleftrightarrow> n = 31"
  by (simp only: bit_push_bit_iff bit_1_iff possible_bit_word len_num0 len_bit0 len_num1) auto

lemma low31: "v AND push_bit 31 1 = 0 \<Longrightarrow> v AND 0x7FFFFFFF = (v :: u32)"
proof -
  assume "v AND push_bit 31 1 = 0"
  then have "\<not> bit (v AND push_bit 31 1) 31" by simp
  then have "\<not> bit v 31" by (simp add: bit_simps)
  moreover have "(0x7FFFFFFF :: u32) = mask 31" by (simp add: mask_eq_exp_minus_1)
  ultimately show ?thesis by (intro bit_word_eqI) (auto simp: bit_simps less_Suc_eq eval_nat_numeral)
qed

lemma valid_stream: "validStreamID sid \<Longrightarrow> sid AND 0x7FFFFFFF = sid \<and> sid \<noteq> 0"
  by (simp add: validStreamID_def low31)

lemma priority_round_trip: "validStreamIDOrZero (StreamDep p) \<Longrightarrow> priority_of (exclusive_bit p) (Weight p) = p"
proof -
  assume "validStreamIDOrZero (StreamDep p)"
  then have v: "StreamDep p AND push_bit 31 1 = 0" by (simp add: validStreamIDOrZero_def)
  have m: "(0x7FFFFFFF :: u32) = mask 31" by (simp add: mask_eq_exp_minus_1)
  have "(StreamDep p OR push_bit 31 1) AND 0x7FFFFFFF = StreamDep p AND 0x7FFFFFFF"
    unfolding m by (rule bit_word_eqI) (simp only: bit_and_iff bit_or_iff top_bit bit_mask_iff, auto)
  then have d: "(StreamDep p OR push_bit 31 1) AND 0x7FFFFFFF = StreamDep p" using low31 [OF v] by simp
  have "\<not> bit (StreamDep p) 31" using v by (metis bit_0_eq bit_and_iff bot_apply bot_bool_def top_bit)
  then have "StreamDep p OR push_bit 31 1 \<noteq> StreamDep p" by (metis bit_or_iff top_bit)
  then show ?thesis using d low31 [OF v] by (cases p) (auto simp: priority_of_def exclusive_bit_def)
qed

text \<open>The settings of a frame, read from its payload.\<close>

lemma settings_bytes_simps [simp]:
  "settings_bytes [] = []" "settings_bytes (s # ss) = wire16 (ID s) @ wire32 (Val s) @ settings_bytes ss" "length (settings_bytes ss) = 6 * length ss"
proof -
  show "length (settings_bytes ss) = 6 * length ss" by (induction ss) (simp_all add: settings_bytes_def)
qed (simp_all add: settings_bytes_def)

lemma Setting_at_shift: "length a = 6 \<Longrightarrow> Setting_at (a @ p) (Suc j) = Setting_at p j"
  by (simp add: Setting_at_def go_slice_def)

lemma Setting_at_wire: "i < length ss \<Longrightarrow> Setting_at (settings_bytes ss) i = Return (ss ! i)"
proof (induction ss arbitrary: i)
  case (Cons s ss)
  show ?case
  proof (cases i)
    case 0
    then show ?thesis by (simp add: Setting_at_def)
  next
    case (Suc j)
    then show ?thesis using Cons by (simp add: Setting_at_shift [of "wire16 (ID s) @ wire32 (Val s)", simplified])
  qed
qed simp

lemma value_loop_find:
  "value_loop (settings_bytes ss) sid [k..<length ss] = Return (map_option Val (find (\<lambda>s. ID s = sid) (drop k ss)))"
proof (induction "length ss - k" arbitrary: k)
  case (Suc n)
  then have "k < length ss" by simp
  then have "[k..<length ss] = k # [Suc k..<length ss]" "drop k ss = ss ! k # drop (Suc k) ss"
    by (simp_all add: upt_conv_Cons Cons_nth_drop_Suc)
  then show ?case using Suc(1) [of "Suc k"] Suc(2) \<open>k < length ss\<close> by (simp add: Setting_at_wire)
qed simp

lemma Settings_Value_wire:
  "fh_valid fh \<Longrightarrow> Settings_Value fh (settings_bytes ss) sid = Return (map_option Val (find (\<lambda>s. ID s = sid) ss))"
  using value_loop_find [of ss sid 0] by (simp add: Settings_Value_def checkValid_def NumSettings_def)

text \<open>The frame a reader gets for a call, and the calls whose frames it accepts.\<close>

abbreviation call_header :: "write_call \<Rightarrow> FrameHeader" where
  "call_header c \<equiv> sent_header (call_type c) (call_flags c) (length (call_payload c)) (call_stream c)"

fun sent_frame :: "write_call \<Rightarrow> Frame" where
  "sent_frame (CallData sid e data pad) = DataFrame (call_header (CallData sid e data pad)) data"
| "sent_frame (CallHeaders p) = HeadersFrame (call_header (CallHeaders p)) (hp_Priority p) (hp_BlockFragment p)"
| "sent_frame (CallPriority sid p) = PriorityFrame (call_header (CallPriority sid p)) p"
| "sent_frame (CallRSTStream sid code) = RSTStreamFrame (call_header (CallRSTStream sid code)) code"
| "sent_frame (CallSettings ss) = SettingsFrame (call_header (CallSettings ss)) (settings_bytes ss)"
| "sent_frame CallSettingsAck = SettingsFrame (call_header CallSettingsAck) []"
| "sent_frame (CallPushPromise p) = PushPromiseFrame (call_header (CallPushPromise p)) (pp_PromiseID p) (pp_BlockFragment p)"
| "sent_frame (CallPing ack data) = PingFrame (call_header (CallPing ack data)) data"
| "sent_frame (CallGoAway sid code debug) = GoAwayFrame (call_header (CallGoAway sid code debug)) (sid AND 0x7FFFFFFF) code debug"
| "sent_frame (CallWindowUpdate sid incr) = WindowUpdateFrame (call_header (CallWindowUpdate sid incr)) incr"
| "sent_frame (CallContinuation sid e frag) = ContinuationFrame (call_header (CallContinuation sid e frag)) frag"
| "sent_frame (CallRaw t flags sid payload) = UnknownFrame (call_header (CallRaw t flags sid payload)) payload"

fun readable_call :: "write_call \<Rightarrow> bool" where
  "readable_call (CallSettings ss) = (\<forall>s. find (\<lambda>s. ID s = SettingInitialWindowSize) ss = Some s \<longrightarrow> Val s \<le> 0x7FFFFFFF)"
| "readable_call (CallPing _ data) = (length data = 8)"
| "readable_call (CallRaw t _ _ _) = (9 < t)"
| "readable_call _ = True"

lemma sent_frame_header [simp]: "Frame_Header (sent_frame c) = call_header c"
  by (cases c) simp_all

lemma readUint32_wire [simp]: "readUint32 (wire32 v @ p) = Return (p, v)"
  by (simp add: readUint32_def)

lemma parse_priority:
  assumes "Flags_Has flags FlagPriority \<longleftrightarrow> \<not> PriorityParam_IsZero p" "PriorityParam_IsZero p \<or> validStreamIDOrZero (StreamDep p)"
  shows "headers_priority flags (priority_field p @ q) = Return (q, p)"
  using assms priority_round_trip [of p]
  by (auto simp: headers_priority_def priority_field_def priority_bytes_def readByte_def PriorityParam_IsZero_def)

lemma parse_call:
  assumes "legal_call c" "readable_call c"
  shows "typeFrameParser (call_type c) (call_header c) (call_payload c) = Return (sent_frame c)"
proof (cases c)
  case (CallData sid e data pad)
  then have "sid AND 0x7FFFFFFF \<noteq> 0" using assms valid_stream [of sid] by simp
  then show ?thesis using CallData assms
    by (cases pad) (auto simp: typeFrameParser_def parseDataFrame_def readByte_def unat_of_nat)
next
  case (CallHeaders p)
  let ?q = "hp_BlockFragment p @ replicate (unat (hp_PadLength p)) 0"
  have "hp_StreamID p AND 0x7FFFFFFF \<noteq> 0" using CallHeaders assms valid_stream [of "hp_StreamID p"] by simp
  moreover have "headers_priority (call_flags c) (priority_field (hp_Priority p) @ ?q) = Return (?q, hp_Priority p)"
    by (rule parse_priority) (use CallHeaders assms in auto)
  ultimately show ?thesis using CallHeaders
    by (cases "hp_PadLength p = 0") (simp_all add: typeFrameParser_def parseHeadersFrame_def readByte_def del: bind_outcome_Return_iff)
next
  case (CallPushPromise p)
  then have "pp_StreamID p AND 0x7FFFFFFF \<noteq> 0" "pp_PromiseID p AND 0x7FFFFFFF = pp_PromiseID p"
    using assms valid_stream [of "pp_StreamID p"] valid_stream [of "pp_PromiseID p"] by simp_all
  then show ?thesis using CallPushPromise
    by (cases "pp_PadLength p = 0") (simp_all add: typeFrameParser_def parsePushPromise_def readByte_def)
next
  case (CallPriority sid p)
  then have "sid AND 0x7FFFFFFF \<noteq> 0" "priority_of (exclusive_bit p) (Weight p) = p"
    using assms valid_stream [of sid] priority_round_trip [of p] by simp_all
  then show ?thesis using CallPriority
    by (simp add: typeFrameParser_def parsePriorityFrame_def priority_bytes_def nth_append)
next
  case (CallSettings ss)
  show ?thesis
  proof (cases "find (\<lambda>s. ID s = SettingInitialWindowSize) ss")
    case None
    then show ?thesis using CallSettings by (simp add: typeFrameParser_def parseSettingsFrame_def Settings_Value_wire)
  next
    case (Some s)
    then have "\<not> Val s > 0x7FFFFFFF" using CallSettings assms(2) by (simp add: linorder_not_less)
    then show ?thesis using CallSettings Some by (simp add: typeFrameParser_def parseSettingsFrame_def Settings_Value_wire)
  qed
next
  case (CallWindowUpdate sid incr)
  then have u: "incr \<noteq> 0" "unat incr < 2 ^ 31" using assms(1) by (auto simp: word_le_nat_alt)
  have "take_bit 31 incr = incr" using u(2)
    by (metis take_bit_nat_eq_self unat_eqD unsigned_take_bit_eq)
  then have "incr AND 0x7FFFFFFF = incr" by (simp add: take_bit_eq_mask mask_eq_exp_minus_1)
  then show ?thesis using CallWindowUpdate u(1) by (simp add: typeFrameParser_def parseWindowUpdateFrame_def Let_def)
next
  case (CallRaw t flags sid payload)
  then have "t \<noteq> 0 \<and> t \<noteq> 1 \<and> t \<noteq> 2 \<and> t \<noteq> 3 \<and> t \<noteq> 4 \<and> t \<noteq> 5 \<and> t \<noteq> 6 \<and> t \<noteq> 7 \<and> t \<noteq> 8 \<and> t \<noteq> 9"
    using assms(2) by auto
  then show ?thesis using CallRaw by (simp add: typeFrameParser_def parseUnknownFrame_def)
next
  case (CallRSTStream sid code)
  then show ?thesis using assms valid_stream [of sid] by (simp add: typeFrameParser_def parseRSTStreamFrame_def)
next
  case (CallContinuation sid e frag)
  then show ?thesis using assms valid_stream [of sid] by (simp add: typeFrameParser_def parseContinuationFrame_def)
next
  case (CallGoAway sid code debug)
  then show ?thesis by (simp add: typeFrameParser_def parseGoAwayFrame_def and.assoc)
next
  case CallSettingsAck
  then show ?thesis by (simp add: typeFrameParser_def parseSettingsFrame_def Settings_Value_def checkValid_def NumSettings_def)
next
  case (CallPing ack data)
  then show ?thesis using assms(2) by (simp add: typeFrameParser_def parsePingFrame_def)
qed

section \<open>The order of frames\<close>

text \<open>Header blocks are contiguous: \<open>follows s f\<close> is the stream of the unfinished header block after frame \<open>f\<close>, where \<open>s\<close> is the one
  before it and 0 stands for none; \<open>None\<close> if \<open>f\<close> must not come next.\<close>

definition block_stream :: "Frame \<Rightarrow> u32" where
  "block_stream f = (if HeadersEnded f then 0 else fh_StreamID (Frame_Header f))"

definition follows :: "u32 \<Rightarrow> Frame \<Rightarrow> u32 option" where
  "follows s f =
     (case f of
        ContinuationFrame h _ \<Rightarrow> if s \<noteq> 0 \<and> fh_StreamID h = s then Some (block_stream f) else None
      | HeadersFrame h _ _ \<Rightarrow> if s = 0 then Some (block_stream f) else None
      | _ \<Rightarrow> if s = 0 then Some 0 else None)"

fun contiguous :: "u32 \<Rightarrow> Frame list \<Rightarrow> u32 option" where
  "contiguous s [] = Some s"
| "contiguous s (f # fs) = (case follows s f of None \<Rightarrow> None | Some s' \<Rightarrow> contiguous s' fs)"

lemma contiguous_append: "contiguous s (fs @ gs) = (case contiguous s fs of None \<Rightarrow> None | Some s' \<Rightarrow> contiguous s' gs)"
  by (induction fs arbitrary: s) (simp_all split: option.splits)

text \<open>The type in the header of a frame is that of its constructor.\<close>

fun type_matches :: "Frame \<Rightarrow> bool" where
  "type_matches (DataFrame h _) = (fh_Type h = FrameData)"
| "type_matches (HeadersFrame h _ _) = (fh_Type h = FrameHeaders)"
| "type_matches (PriorityFrame h _) = (fh_Type h = FramePriority)"
| "type_matches (RSTStreamFrame h _) = (fh_Type h = FrameRSTStream)"
| "type_matches (SettingsFrame h _) = (fh_Type h = FrameSettings)"
| "type_matches (PushPromiseFrame h _ _) = (fh_Type h = FramePushPromise)"
| "type_matches (PingFrame h _) = (fh_Type h = FramePing)"
| "type_matches (GoAwayFrame h _ _ _) = (fh_Type h = FrameGoAway)"
| "type_matches (WindowUpdateFrame h _) = (fh_Type h = FrameWindowUpdate)"
| "type_matches (ContinuationFrame h _) = (fh_Type h = FrameContinuation)"
| "type_matches (UnknownFrame h _) = (9 < fh_Type h)"

definition order_inv :: "Framer \<Rightarrow> bool" where
  "order_inv fr \<longleftrightarrow> \<not> AllowIllegalReads fr \<and> (lastHeaderStream fr \<noteq> 0 \<longrightarrow> lastFrame fr \<noteq> None)"

lemma checkFrameOrder_follows:
  assumes "order_inv fr" "type_matches f"
  shows "case follows (lastHeaderStream fr) f of
      Some s \<Rightarrow> checkFrameOrder f fr = (Return (), fr\<lparr>lastFrame := Some f, lastHeaderStream := s\<rparr>)
    | None \<Rightarrow> (\<exists>d. checkFrameOrder f fr = (Fail (ConnectionError ErrCodeProtocol), fr\<lparr>lastFrame := Some f, errDetail := Some d\<rparr>))"
proof -
  have keep: "fr\<lparr>lastFrame := Some f\<rparr> = fr\<lparr>lastFrame := Some f, lastHeaderStream := 0\<rparr>" if "lastHeaderStream fr = 0"
    using that by (cases fr) simp
  show ?thesis using assms keep
    by (cases f) (auto simp: order_inv_def follows_def block_stream_def HeadersEnded_def checkFrameOrder_def framer_connError_def Let_def)
qed

fun read_n_frames :: "nat \<Rightarrow> Frame list framer" where
  "read_n_frames 0 = lift_meth (Return [])"
| "read_n_frames (Suc n) = bind_meth read_one (\<lambda>f. bind_meth (read_n_frames n) (\<lambda>fs. lift_meth (Return (f # fs))))"

fun perform_all :: "write_call list \<Rightarrow> unit framer" where
  "perform_all [] = lift_meth (Return ())"
| "perform_all (c # cs) = bind_meth (perform c) (\<lambda>_. perform_all cs)"

definition call_bytes :: "write_call \<Rightarrow> bytes" where
  "call_bytes c = frame_bytes (call_type c) (call_flags c) (call_stream c) (call_payload c)"

lemma type_matches_sent: "readable_call c \<Longrightarrow> type_matches (sent_frame c)"
  by (cases c) simp_all

lemma read_call:
  assumes "legal_call c" "readable_call c" "length (call_payload c) < 2 ^ 24" "of_nat (length (call_payload c)) \<le> maxReadSize fr"
    "fr_input fr = call_bytes c @ rest" "order_inv fr"
  shows "case follows (lastHeaderStream fr) (sent_frame c) of
      Some s \<Rightarrow> read_one fr = (Return (sent_frame c), fr\<lparr>errDetail := None, lastFrame := Some (sent_frame c), fr_input := rest, lastHeaderStream := s\<rparr>)
    | None \<Rightarrow> fst (read_one fr) = Fail (ConnectionError ErrCodeProtocol)"
proof -
  let ?fr = "fresh_read rest fr"
  have ord: "order_inv ?fr" "lastHeaderStream ?fr = lastHeaderStream fr" using assms(6) by (simp_all add: order_inv_def fresh_read_def)
  have r: "read_one fr = bind_meth (checkFrameOrder (sent_frame c)) (\<lambda>_. lift_meth (Return (sent_frame c))) ?fr"
    using read_one_frame [OF assms(5) [unfolded call_bytes_def] assms(3,4)] parse_call [OF assms(1,2)] by (simp add: parse_payload_def)
  show ?thesis
    using checkFrameOrder_follows [OF ord(1) type_matches_sent [OF assms(2)]] ord(2) r
    by (auto simp: fresh_read_def lift_meth_def split: option.splits)
qed

lemma read_calls:
  "\<lbrakk>\<forall>c \<in> set cs. legal_call c \<and> readable_call c \<and> length (call_payload c) < 2 ^ 24 \<and> of_nat (length (call_payload c)) \<le> maxReadSize fr;
    fr_input fr = concat (map call_bytes cs) @ rest; order_inv fr; contiguous (lastHeaderStream fr) (map sent_frame cs) = Some s\<rbrakk> \<Longrightarrow>
   \<exists>fr'. read_n_frames (length cs) fr = (Return (map sent_frame cs), fr') \<and> fr_input fr' = rest \<and> lastHeaderStream fr' = s"
proof (induction cs arbitrary: fr)
  case (Cons c cs)
  from Cons.prems(4) obtain s1 where s1: "follows (lastHeaderStream fr) (sent_frame c) = Some s1" "contiguous s1 (map sent_frame cs) = Some s"
    by (auto split: option.splits)
  let ?fr = "fr\<lparr>errDetail := None, lastFrame := Some (sent_frame c), fr_input := concat (map call_bytes cs) @ rest, lastHeaderStream := s1\<rparr>"
  have r: "read_one fr = (Return (sent_frame c), ?fr)"
    using read_call [of c fr "concat (map call_bytes cs) @ rest"] Cons.prems(1-3) s1(1) by simp
  have "\<exists>fr'. read_n_frames (length cs) ?fr = (Return (map sent_frame cs), fr') \<and> fr_input fr' = rest \<and> lastHeaderStream fr' = s"
    by (rule Cons.IH) (use Cons.prems s1(2) in \<open>auto simp: order_inv_def\<close>)
  then show ?case using r by (auto simp: lift_meth_def)
qed (simp add: lift_meth_def)

lemma perform_all_sends:
  "\<lbrakk>perform_all cs fr = (Return (), fr'); \<not> AllowIllegalWrites fr\<rbrakk> \<Longrightarrow>
     (\<forall>c \<in> set cs. legal_call c \<and> length (call_payload c) < 2 ^ 24) \<and> written fr' = written fr @ map call_bytes cs"
proof (induction cs arbitrary: fr)
  case (Cons c cs)
  then obtain fr1 where 1: "perform c fr = (Return (), fr1)" "perform_all cs fr1 = (Return (), fr')"
    by (auto simp: bind_meth_Return_iff)
  note s = perform_sends [OF 1(1) Cons.prems(2)]
  then have "\<not> AllowIllegalWrites fr1" using Cons.prems(2) by (metis same_framer_def Framer.select_convs(10) Framer.surjective Framer.update_convs(8) Framer.update_convs(9))
  from Cons.IH [OF 1(2) this] show ?case using s by (simp add: call_bytes_def)
qed (simp add: lift_meth_def)

section \<open>What a reader accepts\<close>

text \<open>The constraints a frame a reader returns satisfies; \<open>limit\<close> is the largest payload it allows.\<close>

fun body_ok :: "Frame \<Rightarrow> bool" where
  "body_ok (DataFrame h d) = (fh_StreamID h \<noteq> 0 \<and> length d \<le> unat (fh_Length h))"
| "body_ok (HeadersFrame h p b) = (fh_StreamID h \<noteq> 0 \<and> validStreamIDOrZero (StreamDep p) \<and> length b \<le> unat (fh_Length h))"
| "body_ok (PriorityFrame h p) = (fh_StreamID h \<noteq> 0 \<and> validStreamIDOrZero (StreamDep p))"
| "body_ok (RSTStreamFrame h _) = (fh_StreamID h \<noteq> 0)"
| "body_ok (SettingsFrame h p) =
     (fh_StreamID h = 0 \<and> 6 dvd length p \<and> length p = unat (fh_Length h) \<and> (Flags_Has (fh_Flags h) FlagAck \<longrightarrow> p = []))"
| "body_ok (PushPromiseFrame h i b) = (fh_StreamID h \<noteq> 0 \<and> validStreamIDOrZero i \<and> length b \<le> unat (fh_Length h))"
| "body_ok (PingFrame h d) = (fh_StreamID h = 0 \<and> length d = 8)"
| "body_ok (GoAwayFrame h i _ d) = (fh_StreamID h = 0 \<and> validStreamIDOrZero i \<and> length d + 8 = unat (fh_Length h))"
| "body_ok (WindowUpdateFrame h i) = (i \<noteq> 0 \<and> validStreamIDOrZero i)"
| "body_ok (ContinuationFrame h b) = (fh_StreamID h \<noteq> 0 \<and> length b = unat (fh_Length h))"
| "body_ok (UnknownFrame h p) = (length p = unat (fh_Length h))"

definition frame_ok :: "u32 \<Rightarrow> Frame \<Rightarrow> bool" where
  "frame_ok limit f \<longleftrightarrow> type_matches f \<and> body_ok f \<and> fh_valid (Frame_Header f) \<and> fh_Length (Frame_Header f) \<le> limit \<and>
     validStreamIDOrZero (fh_StreamID (Frame_Header f))"

lemma validStreamIDOrZero_low [simp]: "validStreamIDOrZero (v AND 0x7FFFFFFF)"
proof -
  have "(v AND 0x7FFFFFFF) AND push_bit 31 1 = v AND (0x7FFFFFFF AND 0x80000000)" by (simp add: and.assoc)
  then show ?thesis by (simp add: validStreamIDOrZero_def)
qed

lemma StreamDep_priority_of [simp]: "validStreamIDOrZero (StreamDep (priority_of v w))"
  by (simp add: priority_of_def)

lemma readByte_shorter: "readByte p = Return (q, b) \<Longrightarrow> length p = Suc (length q)"
  by (auto simp: readByte_def split: list.splits)

lemma readUint32_shorter: "readUint32 p = Return (q, v) \<Longrightarrow> length q \<le> length p"
  by (auto simp: readUint32_def split: if_splits)

lemma read_no_panic [simp]: "readByte p \<noteq> Panic" "readUint32 p \<noteq> Panic"
  by (auto simp: readByte_def readUint32_def BigEndian_Uint32_Return split: list.splits)

lemma Setting_at_Return: "i < NumSettings p \<Longrightarrow> \<exists>s. Setting_at p i = Return s"
  by (auto simp: Setting_at_def NumSettings_def go_slice_def BigEndian_Uint16_Return BigEndian_Uint32_Return)

lemma value_loop_Return: "\<forall>i \<in> set is. i < NumSettings p \<Longrightarrow> \<exists>v. value_loop p sid is = (Return v :: ('e, u32 option) outcome)"
proof (induction "is")
  case (Cons i "is")
  then obtain s v where "Setting_at p i = (Return s :: ('e, Setting) outcome)" "value_loop p sid is = (Return v :: ('e, u32 option) outcome)"
    using Setting_at_Return [of i p] by auto
  then show ?case by simp
qed simp

lemma Settings_Value_Return: "fh_valid fh \<Longrightarrow> \<exists>v. Settings_Value fh p sid = Return v"
  using value_loop_Return [of "[0..<NumSettings p]" p sid] by (simp add: Settings_Value_def checkValid_def)

text \<open>A parser never panics on a payload of the announced length, and the frames it returns are well-formed.\<close>

definition parsed_ok :: "FrameHeader \<Rightarrow> (parse_error, Frame) outcome \<Rightarrow> bool" where
  "parsed_ok fh r \<longleftrightarrow> r \<noteq> Panic \<and> (\<forall>f. r = Return f \<longrightarrow> body_ok f \<and> Frame_Header f = fh \<and> type_matches f)"

lemma headers_priority_ok:
  "headers_priority flags p \<noteq> Panic"
  "headers_priority flags p = Return (q, pr) \<Longrightarrow> length q \<le> length p \<and> validStreamIDOrZero (StreamDep pr)"
  by (auto simp: headers_priority_def validStreamIDOrZero_def [of 0] split: if_splits dest!: readByte_shorter readUint32_shorter)

lemma pad_field_ok:
  "(if c then counting token (readByte p) else Return (p, 0)) \<noteq> Panic"
  "(if c then counting token (readByte p) else Return (p, 0)) = Return (q, n) \<Longrightarrow> length q \<le> length p"
  by (auto split: if_splits dest!: readByte_shorter)

lemma parse_padded_ok:
  assumes "length p = unat (fh_Length fh)"
  shows "fh_Type fh = FrameData \<Longrightarrow> parsed_ok fh (parseDataFrame fh p)" "fh_Type fh = FrameHeaders \<Longrightarrow> parsed_ok fh (parseHeadersFrame fh p)"
    "fh_Type fh = FramePushPromise \<Longrightarrow> parsed_ok fh (parsePushPromise fh p)"
  using assms
  by (auto simp: parsed_ok_def parseDataFrame_def parseHeadersFrame_def parsePushPromise_def headers_priority_ok(1)
      split: if_splits dest!: readByte_shorter readUint32_shorter headers_priority_ok(2))

lemma parse_fixed_ok:
  assumes "length p = unat (fh_Length fh)" "fh_valid fh"
  shows "fh_Type fh = FramePriority \<Longrightarrow> parsed_ok fh (parsePriorityFrame fh p)" "fh_Type fh = FrameRSTStream \<Longrightarrow> parsed_ok fh (parseRSTStreamFrame fh p)"
    "fh_Type fh = FramePing \<Longrightarrow> parsed_ok fh (parsePingFrame fh p)" "fh_Type fh = FrameGoAway \<Longrightarrow> parsed_ok fh (parseGoAwayFrame fh p)"
    "fh_Type fh = FrameWindowUpdate \<Longrightarrow> parsed_ok fh (parseWindowUpdateFrame fh p)"
    "fh_Type fh = FrameContinuation \<Longrightarrow> parsed_ok fh (parseContinuationFrame fh p)" "9 < fh_Type fh \<Longrightarrow> parsed_ok fh (parseUnknownFrame fh p)"
  using assms
  by (auto simp: parsed_ok_def parsePriorityFrame_def parseRSTStreamFrame_def parsePingFrame_def parseGoAwayFrame_def Let_def
      parseWindowUpdateFrame_def parseContinuationFrame_def parseUnknownFrame_def go_slice_def split: if_splits)

lemma parse_settings_ok:
  assumes "length p = unat (fh_Length fh)" "fh_valid fh" "fh_Type fh = FrameSettings"
  shows "parsed_ok fh (parseSettingsFrame fh p)"
proof -
  obtain v where v: "Settings_Value fh p SettingInitialWindowSize = (Return v :: (parse_error, u32 option) outcome)"
    using Settings_Value_Return [OF assms(2)] by blast
  show ?thesis using assms v
    by (auto simp: parsed_ok_def parseSettingsFrame_def word_gt_0 split: if_splits option.splits)
qed

lemma known_types: "t \<le> 9 \<Longrightarrow> t = 0 \<or> t = 1 \<or> t = 2 \<or> t = 3 \<or> t = 4 \<or> t = 5 \<or> t = 6 \<or> t = 7 \<or> t = 8 \<or> t = (9 :: u8)"
  by (simp add: word_le_nat_alt word_unat_eq_iff) arith

lemma parsers_ok:
  assumes "length p = unat (fh_Length fh)" "fh_valid fh"
  shows "parsed_ok fh (typeFrameParser (fh_Type fh) fh p)"
proof (cases "9 < fh_Type fh")
  case True
  then have "fh_Type fh \<noteq> t" if "t \<in> {0, 1, 2, 3, 4, 5, 6, 7, 8, 9}" for t using that by auto
  then have "typeFrameParser (fh_Type fh) = parseUnknownFrame" by (simp add: typeFrameParser_def)
  then show ?thesis using parse_fixed_ok(7) [OF assms True] by simp
next
  case False
  then consider "fh_Type fh = 0" | "fh_Type fh = 1" | "fh_Type fh = 2" | "fh_Type fh = 3" | "fh_Type fh = 4" | "fh_Type fh = 5" | "fh_Type fh = 6"
    | "fh_Type fh = 7" | "fh_Type fh = 8" | "fh_Type fh = 9" using known_types [of "fh_Type fh"] by (simp only: linorder_not_less) blast
  then show ?thesis
    using parse_padded_ok [OF assms(1)] parse_fixed_ok [OF assms] parse_settings_ok [OF assms] by cases (simp_all add: typeFrameParser_def)
qed

lemma ReadFull_cases:
  obtains (full) "ReadFull n fr = (Return (take n (fr_input fr)), fr\<lparr>fr_input := drop n (fr_input fr)\<rparr>)" "n \<le> length (fr_input fr)"
  | (short) e where "ReadFull n fr = (Fail e, fr\<lparr>fr_input := []\<rparr>)"
  by (cases "n \<le> length (fr_input fr)") (auto simp: ReadFull_def)

lemma header_of_nine:
  assumes "length buf = 9"
  shows "\<exists>h. header_of buf = Return h \<and> fh_valid h \<and> validStreamIDOrZero (fh_StreamID h)"
proof -
  obtain b0 b1 b2 b3 b4 b5 b6 b7 b8 where "buf = [b0, b1, b2, b3, b4, b5, b6, b7, b8]"
    using assms by (auto simp: length_Suc_conv eval_nat_numeral)
  then show ?thesis by (simp add: header_of_def del: and_numerals)
qed

text \<open>What a read leaves: the order invariant, and after a failure the stream of the unfinished block.\<close>

definition read_ok :: "Framer \<Rightarrow> (h2_error, Frame) outcome \<times> Framer \<Rightarrow> bool" where
  "read_ok fr res =
     (case res of (r, fr') \<Rightarrow>
        order_inv fr' \<and> maxReadSize fr' = maxReadSize fr \<and>
        (case r of
           Return f \<Rightarrow> frame_ok (maxReadSize fr) f \<and> follows (lastHeaderStream fr) f = Some (lastHeaderStream fr')
         | Fail _ \<Rightarrow> lastHeaderStream fr' = lastHeaderStream fr
         | Panic \<Rightarrow> False))"

lemma read_ok_same: "maxReadSize fr = maxReadSize fr0 \<Longrightarrow> lastHeaderStream fr = lastHeaderStream fr0 \<Longrightarrow> read_ok fr res = read_ok fr0 res"
  by (simp add: read_ok_def cong: outcome.case_cong prod.case_cong)

lemma parse_payload_ok:
  assumes "order_inv fr" "length p = unat (fh_Length fh)" "fh_valid fh" "fh_Length fh \<le> maxReadSize fr" "validStreamIDOrZero (fh_StreamID fh)"
  shows "read_ok fr (parse_payload fh p fr)"
proof -
  note parsed = parsers_ok [OF assms(2,3)]
  show ?thesis
  proof (cases "typeFrameParser (fh_Type fh) fh p")
    case (Return f)
    then have f: "body_ok f" "Frame_Header f = fh" "type_matches f" using parsed by (simp_all add: parsed_ok_def)
    then have ok: "frame_ok (maxReadSize fr) f" using assms by (simp add: frame_ok_def)
    show ?thesis using checkFrameOrder_follows [OF assms(1) f(3)] Return ok assms(1)
      by (auto simp: parse_payload_def read_ok_def order_inv_def lift_meth_def split: option.splits)
  next
    case (Fail e)
    then show ?thesis using assms(1)
      by (cases e; cases "snd e") (auto simp: parse_payload_def read_ok_def order_inv_def framer_connError_def)
  next
    case Panic
    then show ?thesis using parsed by (simp add: parsed_ok_def)
  qed
qed

lemma read_one_ok: "order_inv fr \<Longrightarrow> read_ok fr (read_one fr)"
proof -
  assume inv: "order_inv fr"
  let ?f0 = "fr\<lparr>errDetail := None, lastFrame := map_option invalidate (lastFrame fr)\<rparr>"
  have same: "order_inv (?f0\<lparr>fr_input := i\<rparr>)" for i using inv by (simp add: order_inv_def)
  show ?thesis
  proof (cases rule: ReadFull_cases [of 9 ?f0])
    case full
    then obtain h where h: "header_of (take 9 (fr_input fr)) = Return h" "fh_valid h" "validStreamIDOrZero (fh_StreamID h)"
      using header_of_nine [of "take 9 (fr_input fr)"] by auto
    let ?f1 = "?f0\<lparr>fr_input := drop 9 (fr_input fr)\<rparr>"
    let ?n = "unat (fh_Length h)"
    have r: "read_one fr = (if fh_Length h > maxReadSize fr then (Fail ErrFrameTooLarge, ?f1) else bind_meth (ReadFull ?n) (parse_payload h) ?f1)"
      using full(1) h(1) by (simp add: read_one_def readFrameHeader_def lift_meth_def)
    show ?thesis
    proof (cases "fh_Length h > maxReadSize fr")
      case True
      then show ?thesis using r same by (simp add: read_ok_def)
    next
      case False
      show ?thesis
      proof (cases rule: ReadFull_cases [of ?n ?f1])
        case full
        let ?f2 = "?f0\<lparr>fr_input := drop ?n (fr_input ?f1)\<rparr>"
        have "read_one fr = parse_payload h (take ?n (fr_input ?f1)) ?f2" using r False full(1) by simp
        moreover have "read_ok ?f2 (parse_payload h (take ?n (fr_input ?f1)) ?f2)"
          by (rule parse_payload_ok) (use same h False full(2) in auto)
        ultimately show ?thesis using read_ok_same [of ?f2 fr] by simp
      next
        case (short e)
        then show ?thesis using r False same by (simp add: read_ok_def)
      qed
    qed
  next
    case (short e)
    then show ?thesis using same by (simp add: read_one_def readFrameHeader_def read_ok_def)
  qed
qed

text \<open>A reader at work: the frames it returns, whatever errors occur in between.\<close>

inductive reads :: "Framer \<Rightarrow> Frame list \<Rightarrow> Framer \<Rightarrow> bool" where
  reads_none: "reads r [] r"
| reads_frame: "\<lbrakk>reads r fs r1; read_one r1 = (Return f, r2)\<rbrakk> \<Longrightarrow> reads r (fs @ [f]) r2"
| reads_error: "\<lbrakk>reads r fs r1; read_one r1 = (Fail e, r2)\<rbrakk> \<Longrightarrow> reads r fs r2"

lemma reads_ok:
  "\<lbrakk>reads r fs r'; order_inv r\<rbrakk> \<Longrightarrow>
    order_inv r' \<and> maxReadSize r' = maxReadSize r \<and> list_all (frame_ok (maxReadSize r)) fs \<and> contiguous (lastHeaderStream r) fs = Some (lastHeaderStream r')"
proof (induction rule: reads.induct)
  case (reads_frame r fs r1 f r2)
  then show ?case using read_one_ok [of r1] by (auto simp: read_ok_def contiguous_append)
next
  case (reads_error r fs r1 e r2)
  then show ?case using read_one_ok [of r1] by (auto simp: read_ok_def)
qed simp

lemma order_inv_NewFramer [simp]: "order_inv (NewFramer w input)"
  by (simp add: order_inv_def NewFramer_def SetMaxReadFrameSize_def)

lemma read_one_not_Panic: "order_inv fr \<Longrightarrow> fst (read_one fr) \<noteq> Panic"
  using read_one_ok [of fr] by (auto simp: read_ok_def split: prod.splits)

lemma reads_append: "reads r1 gs r2 \<Longrightarrow> reads r fs r1 \<Longrightarrow> reads r (fs @ gs) r2"
proof (induction rule: reads.induct)
  case (reads_frame r1 gs r2 f r3)
  then show ?case using reads.reads_frame [of r "fs @ gs" r2 f r3] by simp
qed (auto intro: reads.intros)

lemma read_n_frames_reads: "read_n_frames n r = (Return fs, r') \<Longrightarrow> reads r fs r'"
proof (induction n arbitrary: r fs)
  case 0
  then show ?case by (simp add: lift_meth_def reads_none)
next
  case (Suc n)
  then obtain f r1 gs where "read_one r = (Return f, r1)" "read_n_frames n r1 = (Return gs, r')" "fs = f # gs"
    by (auto simp: bind_meth_Return_iff lift_meth_def)
  then show ?case using Suc.IH reads_append [of r1 gs r' r "[f]"] reads_frame [OF reads_none, of r f r1] by simp
qed

lemma perform_all_succeeds:
  "\<lbrakk>\<forall>c \<in> set cs. legal_call c \<and> length (call_payload c) < 2 ^ 24; \<not> AllowIllegalWrites fr; \<And>b. fr_w fr b = (length b, None)\<rbrakk> \<Longrightarrow>
     \<exists>fr'. perform_all cs fr = (Return (), fr')"
proof (induction cs arbitrary: fr)
  case (Cons c cs)
  then have c: "legal_call c" "length (call_payload c) < 2 ^ 24" by simp_all
  from perform_legal [OF c(1), of fr] obtain fr0 where fr0: "building fr fr0"
    "wbuf fr0 = [0, 0, 0, call_type c, call_flags c] @ wire32 (call_stream c) @ call_payload c" "perform c fr = endWrite fr0" by blast
  from endWrite_writes [OF fr0(1,2) c(2) Cons.prems(3)] obtain fr1 where fr1: "perform c fr = (Return (), fr1)" using fr0(3) by auto
  then have "same_framer fr fr1" using perform_sends Cons.prems(2) by blast
  then have "fr = fr1\<lparr>wbuf := wbuf fr, written := written fr\<rparr>" by (simp add: same_framer_def)
  then have "\<not> AllowIllegalWrites fr1" "\<And>b. fr_w fr1 b = (length b, None)" using Cons.prems(2,3)
    by (metis Framer.select_convs(10) Framer.surjective Framer.update_convs(8,9), metis Framer.select_convs(7) Framer.surjective Framer.update_convs(8,9))
  then show ?case using Cons.IH [of fr1] Cons.prems(1) fr1 by auto
qed (simp add: lift_meth_def)

definition sample_calls :: "write_call list" where
  "sample_calls =
     [CallSettings [\<lparr>ID = SettingInitialWindowSize, Val = 65535\<rparr>],
      CallHeaders \<lparr>hp_StreamID = 1, hp_BlockFragment = [0x82], hp_EndStream = False, hp_EndHeaders = False, hp_PadLength = 2,
        hp_Priority = \<lparr>StreamDep = 3, Exclusive = True, Weight = 15\<rparr>\<rparr>,
      CallContinuation 1 True [0x84], CallData 1 True [104, 105] (Some [0, 0]), CallWindowUpdate 0 1000, CallPing False [1, 2, 3, 4, 5, 6, 7, 8]]"

lemma sample_calls_ok:
  "\<forall>c \<in> set sample_calls. legal_call c \<and> readable_call c \<and> length (call_payload c) < 2 ^ 24 \<and> of_nat (length (call_payload c)) \<le> (0xFFFFFF :: u32)"
  by (simp add: sample_calls_def validStreamID_def validStreamIDOrZero_def priority_field_def priority_bytes_def PriorityParam_IsZero_def)

lemma sample_calls_contiguous: "contiguous 0 (map sent_frame sample_calls) = Some 0"
  by (simp add: sample_calls_def follows_def block_stream_def HeadersEnded_def)

text \<open>The two ways of looking for duplicate settings agree.\<close>

lemma later_same_wire:
  "\<forall>i \<in> set is. i < length ss \<Longrightarrow> later_same (settings_bytes ss) sid is = Return (sid \<in> set (map (\<lambda>i. ID (ss ! i)) is))"
  by (induction "is") (auto simp: Setting_at_wire)

lemma pairs_loop_wire:
  "\<forall>i \<in> set is. i < length ss \<Longrightarrow> pairs_loop (settings_bytes ss) is = Return (\<not> distinct (map (\<lambda>i. ID (ss ! i)) is))"
  by (induction "is") (auto simp: Setting_at_wire later_same_wire)

lemma seen_loop_wire:
  "\<forall>i \<in> set is. i < length ss \<Longrightarrow>
    seen_loop (settings_bytes ss) seen is = Return (\<not> (distinct (map (\<lambda>i. ID (ss ! i)) is) \<and> seen \<inter> set (map (\<lambda>i. ID (ss ! i)) is) = {}))"
  by (induction "is" arbitrary: seen) (auto simp: Setting_at_wire)

lemma HasDuplicates_wire: "HasDuplicates (settings_bytes ss) = Return (\<not> distinct (map ID ss))"
proof -
  have "map (\<lambda>i. ID (ss ! i)) [0..<length ss] = map ID ss" by (rule nth_equalityI) simp_all
  then show ?thesis by (auto simp: HasDuplicates_def NumSettings_def Let_def pairs_loop_wire seen_loop_wire)
qed
section \<open>Properties\<close>

text \<open>C16: A framer reads back the frames another one wrote: after a sequence of successful calls of the \<open>Write\<close> methods with the
  checks on, the reader returns exactly the frames of the calls, with their data, fragments, padding removed, priorities, settings and
  codes, and is left with the bytes that follow.  This holds if the header blocks are written contiguously, no payload exceeds the size the reader
  allows, each \<open>PING\<close> has eight bytes, the first initial window size of each \<open>SETTINGS\<close> is at most \<open>2 ^ 31 - 1\<close> and no
  raw frame has a known type.\<close>

theorem frames_round_trip:
  assumes "perform_all cs w = (Return (), w')" "\<not> AllowIllegalWrites w" "written w = []" "\<forall>c \<in> set cs. readable_call c"
    "order_inv r" "fr_input r = concat (written w') @ rest" "contiguous (lastHeaderStream r) (map sent_frame cs) = Some s"
    "\<forall>c \<in> set cs. of_nat (length (call_payload c)) \<le> maxReadSize r"
  shows "\<exists>r'. read_n_frames (length cs) r = (Return (map sent_frame cs), r') \<and> fr_input r' = rest \<and> lastHeaderStream r' = s"
  using perform_all_sends [OF assms(1,2)] assms(3-8) by (intro read_calls) auto

theorem frames_round_trip_witness:
  "\<exists>w' r'. perform_all sample_calls (NewFramer (\<lambda>b. (length b, None)) []) = (Return (), w') \<and>
     read_n_frames 6 (NewFramer (\<lambda>b. (length b, None)) (concat (written w') @ [7])) = (Return (map sent_frame sample_calls), r') \<and> fr_input r' = [7]"
proof -
  let ?w = "NewFramer (\<lambda>b. (length b, None)) []"
  have w: "\<not> AllowIllegalWrites ?w" "\<And>b. fr_w ?w b = (length b, None)" "written ?w = []" by (simp_all add: NewFramer_def SetMaxReadFrameSize_def)
  obtain w' where w': "perform_all sample_calls ?w = (Return (), w')"
    using perform_all_succeeds [OF _ w(1,2), of sample_calls] sample_calls_ok by blast
  let ?r = "NewFramer (\<lambda>b. (length b, None)) (concat (written w') @ [7])"
  have r: "fr_input ?r = concat (written w') @ [7]" "lastHeaderStream ?r = 0" "maxReadSize ?r = 0xFFFFFF" by (simp_all add: NewFramer_def SetMaxReadFrameSize_def)
  have "\<exists>r'. read_n_frames (length sample_calls) ?r = (Return (map sent_frame sample_calls), r') \<and> fr_input r' = [7] \<and> lastHeaderStream r' = 0"
    by (rule frames_round_trip [OF w' w(1,3)]) (use sample_calls_ok sample_calls_contiguous r in auto)
  moreover have "length sample_calls = 6" by (simp add: sample_calls_def)
  ultimately show ?thesis using w' by auto
qed

text \<open>C17: Whatever bytes arrive, a new framer never panics, even if reads are repeated after errors; each frame it returns is
  well-formed (the stream id, length and increment rules of its type, at most \<open>2 ^ 24 - 1\<close> bytes), and the frames it returns form
  contiguous header blocks: after a \<open>HEADERS\<close> or \<open>CONTINUATION\<close> frame without \<open>END_HEADERS\<close> comes a \<open>CONTINUATION\<close> of its
  stream, and no other \<open>CONTINUATION\<close> is returned.  (A \<open>PUSH_PROMISE\<close> does not open a block here.)\<close>

theorem reader_order:
  assumes "reads (NewFramer w input) fs r"
  shows "fst (read_one r) \<noteq> Panic \<and> list_all (frame_ok 0xFFFFFF) fs \<and> contiguous 0 fs = Some (lastHeaderStream r)"
proof -
  have "maxReadSize (NewFramer w input) = 0xFFFFFF" "lastHeaderStream (NewFramer w input) = 0" by (simp_all add: NewFramer_def SetMaxReadFrameSize_def)
  then show ?thesis using reads_ok [OF assms] read_one_not_Panic [of r] by simp
qed

theorem reader_order_witness:
  "\<exists>r. reads (NewFramer (\<lambda>b. (length b, None)) (concat (map call_bytes sample_calls))) (map sent_frame sample_calls) r \<and>
     fst (read_one r) \<noteq> Panic \<and> list_all (frame_ok 0xFFFFFF) (map sent_frame sample_calls)"
proof -
  let ?r = "NewFramer (\<lambda>b. (length b, None)) (concat (map call_bytes sample_calls))"
  have "fr_input ?r = concat (map call_bytes sample_calls) @ []" "lastHeaderStream ?r = 0" "maxReadSize ?r = 0xFFFFFF"
    by (simp_all add: NewFramer_def SetMaxReadFrameSize_def)
  then obtain r where "reads ?r (map sent_frame sample_calls) r"
    using read_calls [of sample_calls ?r "[]" 0] sample_calls_ok sample_calls_contiguous by (auto dest: read_n_frames_reads)
  then show ?thesis using reader_order by blast
qed

lemma push_promise_read:
  assumes "legal_call (CallPushPromise p)" "\<not> pp_EndHeaders p" "legal_call (CallContinuation (pp_StreamID p) True frag)"
    "length (call_payload (CallPushPromise p)) < 2 ^ 24" "length frag < 2 ^ 24" "order_inv r" "lastHeaderStream r = 0" "maxReadSize r = 0xFFFFFF"
    "fr_input r = call_bytes (CallPushPromise p) @ call_bytes (CallContinuation (pp_StreamID p) True frag) @ rest"
  shows "\<exists>r'. read_one r = (Return (sent_frame (CallPushPromise p)), r') \<and> fst (read_one r') = Fail (ConnectionError ErrCodeProtocol)"
proof -
  have fits: "of_nat n \<le> (0xFFFFFF :: u32)" if "n < 2 ^ 24" for n using that by (simp add: word_le_nat_alt unat_of_nat)
  let ?f = "sent_frame (CallPushPromise p)"
  let ?r = "r\<lparr>errDetail := None, lastFrame := Some ?f, fr_input := call_bytes (CallContinuation (pp_StreamID p) True frag) @ rest, lastHeaderStream := 0\<rparr>"
  have f: "follows 0 ?f = Some 0" "\<And>h b. follows 0 (ContinuationFrame h b) = None" by (simp_all add: follows_def)
  have 1: "read_one r = (Return ?f, ?r)"
    using read_call [OF assms(1) _ assms(4) _ assms(9,6)] fits [OF assms(4)] assms(7,8) f(1) by simp
  have "fst (read_one ?r) = Fail (ConnectionError ErrCodeProtocol)"
    using read_call [OF assms(3), of ?r rest] fits [OF assms(5)] assms(5,6,8) f(2) by (simp add: order_inv_def)
  with 1 show ?thesis by blast
qed

text \<open>C40: A header block that starts in a \<open>PUSH_PROMISE\<close> frame cannot be continued: with legal streams and a working writer,
  \<open>WritePushPromise\<close> without \<open>END_HEADERS\<close> and the \<open>WriteContinuation\<close> that completes the block both succeed, but a new framer that reads
  what they wrote returns the first frame and answers the second with a connection error, since \<open>checkFrameOrder\<close> takes only
  \<open>HEADERS\<close> frames to open a block.\<close>

theorem push_promise_not_continued:
  assumes "validStreamID (pp_StreamID p)" "validStreamID (pp_PromiseID p)" "\<not> pp_EndHeaders p"
    "length (pp_BlockFragment p) < 2 ^ 24 - 260" "length frag < 2 ^ 24"
    "\<not> AllowIllegalWrites w" "\<forall>b. fr_w w b = (length b, None)" "written w = []"
  shows "\<exists>w1 w2 h r. WritePushPromise p w = (Return (), w1) \<and> WriteContinuation (pp_StreamID p) True frag w1 = (Return (), w2) \<and>
    read_one (NewFramer u (concat (written w2) @ rest)) = (Return (PushPromiseFrame h (pp_PromiseID p) (pp_BlockFragment p)), r) \<and>
    fh_StreamID h = pp_StreamID p \<and> fst (read_one r) = Fail (ConnectionError ErrCodeProtocol)"
proof -
  let ?c = "CallPushPromise p" and ?d = "CallContinuation (pp_StreamID p) True frag"
  have ok: "legal_call ?c" "legal_call ?d" using assms(1,2) by simp_all
  have "unat (pp_PadLength p) < 2 ^ LENGTH(8)" by (rule unsigned_less)
  then have len: "length (call_payload ?c) < 2 ^ 24" using assms(4) by simp
  obtain w2 where w2: "perform_all [?c, ?d] w = (Return (), w2)"
    using perform_all_succeeds [of "[?c, ?d]" w] ok len assms(5-7) by auto
  then obtain w1 where w1: "WritePushPromise p w = (Return (), w1)" "WriteContinuation (pp_StreamID p) True frag w1 = (Return (), w2)"
    by (auto simp: bind_meth_Return_iff)
  let ?r = "NewFramer u (concat (written w2) @ rest)"
  have "written w2 = map call_bytes [?c, ?d]" using perform_all_sends [OF w2 assms(6)] assms(8) by simp
  then have "fr_input ?r = call_bytes ?c @ call_bytes ?d @ rest" by (simp add: NewFramer_def SetMaxReadFrameSize_def)
  moreover have "order_inv ?r" "lastHeaderStream ?r = 0" "maxReadSize ?r = 0xFFFFFF" by (simp_all add: NewFramer_def SetMaxReadFrameSize_def order_inv_def)
  ultimately obtain r where "read_one ?r = (Return (sent_frame ?c), r)" "fst (read_one r) = Fail (ConnectionError ErrCodeProtocol)"
    using push_promise_read [OF ok(1) assms(3) ok(2) len assms(5)] by blast
  then show ?thesis using w1 by (auto simp: valid_stream [OF assms(1)])
qed

theorem push_promise_not_continued_witness:
  "let p = \<lparr>pp_StreamID = 1, pp_PromiseID = 2, pp_BlockFragment = [0x82], pp_EndHeaders = False, pp_PadLength = 0\<rparr>;
       w = NewFramer (\<lambda>b. (length b, None)) [] in
   \<exists>w1 w2 h r. WritePushPromise p w = (Return (), w1) \<and> WriteContinuation 1 True [0x84] w1 = (Return (), w2) \<and>
    read_one (NewFramer (\<lambda>b. (length b, None)) (concat (written w2) @ [])) = (Return (PushPromiseFrame h 2 [0x82]), r) \<and>
    fh_StreamID h = 1 \<and> fst (read_one r) = Fail (ConnectionError ErrCodeProtocol)"
proof -
  let ?p = "\<lparr>pp_StreamID = 1, pp_PromiseID = 2, pp_BlockFragment = [0x82], pp_EndHeaders = False, pp_PadLength = 0\<rparr>"
  show ?thesis unfolding Let_def
    using push_promise_not_continued [of ?p "[0x84]" "NewFramer (\<lambda>b. (length b, None)) []" "\<lambda>b. (length b, None)" "[]"]
    by (simp add: validStreamID_def NewFramer_def SetMaxReadFrameSize_def)
qed

end
