(* ===== verification/HPACK_Encode.thy ===== *)
theory HPACK_Encode
  imports HPACK_Table HPACK_Huffman_Code
begin

text \<open>
  The encoder of \<open>src/http2/hpack/encode.go\<close>: the functions that append the representations of the header
  compression format, and the \<open>Encoder\<close> with its dynamic table and its pending table size update.  The
  \<open>io.Writer\<close> an encoder writes to is a parameter of \<open>WriteField\<close>: a function from the bytes of the single
  \<open>Write\<close> call to its results.
\<close>

unbundle bit_operations_syntax

section \<open>Appending representations\<close>

text \<open>\<open>dst[first] |= b\<close>\<close>

definition or_at :: "bytes \<Rightarrow> nat \<Rightarrow> u8 \<Rightarrow> bytes hpack" where
  "or_at dst first b = bind_outcome (go_index dst first) (\<lambda>x. go_update dst first (x OR b))"

definition appendIndexed :: "bytes \<Rightarrow> u64 \<Rightarrow> bytes hpack" where
  "appendIndexed dst i = or_at (appendVarInt dst 7 i) (length dst) 0x80"

definition appendTableSize :: "bytes \<Rightarrow> u32 \<Rightarrow> bytes hpack" where
  "appendTableSize dst v = or_at (appendVarInt dst 5 (ucast v)) (length dst) 0x20"

definition appendHpackString :: "bytes \<Rightarrow> bytes \<Rightarrow> bytes hpack" where
  "appendHpackString dst s =
     (let huffmanLength = HuffmanEncodeLength s in
      if huffmanLength < length s
      then or_at (AppendHuffmanString (appendVarInt dst 7 (of_nat huffmanLength)) s) (length dst) 0x80
      else Return (appendVarInt dst 7 (of_nat (length s)) @ s))"

definition encodeTypeByte :: "bool \<Rightarrow> bool \<Rightarrow> u8" where
  "encodeTypeByte indexing sensitive = (if sensitive then 0x10 else if indexing then 0x40 else 0)"

definition appendNewName :: "bytes \<Rightarrow> HeaderField \<Rightarrow> bool \<Rightarrow> bytes hpack" where
  "appendNewName dst f indexing =
     bind_outcome (appendHpackString (dst @ [encodeTypeByte indexing (Sensitive f)]) (HName f)) (\<lambda>dst.
     appendHpackString dst (HValue f))"

definition appendIndexedName :: "bytes \<Rightarrow> HeaderField \<Rightarrow> u64 \<Rightarrow> bool \<Rightarrow> bytes hpack" where
  "appendIndexedName dst f i indexing =
     (let n = (if indexing then 6 else 4) in
      bind_outcome (or_at (appendVarInt dst n i) (length dst) (encodeTypeByte indexing (Sensitive f))) (\<lambda>dst.
      appendHpackString dst (HValue f)))"

section \<open>The encoder\<close>

record Encoder =
  enc_dynTab :: dynamicTable
  minSize :: u32
  maxSizeLimit :: u32
  tableSizeUpdate :: bool
  enc_buf :: bytes

definition uint32Max :: u32 where
  "uint32Max = NOT 0"

definition initialHeaderTableSize :: u32 where
  "initialHeaderTableSize = 4096"

definition NewEncoder :: "Encoder hpack" where
  "NewEncoder =
     bind_outcome (setMaxSize zero_dynamicTable initialHeaderTableSize) (\<lambda>dt.
     Return \<lparr>enc_dynTab = dt, minSize = uint32Max, maxSizeLimit = initialHeaderTableSize, tableSizeUpdate = False, enc_buf = []\<rparr>)"

definition searchTable :: "Encoder \<Rightarrow> HeaderField \<Rightarrow> (u64 \<times> bool) hpack" where
  "searchTable e f =
     bind_outcome (search True staticTable f) (\<lambda>(i, nameValueMatch).
     if nameValueMatch then Return (i, True)
     else
       bind_outcome (search False (dt_table (enc_dynTab e)) f) (\<lambda>(j, nameValueMatch).
       if nameValueMatch \<or> (i = 0 \<and> j \<noteq> 0) then Return (j + of_nat (table_len staticTable), nameValueMatch)
       else Return (i, False)))"

definition shouldIndex :: "Encoder \<Rightarrow> HeaderField \<Rightarrow> bool" where
  "shouldIndex e f \<longleftrightarrow> \<not> Sensitive f \<and> HeaderField_Size f \<le> maxSize (enc_dynTab e)"

text \<open>The part of \<open>WriteField\<close> that emits a pending table size update.\<close>

definition flush_size_update :: "Encoder \<Rightarrow> Encoder hpack" where
  "flush_size_update e =
     (if tableSizeUpdate e then
        bind_outcome
          (if minSize e < maxSize (enc_dynTab e) then appendTableSize (enc_buf e) (minSize e) else Return (enc_buf e)) (\<lambda>buf.
        bind_outcome (appendTableSize buf (maxSize (enc_dynTab e))) (\<lambda>buf.
        Return (e\<lparr>tableSizeUpdate := False, minSize := uint32Max, enc_buf := buf\<rparr>)))
      else Return e)"

text \<open>The part that appends the field itself and inserts it into the dynamic table.\<close>

definition append_field :: "Encoder \<Rightarrow> HeaderField \<Rightarrow> Encoder hpack" where
  "append_field e f =
     bind_outcome (searchTable e f) (\<lambda>(idx, nameValueMatch).
     if nameValueMatch then
       bind_outcome (appendIndexed (enc_buf e) idx) (\<lambda>buf. Return (e\<lparr>enc_buf := buf\<rparr>))
     else
       let indexing = shouldIndex e f in
       bind_outcome (if indexing then dynamic_add (enc_dynTab e) f else Return (enc_dynTab e)) (\<lambda>dt.
       bind_outcome
         (if idx = 0 then appendNewName (enc_buf e) f indexing else appendIndexedName (enc_buf e) f idx indexing) (\<lambda>buf.
       Return (e\<lparr>enc_dynTab := dt, enc_buf := buf\<rparr>))))"

definition encode_field :: "Encoder \<Rightarrow> HeaderField \<Rightarrow> Encoder hpack" where
  "encode_field e f = bind_outcome (flush_size_update (e\<lparr>enc_buf := []\<rparr>)) (\<lambda>e. append_field e f)"

datatype 'e write_error = ErrShortWrite | WriterError 'e

definition WriteField :: "(bytes \<Rightarrow> int \<times> 'e option) \<Rightarrow> Encoder \<Rightarrow> HeaderField \<Rightarrow> (Encoder \<times> 'e write_error option) hpack" where
  "WriteField w e f =
     bind_outcome (encode_field e f) (\<lambda>e.
     case w (enc_buf e) of
       (n, None) \<Rightarrow> Return (e, if n \<noteq> int (length (enc_buf e)) then Some ErrShortWrite else None)
     | (n, Some err) \<Rightarrow> Return (e, Some (WriterError err)))"

definition SetMaxDynamicTableSize :: "Encoder \<Rightarrow> u32 \<Rightarrow> Encoder hpack" where
  "SetMaxDynamicTableSize e v =
     (let v = (if v > maxSizeLimit e then maxSizeLimit e else v);
          e = (if v < minSize e then e\<lparr>minSize := v\<rparr> else e);
          e = e\<lparr>tableSizeUpdate := True\<rparr> in
      bind_outcome (setMaxSize (enc_dynTab e) v) (\<lambda>dt. Return (e\<lparr>enc_dynTab := dt\<rparr>)))"

definition SetMaxDynamicTableSizeLimit :: "Encoder \<Rightarrow> u32 \<Rightarrow> Encoder hpack" where
  "SetMaxDynamicTableSizeLimit e v =
     (let e = e\<lparr>maxSizeLimit := v\<rparr> in
      if maxSize (enc_dynTab e) > v then
        bind_outcome (setMaxSize (enc_dynTab e) v) (\<lambda>dt. Return (e\<lparr>tableSizeUpdate := True, enc_dynTab := dt\<rparr>))
      else Return e)"

text \<open>\<open>HuffmanDecode\<close> hands the decoded bytes to the writer in one call.\<close>

definition HuffmanDecode :: "(bytes \<Rightarrow> int \<times> 'e option) \<Rightarrow> bytes \<Rightarrow> (int \<times> 'e option) hpack" where
  "HuffmanDecode w v = bind_outcome (huffmanDecode 0 v) (\<lambda>buf. Return (w buf))"

section \<open>What the appending functions write\<close>

lemma or_at_append: "xs \<noteq> [] \<Longrightarrow> or_at (dst @ xs) (length dst) b = Return (dst @ set_first b xs)"
  by (cases xs) (auto simp: or_at_def list_update_append)

lemma appendVarInt_nonempty: "appendVarInt [] n i \<noteq> []"
proof -
  have "append_loop [] j \<noteq> []" for j using append_loop_append [of "[ucast (0x80 OR (j AND 0x7F))]" "[]"]
    by (simp add: append_loop.simps [of "[]" j])
  then show ?thesis using append_loop_append [of "[ucast (push_bit n 1 - 1 :: u64)]" "[]"] by (simp add: appendVarInt_def Let_def)
qed

abbreviation tagged_int :: "nat \<Rightarrow> u8 \<Rightarrow> u64 \<Rightarrow> bytes" where
  "tagged_int n t i \<equiv> set_first t (appendVarInt [] n i)"

lemma or_at_appendVarInt: "or_at (appendVarInt dst n i) (length dst) b = Return (dst @ tagged_int n b i)"
  using or_at_append [OF appendVarInt_nonempty] appendVarInt_append [of dst n i] by simp

lemma set_first_append: "xs \<noteq> [] \<Longrightarrow> set_first b (xs @ ys) = set_first b xs @ ys"
  by (cases xs) auto

definition string_repr :: "bytes \<Rightarrow> bytes" where
  "string_repr s =
     (if HuffmanEncodeLength s < length s
      then tagged_int 7 0x80 (of_nat (HuffmanEncodeLength s)) @ AppendHuffmanString [] s
      else appendVarInt [] 7 (of_nat (length s)) @ s)"

lemma appendHpackString_eq: "appendHpackString dst s = Return (dst @ string_repr s)"
proof -
  have "or_at (AppendHuffmanString (appendVarInt dst 7 i) s) (length dst) 0x80 =
      Return (dst @ tagged_int 7 0x80 i @ AppendHuffmanString [] s)" for i
  proof -
    have "AppendHuffmanString (appendVarInt dst 7 i) s = dst @ appendVarInt [] 7 i @ AppendHuffmanString [] s"
      using AppendHuffmanString_append [of "appendVarInt dst 7 i" s] appendVarInt_append [of dst 7 i] by simp
    then show ?thesis
      using or_at_append [of "appendVarInt [] 7 i @ AppendHuffmanString [] s" dst "0x80"] appendVarInt_nonempty [of 7 i]
      by (simp add: set_first_append)
  qed
  then show ?thesis using appendVarInt_append [of dst 7] by (simp add: appendHpackString_def string_repr_def Let_def)
qed

text \<open>A literal field: type bits and name index, the name if the index is zero, the value.\<close>

definition literal_repr :: "bool \<Rightarrow> u64 \<Rightarrow> HeaderField \<Rightarrow> bytes" where
  "literal_repr indexing i f =
     tagged_int (if indexing then 6 else 4) (encodeTypeByte indexing (Sensitive f)) i @
     (if i = 0 then string_repr (HName f) else []) @ string_repr (HValue f)"

lemma tagged_int_zero: "1 \<le> n \<Longrightarrow> n \<le> 8 \<Longrightarrow> tagged_int n t 0 = [t]"
proof -
  assume n: "1 \<le> n" "n \<le> 8"
  have "unat (prefix_max n) = 2 ^ n - 1" using n by (rule_tac unat_prefix_max) simp
  moreover have "(2 :: nat) ^ n \<ge> 2 ^ 1" using n by (intro power_increasing) auto
  ultimately have "0 < prefix_max n" by (simp add: word_less_nat_alt)
  then show ?thesis by (simp add: appendVarInt_def Let_def prefix_max_def)
qed

lemma appendNewName_eq: "appendNewName dst f indexing = Return (dst @ literal_repr indexing 0 f)"
  by (simp add: appendNewName_def appendHpackString_eq literal_repr_def tagged_int_zero)

lemma appendIndexedName_eq: "i \<noteq> 0 \<Longrightarrow> appendIndexedName dst f i indexing = Return (dst @ literal_repr indexing i f)"
  by (simp add: appendIndexedName_def or_at_appendVarInt appendHpackString_eq literal_repr_def Let_def)

lemmas append_eqs = appendIndexed_def appendTableSize_def or_at_appendVarInt appendNewName_eq appendIndexedName_eq

end
