(* ===== verification/HPACK_Sync.thy ===== *)
theory HPACK_Sync
  imports HPACK_Encode HPACK_Decode
begin

text \<open>
  Encoder and decoder of \<open>src/http2/hpack\<close> together.  They are \<open>synced\<close> when their dynamic tables hold the same entries
  under the same maximum; then the decoder reads exactly the fields the encoder was given, and both stay synced.
\<close>

unbundle bit_operations_syntax

section \<open>Integers and strings\<close>

lemma tagged_int_first:
  assumes "1 \<le> n" "n \<le> 8"
  obtains b bs where "tagged_int n t i = b # bs" "\<And>m. m AND mask n = 0 \<Longrightarrow> b AND m = t AND m"
proof -
  obtain h bs where h: "appendVarInt [] n i = ucast h # bs" "h \<le> prefix_max n"
  proof (cases "i < prefix_max n")
    case True
    then show ?thesis using that [of i "[]"] by (simp add: appendVarInt_def prefix_max_def Let_def)
  next
    case False
    then have "appendVarInt [] n i = ucast (prefix_max n) # append_loop [] (i - prefix_max n)"
      using append_loop_append [of "[ucast (prefix_max n)]" "[]"] by (simp add: appendVarInt_def prefix_max_def Let_def)
    then show ?thesis using that by blast
  qed
  have "(ucast h OR t) AND m = t AND m" if "m AND mask n = 0" for m :: u8
  proof (rule bit_word_eqI)
    fix j assume "j < LENGTH(8)"
    have "\<not> bit m j" if "j < n" using \<open>m AND mask n = 0\<close> that \<open>j < LENGTH(8)\<close>
      by (metis bit_0_eq bit_and_iff bit_mask_iff bot_apply bot_bool_def possible_bit_word)
    then show "bit ((ucast h OR t) AND m) j = bit (t AND m) j"
      using ucast_prefix(2) [OF assms(2) h(2), of j] by (auto simp: bit_simps)
  qed
  then show ?thesis using that [of "ucast h OR t" bs] h(1) by simp
qed

lemma small_readable: "unat i < 2 ^ 63 \<Longrightarrow> readable n i"
  by (cases "i < prefix_max n") (simp_all add: readable_def unat_sub)

lemma readVarInt_tagged:
  "\<lbrakk>1 \<le> n; n \<le> 8; t AND mask n = 0; unat i < 2 ^ 63\<rbrakk> \<Longrightarrow> readVarInt n (tagged_int n t i @ rest) = Return (i, rest)"
  by (simp add: readVarInt_appendVarInt small_readable)

definition string_ok :: "Decoder \<Rightarrow> bytes \<Rightarrow> bool" where
  "string_ok d s \<longleftrightarrow> length s < 2 ^ 63 \<and> maxStrLen d < 2 ^ 32 \<and> (maxStrLen d = 0 \<or> int (length s) \<le> maxStrLen d)"

lemma unat_length: "k < 2 ^ 63 \<Longrightarrow> unat (of_nat k :: u64) = k"
  by (simp add: unat_of_nat)

lemma limit_word:
  assumes "maxStrLen d < 2 ^ 63" "maxStrLen d = 0 \<or> int k \<le> maxStrLen d"
  shows "\<not> (maxStrLen d \<noteq> 0 \<and> of_nat k > (of_int (maxStrLen d) :: u64))"
proof (cases "maxStrLen d = 0")
  case False
  then have k: "int k \<le> maxStrLen d" using assms(2) by simp
  obtain m where m: "maxStrLen d = int m" "k \<le> m" "m < 2 ^ 63"
    using k assms(1) by (intro that [of "nat (maxStrLen d)"]) auto
  then have "unat (of_nat k :: u64) \<le> unat (of_nat m :: u64)" using unat_length [of k] unat_length [of m] by simp
  then show ?thesis using m by (simp add: word_less_nat_alt)
qed simp

lemma readString_string_repr:
  assumes "string_ok d s"
  shows "readString d (string_repr s @ rest) w = Return (if w then s else [], rest)"
proof -
  have s: "length s < 2 ^ 63" "maxStrLen d < 2 ^ 63" "maxStrLen d = 0 \<or> int (length s) \<le> maxStrLen d"
    using assms by (auto simp: string_ok_def)
  show ?thesis
  proof (cases "HuffmanEncodeLength s < length s")
    case True
    let ?n = "HuffmanEncodeLength s" and ?h = "AppendHuffmanString [] s"
    obtain b bs where b: "tagged_int 7 0x80 (of_nat ?n) = b # bs" "b AND 128 = 0x80 AND 128"
      by (rule tagged_int_first [of 7 "0x80" "of_nat ?n"]) (auto simp: mask_eq_exp_minus_1)
    have v: "readVarInt 7 (b # bs @ ?h @ rest) = Return (of_nat ?n, ?h @ rest)"
      using readVarInt_tagged [of 7 "0x80" "of_nat ?n" "?h @ rest"] b(1) True s(1) unat_length [of ?n]
      by (simp add: mask_eq_exp_minus_1)
    have l: "length ?h = ?n" using length_AppendHuffmanString [of "[]" s] by simp
    have h: "huffmanDecode (nat (maxStrLen d)) ?h = Return s"
      using AppendHuffmanString_bits [of "[]" s] s(3) by (auto simp: huffmanDecode_iff)
    have u: "unat (of_nat ?n :: u64) = ?n" using True s(1) by (intro unat_length) simp
    have "maxStrLen d = 0 \<or> int ?n \<le> maxStrLen d" using s(3) True by auto
    then have lim: "\<not> (maxStrLen d \<noteq> 0 \<and> of_nat ?n > (of_int (maxStrLen d) :: u64))"
      by (rule limit_word [OF s(2)])
    show ?thesis using True b v l h u lim by (simp add: readString_def string_repr_def)
  next
    case False
    let ?n = "length s"
    have z: "tagged_int 7 0 (of_nat ?n) = appendVarInt [] 7 (of_nat ?n)" by (cases "appendVarInt [] 7 (of_nat ?n)") auto
    obtain b bs where b: "appendVarInt [] 7 (of_nat ?n) = b # bs" "b AND 128 = 0 AND 128"
      by (rule tagged_int_first [of 7 0 "of_nat ?n"]) (auto simp: mask_eq_exp_minus_1 z)
    have v: "readVarInt 7 (b # bs @ s @ rest) = Return (of_nat ?n, s @ rest)"
      using readVarInt_tagged [of 7 0 "of_nat ?n" "s @ rest"] z b(1) s(1) unat_length [of ?n] by simp
    show ?thesis using False b v unat_length [OF s(1)] limit_word [OF s(2,3)] by (simp add: readString_def string_repr_def)
  qed
qed


section \<open>Indices\<close>

definition synced :: "Encoder \<Rightarrow> Decoder \<Rightarrow> bool" where
  "synced e d \<longleftrightarrow> dynamic_ok (enc_dynTab e) \<and> decoder_ok d \<and>
     ents (dt_table (dec_dynTab d)) = ents (dt_table (enc_dynTab e)) \<and> maxSize (dec_dynTab d) = maxSize (enc_dynTab e)"

lemma SetEmitFunc_simps [simp]:
  "dec_dynTab (SetEmitFunc d k) = dec_dynTab d" "emitEnabled (SetEmitFunc d k) = emitEnabled d" "maxStrLen (SetEmitFunc d k) = maxStrLen d"
  "saveBuf (SetEmitFunc d k) = saveBuf d" "firstField (SetEmitFunc d k) = firstField d" "emits (SetEmitFunc d k) = []"
  "emit_keep (SetEmitFunc d k) = k"
  by (simp_all add: SetEmitFunc_def)

lemma synced_SetEmitFunc [simp]: "synced e (SetEmitFunc d k) \<longleftrightarrow> synced e d"
  by (simp add: synced_def decoder_ok_def SetEmitFunc_def)

lemma decoder_at_static: "k < 61 \<Longrightarrow> decoder_at d (of_nat (k + 1)) = Return (Some (staticTableEntries ! k))"
proof -
  assume k: "k < 61"
  have u: "unat (of_nat (k + 1) :: u64) = k + 1" using k by (intro unat_length) simp
  have "of_nat (k + 1) - 1 = (of_nat k :: u64)" by simp
  then have "unat (of_nat (k + 1) - 1 :: u64) = k" using k unat_length [of k] by simp
  moreover have "of_nat (k + 1) \<noteq> (0 :: u64)" using u by (metis add_is_0 one_neq_zero unsigned_0)
  ultimately show ?thesis using k u by (simp only: decoder_at_def table_len_def static_ok length_static) simp
qed

lemma decoder_at_dynamic:
  assumes "ents (dt_table (dec_dynTab d)) = es" "k < length es" "length es < 2 ^ 62"
  shows "decoder_at d (of_nat (length es - k) + of_nat 61) = Return (Some (es ! k))"
proof -
  have "unat (of_nat (length es - k + 61) :: u64) = length es - k + 61" using assms by (intro unat_length) simp
  then have u: "unat (of_nat (length es - k) + of_nat 61 :: u64) = length es - k + 61" by (simp only: of_nat_add)
  then have "of_nat (length es - k) + of_nat 61 \<noteq> (0 :: u64)" using assms(2) by (metis add_is_0 unsigned_0 zero_neq_numeral)
  then show ?thesis using assms(1,2) u
    by (simp only: decoder_at_def maxTableIndex_def table_len_def static_ok length_static Let_def) simp
qed

lemma lookup_cases:
  obtains (pair) k where "\<not> Sensitive f" "newest (\<lambda>g. pair_of g = pair_of f) (ents t) = Some k" "lookup_field st t f = (index_at st t k, True)"
  | (name) k where "newest (\<lambda>g. HName g = HName f) (ents t) = Some k" "lookup_field st t f = (index_at st t k, False)"
  | (none) "lookup_field st t f = (0, False)"
proof (cases "if Sensitive f then None else newest (\<lambda>g. pair_of g = pair_of f) (ents t)")
  case None
  then show ?thesis using name none by (cases "newest (\<lambda>g. HName g = HName f) (ents t)") (auto simp: lookup_field_def)
next
  case (Some k)
  then show ?thesis using pair [of k] by (auto simp: lookup_field_def split: if_splits)
qed

text \<open>The index the encoder finds leads the decoder to an entry with the field's name, and its value on a full match.\<close>

lemma searchTable_decoder_at:
  assumes "synced e d" "added (dt_table (enc_dynTab e)) < 2 ^ 62"
  obtains i m where "searchTable e f = Return (i, m)" "unat i < 2 ^ 63"
    "m \<Longrightarrow> \<not> Sensitive f \<and> (\<exists>g. decoder_at d i = Return (Some g) \<and> HName g = HName f \<and> HValue g = HValue f)"
    "i \<noteq> 0 \<Longrightarrow> \<exists>g. decoder_at d i = Return (Some g) \<and> HName g = HName f"
proof -
  let ?t = "dt_table (enc_dynTab e)"
  have t: "table_ok ?t" "ents (dt_table (dec_dynTab d)) = ents ?t" "length (ents ?t) < 2 ^ 62"
    using assms by (auto simp: synced_def dynamic_ok_def added_def)
  note ss = search_ok [OF static_ok(1), of True f] and sd = search_ok [OF t(1), of False f]
  have st: "decoder_at d (of_nat (index_at True staticTable k)) = Return (Some (staticTableEntries ! k))"
      "unat (of_nat (index_at True staticTable k) :: u64) < 2 ^ 63" "P (staticTableEntries ! k)"
    if "newest P staticTableEntries = Some k" for P k
    using newest_SomeD [OF that] decoder_at_static [of k d] unat_length [of "k + 1"] by (auto simp: index_at_def)
  have dy: "decoder_at d (of_nat (index_at False ?t k) + of_nat 61) = Return (Some (ents ?t ! k))"
      "unat (of_nat (index_at False ?t k) + of_nat 61 :: u64) < 2 ^ 63" "P (ents ?t ! k)"
      "of_nat (index_at False ?t k) \<noteq> (0 :: u64)"
    if "newest P (ents ?t) = Some k" for P k
  proof -
    have k: "k < length (ents ?t)" "P (ents ?t ! k)" using newest_SomeD [OF that] by auto
    have "unat (of_nat (length (ents ?t) - k + 61) :: u64) = length (ents ?t) - k + 61" using t(3) by (intro unat_length) simp
    then have "unat (of_nat (length (ents ?t) - k) + of_nat 61 :: u64) = length (ents ?t) - k + 61" by (simp only: of_nat_add)
    then show "unat (of_nat (index_at False ?t k) + of_nat 61 :: u64) < 2 ^ 63" using t(3) by (simp add: index_at_def)
    have "unat (of_nat (length (ents ?t) - k) :: u64) = length (ents ?t) - k" using t(3) by (intro unat_length) simp
    then show "of_nat (index_at False ?t k) \<noteq> (0 :: u64)" using k(1) by (auto simp: index_at_def)
    show "decoder_at d (of_nat (index_at False ?t k) + of_nat 61) = Return (Some (ents ?t ! k))"
      using decoder_at_dynamic [OF t(2) k(1) t(3)] by (simp add: index_at_def)
  qed (use newest_SomeD [OF that] in auto)
  show ?thesis
  proof (cases rule: lookup_cases [of f staticTable True, case_names pair name none])
    case (pair k)
    then show ?thesis using that [of "of_nat (index_at True staticTable k)" True] ss st [of _ k]
      by (auto simp: searchTable_def pair_of_def)
  next
    case sname: (name k)
    have nz: "of_nat (index_at True staticTable k) \<noteq> (0 :: u64)"
      using st(1) [of _ k] sname(1) by (auto simp: decoder_at_def)
    show ?thesis
    proof (cases rule: lookup_cases [of f ?t False, case_names pair name none])
      case (pair j)
      then show ?thesis using that [of "of_nat (index_at False ?t j) + of_nat 61" True] ss sd sname dy [of _ j]
        by (auto simp: searchTable_def pair_of_def table_len_def)
    next
      case (name j)
      then show ?thesis using that [of "of_nat (index_at True staticTable k)" False] ss sd sname st [of _ k] nz
        by (auto simp: searchTable_def)
    next
      case none
      then show ?thesis using that [of "of_nat (index_at True staticTable k)" False] ss sd sname st [of _ k]
        by (auto simp: searchTable_def)
    qed
  next
    case snone: none
    show ?thesis
    proof (cases rule: lookup_cases [of f ?t False, case_names pair name none])
      case (pair j)
      then show ?thesis using that [of "of_nat (index_at False ?t j) + of_nat 61" True] ss sd snone dy [of _ j]
        by (auto simp: searchTable_def pair_of_def table_len_def)
    next
      case (name j)
      then show ?thesis using that [of "of_nat (index_at False ?t j) + of_nat 61" False] ss sd snone dy [of _ j]
        by (auto simp: searchTable_def table_len_def)
    next
      case none
      then show ?thesis using that [of 0 False] ss sd snone by (auto simp: searchTable_def)
    qed
  qed
qed


section \<open>Sizes\<close>

lemma length_append_loop: "unat i < 2 ^ (7 * Suc k) \<Longrightarrow> length (append_loop [] i) \<le> Suc k"
proof (induction k arbitrary: i)
  case 0
  then have "\<not> i \<ge> 128" by (simp add: word_le_nat_alt)
  then show ?case by (simp add: append_loop_Cons)
next
  case (Suc k)
  have "(2 :: nat) ^ (7 * Suc (Suc k)) = 2 ^ (7 * Suc k) * 2 ^ 7" by (subst power_add [symmetric]) simp
  then have "unat (drop_bit 7 i) < 2 ^ (7 * Suc k)"
    using Suc.prems by (simp add: unat_div drop_bit_eq_div less_mult_imp_div_less)
  from Suc.IH [OF this] show ?case by (simp add: append_loop_Cons [of i])
qed

lemma length_tagged_int: "length (tagged_int n t i) \<le> 11" "unat i < 2 ^ 32 \<Longrightarrow> length (tagged_int n t i) \<le> 6"
proof -
  have l: "length (tagged_int n t i) \<le> 1 + length (append_loop [] (i - prefix_max n))"
    using append_loop_append [of "[ucast (prefix_max n)]" "[]" "i - prefix_max n"]
    by (cases "appendVarInt [] n i") (auto simp: appendVarInt_def prefix_max_def Let_def split: if_splits)
  have "unat j < 2 ^ (7 * Suc 9)" for j :: u64
    by (rule less_le_trans [OF unsigned_less [of j, where ?'a = nat]]) simp
  from length_append_loop [OF this, of "i - prefix_max n"] show "length (tagged_int n t i) \<le> 11" using l by simp
  show "length (tagged_int n t i) \<le> 6" if "unat i < 2 ^ 32"
  proof (cases "i < prefix_max n")
    case True
    then have "length (tagged_int n t i) = 1" by (simp add: appendVarInt_def prefix_max_def Let_def)
    then show ?thesis by simp
  next
    case False
    then have "unat (i - prefix_max n) \<le> unat i" by (simp add: unat_sub)
    then have "unat (i - prefix_max n) < 2 ^ (7 * Suc 4)" using that by simp
    from length_append_loop [OF this] show ?thesis using l by simp
  qed
qed

lemma length_set_first [simp]: "length (set_first t xs) = length xs"
  by (cases xs) simp_all

lemma length_string_repr: "length s < 2 ^ 32 \<Longrightarrow> length (string_repr s) \<le> 6 + length s"
proof -
  assume s: "length s < 2 ^ 32"
  have "length (tagged_int 7 t (of_nat k)) \<le> 6" if "k \<le> length s" for t k
    using that s by (intro length_tagged_int(2)) (simp add: unat_length)
  from this [of "HuffmanEncodeLength s" "0x80"] this [of "length s" 0] show ?thesis
    using length_AppendHuffmanString [of "[]" s] by (auto simp: string_repr_def)
qed

text \<open>A representation the check on the buffered length lets pass in pieces.\<close>

definition short_repr :: "Decoder \<Rightarrow> bytes \<Rightarrow> bool" where
  "short_repr d r \<longleftrightarrow> maxStrLen d = 0 \<or> int (length r) \<le> 2 * maxStrLen d + 17"

section \<open>One field\<close>

text \<open>\<open>bs\<close> is one representation that takes the decoder from \<open>d\<close> to \<open>d'\<close>, whatever follows.\<close>

definition decodes_as :: "Decoder \<Rightarrow> bytes \<Rightarrow> Decoder \<Rightarrow> bool" where
  "decodes_as d bs d' \<longleftrightarrow> bs \<noteq> [] \<and> short_repr d bs \<and>
     (\<forall>rest. parseHeaderFieldRepr (d\<lparr>dec_buf := bs @ rest\<rparr>) = (Return (), d'\<lparr>dec_buf := rest\<rparr>))"

definition field_ok :: "Decoder \<Rightarrow> HeaderField \<Rightarrow> bool" where
  "field_ok d f \<longleftrightarrow> 0 \<le> maxStrLen d \<and> string_ok d (HName f) \<and> string_ok d (HValue f)"

lemma literal_short:
  assumes "field_ok d f"
  shows "short_repr d (literal_repr indexing i f)"
proof (cases "maxStrLen d = 0")
  case False
  have l: "int (length (HName f)) \<le> maxStrLen d" "int (length (HValue f)) \<le> maxStrLen d" "maxStrLen d < 2 ^ 32" "1 \<le> maxStrLen d"
    using False assms by (auto simp: field_ok_def string_ok_def)
  note s = length_string_repr [of "HName f"] length_string_repr [of "HValue f"]
  let ?t = "tagged_int (if indexing then 6 else 4) (encodeTypeByte indexing (Sensitive f)) i"
  have "length ?t \<le> (if i = 0 then 1 else 11)" 
    using length_tagged_int(1) [where n = "if indexing then 6 else 4" and i = i] by (auto simp: appendVarInt_def Let_def)
  then show ?thesis using l s by (auto simp: literal_repr_def short_repr_def simp del: length_map)
qed (simp add: short_repr_def)

lemma int_short: "0 \<le> maxStrLen d \<Longrightarrow> short_repr d (tagged_int n t i)"
  using length_tagged_int(1) [where n = n and t = t and i = i] by (auto simp: short_repr_def)

text \<open>What the decoder makes of a field: it hands it to the callback unless that has switched emission off.\<close>

definition emit_field :: "HeaderField \<Rightarrow> Decoder \<Rightarrow> Decoder" where
  "emit_field f d = (if emitEnabled d then d\<lparr>emits := emits d @ [f], emitEnabled := emit_keep d (emits d @ [f])\<rparr> else d)"

lemma emit_field_simps [simp]:
  "dec_dynTab (emit_field f d) = dec_dynTab d" "maxStrLen (emit_field f d) = maxStrLen d" "saveBuf (emit_field f d) = saveBuf d"
  "firstField (emit_field f d) = firstField d" "emit_keep (emit_field f d) = emit_keep d" "dec_buf (emit_field f d) = dec_buf d"
  "emit_field f (d\<lparr>dec_buf := b\<rparr>) = (emit_field f d)\<lparr>dec_buf := b\<rparr>" "emit_field f (d\<lparr>dec_dynTab := dt\<rparr>) = (emit_field f d)\<lparr>dec_dynTab := dt\<rparr>"
  by (simp_all add: emit_field_def)

lemma callEmit_ok:
  assumes "string_ok d (HName hf)" "string_ok d (HValue hf)" "emitEnabled d \<Longrightarrow> hf = f"
  shows "callEmit hf d = (Return (), emit_field f d)"
  using assms by (auto simp: callEmit_def emit_field_def string_ok_def)

lemma indexed_decodes:
  assumes "field_ok d f" "\<not> Sensitive f" "unat i < 2 ^ 63"
    "decoder_at d i = Return (Some g)" "HName g = HName f" "HValue g = HValue f"
  shows "decodes_as d (tagged_int 7 0x80 i) (emit_field f d)"
proof -
  obtain b bs where b: "tagged_int 7 0x80 i = b # bs" "b AND 128 = 0x80 AND 128"
    by (rule tagged_int_first [of 7 "0x80" i]) (auto simp: mask_eq_exp_minus_1)
  have v: "readVarInt 7 (b # bs @ rest) = Return (i, rest)" for rest
    using readVarInt_tagged [of 7 "0x80" i rest] b(1) assms(3) by (simp add: mask_eq_exp_minus_1)
  have f: "\<lparr>HName = HName f, HValue = HValue f, Sensitive = False\<rparr> = f" using assms(2) by (cases f) simp
  have "parseHeaderFieldRepr (d\<lparr>dec_buf := b # bs @ rest\<rparr>) = callEmit f (d\<lparr>dec_buf := rest\<rparr>)" for rest
    using b(2) v assms(4-6) f by (simp add: parseHeaderFieldRepr_def parseFieldIndexed_def lift_meth_def)
  moreover have "callEmit f (d\<lparr>dec_buf := rest\<rparr>) = (Return (), (emit_field f d)\<lparr>dec_buf := rest\<rparr>)" for rest
    using callEmit_ok [of "d\<lparr>dec_buf := rest\<rparr>" f f] assms(1) by (simp add: field_ok_def string_ok_def)
  ultimately show ?thesis using b(1) int_short [of d, where n = 7 and t = "0x80" and i = i] assms(1) by (simp add: decodes_as_def field_ok_def)
qed

definition literal_type :: "bool \<Rightarrow> HeaderField \<Rightarrow> indexType" where
  "literal_type indexing f = (if Sensitive f then indexedNever else if indexing then indexedTrue else indexedFalse)"

lemma literal_dispatch:
  assumes "Sensitive f \<longrightarrow> \<not> indexing"
  shows "parseHeaderFieldRepr (d\<lparr>dec_buf := literal_repr indexing i f @ rest\<rparr>) =
    parseFieldLiteral (if indexing then 6 else 4) (literal_type indexing f) (d\<lparr>dec_buf := literal_repr indexing i f @ rest\<rparr>)"
proof -
  let ?n = "if indexing then 6 else 4 :: nat" and ?t = "encodeTypeByte indexing (Sensitive f)"
  obtain b bs where b: "tagged_int ?n ?t i = b # bs" "\<And>m. m AND mask ?n = 0 \<Longrightarrow> b AND m = ?t AND m"
    by (rule tagged_int_first [of ?n ?t i]) auto
  then have "b AND 128 = ?t AND 128" "b AND 192 = ?t AND 192" "\<not> indexing \<Longrightarrow> b AND 240 = ?t AND 240"
    by (auto simp: mask_eq_exp_minus_1)
  then show ?thesis using b(1) assms
    by (auto simp: parseHeaderFieldRepr_def literal_repr_def literal_type_def encodeTypeByte_def)
qed

lemma literal_decodes:
  assumes "field_ok d f" "Sensitive f \<longrightarrow> \<not> indexing" "unat i < 2 ^ 63"
    "i \<noteq> 0 \<Longrightarrow> \<exists>g. decoder_at d i = Return (Some g) \<and> HName g = HName f"
    "(if indexing then dynamic_add (dec_dynTab d) f else Return (dec_dynTab d)) = Return dt"
  shows "decodes_as d (literal_repr indexing i f) (emit_field f (d\<lparr>dec_dynTab := dt\<rparr>))"
proof -
  let ?n = "if indexing then 6 else 4 :: nat" and ?t = "encodeTypeByte indexing (Sensitive f)" and ?w = "emitEnabled d \<or> indexing"
  have st: "string_ok d (HName f)" "string_ok d (HValue f)" using assms(1) by (auto simp: field_ok_def)
  have "?t AND mask ?n = 0" using assms(2) by (auto simp: encodeTypeByte_def mask_eq_exp_minus_1)
  then have v: "readVarInt ?n (tagged_int ?n ?t i @ rest) = Return (i, rest)" for rest
    using assms(3) by (intro readVarInt_tagged) auto
  define nm where "nm = (if i = 0 \<and> \<not> ?w then [] else HName f)"
  define vl where "vl = (if ?w then HValue f else [])"
  have name: "literal_name d i ((if i = 0 then string_repr (HName f) else []) @ rest) ?w = Return (nm, rest)" for rest
  proof (cases "i = 0")
    case False
    then have "0 < i" by (simp add: word_neq_0_conv [symmetric])
    then show ?thesis using assms(4) False by (auto simp: literal_name_def nm_def)
  qed (use readString_string_repr [OF st(1)] in \<open>simp add: literal_name_def nm_def\<close>)
  let ?hf = "\<lparr>HName = nm, HValue = vl, Sensitive = Sensitive f\<rparr>"
  have ix: "indexed (literal_type indexing f) = indexing" "sensitive (literal_type indexing f) = Sensitive f"
    using assms(2) by (auto simp: literal_type_def indexed_def sensitive_def)
  have add: "(if indexing then dynamic_add (dec_dynTab d) \<lparr>HName = nm, HValue = vl, Sensitive = False\<rparr> else Return (dec_dynTab d)) = Return dt"
  proof -
    have "\<lparr>HName = nm, HValue = vl, Sensitive = False\<rparr> = f" if indexing using that assms(2) by (cases f) (simp add: nm_def vl_def)
    then show ?thesis using assms(5) by (cases indexing) simp_all
  qed
  have "parseHeaderFieldRepr (d\<lparr>dec_buf := literal_repr indexing i f @ rest\<rparr>) = callEmit ?hf (d\<lparr>dec_buf := rest, dec_dynTab := dt\<rparr>)" for rest
  proof -
    note reads = v [of "(if i = 0 then string_repr (HName f) else []) @ string_repr (HValue f) @ rest"]
      name [of "string_repr (HValue f) @ rest"] readString_string_repr [OF st(2), of rest ?w, folded vl_def]
    have "dt = dec_dynTab d" if "\<not> indexing" using assms(5) that by simp
    then show ?thesis
      unfolding literal_dispatch [OF assms(2)]
      unfolding parseFieldLiteral_def literal_repr_def Let_def ix
      using reads add by (cases indexing) (auto simp: lift_meth_def)
  qed
  moreover have "callEmit ?hf (d\<lparr>dec_buf := rest, dec_dynTab := dt\<rparr>) = (Return (), (emit_field f (d\<lparr>dec_dynTab := dt\<rparr>))\<lparr>dec_buf := rest\<rparr>)" for rest
    by (subst callEmit_ok [where f = f]) (use st in \<open>auto simp: string_ok_def nm_def vl_def\<close>)
  moreover have "literal_repr indexing i f \<noteq> []" using appendVarInt_nonempty [of ?n i] by (cases "appendVarInt [] ?n i") (auto simp: literal_repr_def)
  ultimately show ?thesis using literal_short [OF assms(1)] by (simp add: decodes_as_def)
qed


text \<open>The state of the decoder a field leaves alone.\<close>

definition same_mode :: "Decoder \<Rightarrow> Decoder \<Rightarrow> bool" where
  "same_mode d d' \<longleftrightarrow> emit_keep d' = emit_keep d \<and> maxStrLen d' = maxStrLen d \<and> saveBuf d' = saveBuf d \<and>
     allowedMaxSize (dec_dynTab d') = allowedMaxSize (dec_dynTab d)"

text \<open>Whether emission is enabled, and the fields emitted.\<close>

definition emission :: "Decoder \<Rightarrow> bool \<times> HeaderField list" where
  "emission d = (emitEnabled d, emits d)"

definition emit_one :: "(HeaderField list \<Rightarrow> bool) \<Rightarrow> HeaderField \<Rightarrow> bool \<times> HeaderField list \<Rightarrow> bool \<times> HeaderField list" where
  "emit_one keep f es = (if fst es then (keep (snd es @ [f]), snd es @ [f]) else es)"

lemma emission_simps [simp]:
  "emission (emit_field f d) = emit_one (emit_keep d) f (emission d)" "emission (d\<lparr>dec_dynTab := dt\<rparr>) = emission d"
  "emission (d\<lparr>dec_buf := b\<rparr>) = emission d" "emission (d\<lparr>firstField := v\<rparr>) = emission d"
  by (simp_all add: emission_def emit_one_def emit_field_def)

lemma synced_add:
  assumes "synced e d" "added (dt_table (enc_dynTab e)) + 1 < 2 ^ 64" "inserted d + 1 < 2 ^ 64"
  obtains dt dt' where "dynamic_add (enc_dynTab e) f = Return dt" "dynamic_add (dec_dynTab d) f = Return dt'"
    "synced (e\<lparr>enc_dynTab := dt\<rparr>) (d\<lparr>dec_dynTab := dt'\<rparr>)" "added (dt_table dt) = added (dt_table (enc_dynTab e)) + 1"
    "added (dt_table dt') = inserted d + 1" "allowedMaxSize dt' = allowedMaxSize (dec_dynTab d)"
proof -
  have ok: "dynamic_ok (enc_dynTab e)" "dynamic_ok (dec_dynTab d)" and eq: "ents (dt_table (dec_dynTab d)) = ents (dt_table (enc_dynTab e))"
    "maxSize (dec_dynTab d) = maxSize (enc_dynTab e)" "dt_size (dec_dynTab d) = dt_size (enc_dynTab e)"
    using assms(1) by (auto simp: synced_def decoder_ok_def dynamic_ok_def)
  let ?n = "snd (evict_loop (dt_size (enc_dynTab e) + HeaderField_Size f) (maxSize (enc_dynTab e)) (ents (dt_table (enc_dynTab e)) @ [f]))"
  obtain dt where dt: "dynamic_add (enc_dynTab e) f = Return dt" "dynamic_ok dt" "maxSize dt = maxSize (enc_dynTab e)"
    "ents (dt_table dt) = drop ?n (ents (dt_table (enc_dynTab e)) @ [f])" "added (dt_table dt) = added (dt_table (enc_dynTab e)) + 1"
    by (rule dynamic_add_ok [OF ok(1) assms(2), of f])
  obtain dt' where dt': "dynamic_add (dec_dynTab d) f = Return dt'" "dynamic_ok dt'" "maxSize dt' = maxSize (dec_dynTab d)"
    "allowedMaxSize dt' = allowedMaxSize (dec_dynTab d)" "added (dt_table dt') = inserted d + 1"
    "ents (dt_table dt') = drop ?n (ents (dt_table (enc_dynTab e)) @ [f])"
    by (rule dynamic_add_ok [OF ok(2) assms(3), of f]) (use eq in auto)
  show ?thesis using that [OF dt(1) dt'(1)] dt dt' assms(1) eq by (simp add: synced_def decoder_ok_def)
qed

lemma append_field_decodes:
  assumes "synced e d" "field_ok d f" "added (dt_table (enc_dynTab e)) + 1 < 2 ^ 62" "inserted d + 1 < 2 ^ 64"
  obtains e' d' bs where "append_field e f = Return e'" "enc_buf e' = enc_buf e @ bs" "decodes_as d bs d'" "synced e' d'"
    "emission d' = emit_one (emit_keep d) f (emission d)" "same_mode d d'" "firstField d' = firstField d" "tableSizeUpdate e' = tableSizeUpdate e" "minSize e' = minSize e"
    "maxSizeLimit e' = maxSizeLimit e" "added (dt_table (enc_dynTab e')) \<le> added (dt_table (enc_dynTab e)) + 1" "inserted d' \<le> inserted d + 1"
proof -
  have "added (dt_table (enc_dynTab e)) < 2 ^ 62" using assms(3) by simp
  from searchTable_decoder_at [OF assms(1) this, of f] obtain i m where
    im: "searchTable e f = Return (i, m)" "unat i < 2 ^ 63"
      "m \<Longrightarrow> \<not> Sensitive f \<and> (\<exists>g. decoder_at d i = Return (Some g) \<and> HName g = HName f \<and> HValue g = HValue f)"
      "i \<noteq> 0 \<Longrightarrow> \<exists>g. decoder_at d i = Return (Some g) \<and> HName g = HName f" by blast
  show ?thesis
  proof (cases m)
    case True
    then have "decodes_as d (tagged_int 7 0x80 i) (emit_field f d)"
      using im(2,3) indexed_decodes [OF assms(2)] by blast
    then show ?thesis using that [of "e\<lparr>enc_buf := enc_buf e @ tagged_int 7 0x80 i\<rparr>" "tagged_int 7 0x80 i" "emit_field f d"]
        True im(1) assms(1)
      by (auto simp: append_field_def append_eqs synced_def decoder_ok_def same_mode_def)
  next
    case False
    let ?ix = "shouldIndex e f"
    obtain dt dt' where dt: "(if ?ix then dynamic_add (enc_dynTab e) f else Return (enc_dynTab e)) = Return dt"
      "(if ?ix then dynamic_add (dec_dynTab d) f else Return (dec_dynTab d)) = Return dt'"
      "synced (e\<lparr>enc_dynTab := dt\<rparr>) (d\<lparr>dec_dynTab := dt'\<rparr>)" "added (dt_table dt) \<le> added (dt_table (enc_dynTab e)) + 1"
      "added (dt_table dt') \<le> inserted d + 1" "allowedMaxSize dt' = allowedMaxSize (dec_dynTab d)"
    proof (cases ?ix)
      case True
      have "added (dt_table (enc_dynTab e)) + 1 < 2 ^ 64" using assms(3) by simp
      from synced_add [OF assms(1) this assms(4), of f] show ?thesis using that True by (metis order_refl)
    next
      case False
      then show ?thesis using that [of "enc_dynTab e" "dec_dynTab d"] assms(1) by (auto simp: synced_def decoder_ok_def)
    qed
    let ?bs = "literal_repr ?ix i f"
    have sens: "Sensitive f \<longrightarrow> \<not> ?ix" by (simp add: shouldIndex_def)
    have "decodes_as d ?bs (emit_field f (d\<lparr>dec_dynTab := dt'\<rparr>))"
      by (rule literal_decodes [OF assms(2) sens im(2,4) dt(2)])
    moreover have "append_field e f = Return (e\<lparr>enc_dynTab := dt, enc_buf := enc_buf e @ ?bs\<rparr>)"
      using im(1) False dt(1) by (auto simp: append_field_def append_eqs Let_def)
    ultimately show ?thesis
      using that [of "e\<lparr>enc_dynTab := dt, enc_buf := enc_buf e @ ?bs\<rparr>" ?bs "emit_field f (d\<lparr>dec_dynTab := dt'\<rparr>)"] dt(3-6)
      by (auto simp: synced_def decoder_ok_def same_mode_def)
  qed
qed

section \<open>Runs of the decoder\<close>

text \<open>\<open>bs\<close> takes the loop of \<open>Write\<close> from \<open>d\<close> to \<open>d'\<close>, one representation after the other.\<close>

inductive runs :: "Decoder \<Rightarrow> bytes \<Rightarrow> Decoder \<Rightarrow> bool" where
  runs_refl [simp, intro]: "runs d [] d"
| runs_step: "decodes_as d r d1 \<Longrightarrow> runs (d1\<lparr>firstField := False\<rparr>) bs d' \<Longrightarrow> runs d (r @ bs) d'"

lemma runs_trans: "runs d bs d' \<Longrightarrow> runs d' bs' d'' \<Longrightarrow> runs d (bs @ bs') d''"
  by (induction rule: runs.induct) (auto intro: runs_step)

lemma decodes_as_runs: "decodes_as d bs d' \<Longrightarrow> runs d bs (d'\<lparr>firstField := False\<rparr>)"
  using runs_step [of d bs d' "[]"] by auto

lemma runs_run_buf: "runs d bs d' \<Longrightarrow> run_buf len (d\<lparr>dec_buf := bs @ rest\<rparr>) = run_buf len (d'\<lparr>dec_buf := rest\<rparr>)"
proof (induction rule: runs.induct)
  case (runs_step d r d1 bs d')
  then show ?case unfolding decodes_as_def by (subst run_buf_rec) (simp add: first_buf_commute)
qed simp


section \<open>Table size updates\<close>

lemma size_update_decodes:
  assumes "firstField d \<or> dt_size (dec_dynTab d) = 0" "v \<le> allowedMaxSize (dec_dynTab d)" "setMaxSize (dec_dynTab d) v = Return dt"
    "0 \<le> maxStrLen d"
  shows "decodes_as d (tagged_int 5 0x20 (ucast v)) (d\<lparr>dec_dynTab := dt\<rparr>)"
proof -
  obtain b bs where b: "tagged_int 5 0x20 (ucast v) = b # bs" "b AND 128 = 0x20 AND 128" "b AND 192 = 0x20 AND 192" "b AND 224 = 0x20 AND 224"
    by (rule tagged_int_first [of 5 "0x20" "ucast v"]) (auto simp: mask_eq_exp_minus_1)
  have "b AND 224 = (b AND 240) AND 224" by (simp add: and.assoc)
  then have n: "b AND 240 \<noteq> 0" "b AND 240 \<noteq> 16" using b(4) by auto
  have "unat v < 2 ^ 32" using unsigned_less [of v] by simp
  then have v: "readVarInt 5 (b # bs @ rest) = Return (ucast v, rest)" for rest
    using readVarInt_tagged [of 5 "0x20" "ucast v" rest] b(1) by (simp add: mask_eq_exp_minus_1)
  have le: "\<not> (ucast v :: u64) > ucast (allowedMaxSize (dec_dynTab d))" using assms(2) by (simp add: word_less_nat_alt word_le_nat_alt)
  have "ucast (ucast v :: u64) = v" by (intro bit_word_eqI) (simp add: bit_simps)
  then show ?thesis using b n v assms le int_short [OF assms(4), where n = 5 and t = "0x20" and i = "ucast v"]
    by (auto simp: decodes_as_def parseHeaderFieldRepr_def parseDynamicTableSizeUpdate_def lift_meth_def)
qed

text \<open>The encoder has nothing pending, or one table size that the decoder does not know yet.\<close>

definition enc_ready :: "Encoder \<Rightarrow> bool" where
  "enc_ready e \<longleftrightarrow> \<not> tableSizeUpdate e \<and> minSize e = uint32Max"

definition prepared :: "Encoder \<Rightarrow> Decoder \<Rightarrow> bool" where
  "prepared e d \<longleftrightarrow> enc_ready e \<and> synced e d \<or>
     tableSizeUpdate e \<and> \<not> minSize e < maxSize (enc_dynTab e) \<and> firstField d \<and> decoder_ok d \<and>
     maxSize (enc_dynTab e) \<le> allowedMaxSize (dec_dynTab d) \<and>
     (\<exists>dt. setMaxSize (dec_dynTab d) (maxSize (enc_dynTab e)) = Return dt \<and> synced e (d\<lparr>dec_dynTab := dt\<rparr>) \<and>
       added (dt_table dt) = inserted d \<and> allowedMaxSize dt = allowedMaxSize (dec_dynTab d))"

lemma flush_runs:
  assumes "prepared e d" "0 \<le> maxStrLen d"
  obtains e' d' where "flush_size_update (e\<lparr>enc_buf := []\<rparr>) = Return e'" "enc_ready e'" "runs d (enc_buf e') d'" "synced e' d'" "same_mode d d'"
    "emission d' = emission d" "inserted d' = inserted d" "added (dt_table (enc_dynTab e')) = added (dt_table (enc_dynTab e))" "maxSizeLimit e' = maxSizeLimit e"
  using assms(1) unfolding prepared_def
proof (elim disjE conjE exE)
  assume "enc_ready e" "synced e d"
  then show ?thesis using that [of "e\<lparr>enc_buf := []\<rparr>" d]
    by (simp add: flush_size_update_def enc_ready_def synced_def same_mode_def)
next
  fix dt
  let ?v = "maxSize (enc_dynTab e)"
  assume p: "tableSizeUpdate e" "\<not> minSize e < ?v" "firstField d" "?v \<le> allowedMaxSize (dec_dynTab d)"
    and dt: "setMaxSize (dec_dynTab d) ?v = Return dt" "synced e (d\<lparr>dec_dynTab := dt\<rparr>)" "added (dt_table dt) = inserted d"
      "allowedMaxSize dt = allowedMaxSize (dec_dynTab d)"
  have "runs d (tagged_int 5 0x20 (ucast ?v)) (d\<lparr>dec_dynTab := dt, firstField := False\<rparr>)"
    using decodes_as_runs [OF size_update_decodes [OF _ p(4) dt(1) assms(2)]] p(3) by simp
  then show ?thesis
    using that [of "e\<lparr>tableSizeUpdate := False, minSize := uint32Max, enc_buf := tagged_int 5 0x20 (ucast ?v)\<rparr>" "d\<lparr>dec_dynTab := dt, firstField := False\<rparr>"] p dt
    by (simp add: flush_size_update_def append_eqs enc_ready_def synced_def same_mode_def decoder_ok_def)
qed

lemma encode_field_runs:
  assumes "prepared e d" "field_ok d f" "added (dt_table (enc_dynTab e)) + 1 < 2 ^ 62" "inserted d + 1 < 2 ^ 64"
  obtains e' d' where "encode_field e f = Return e'" "runs d (enc_buf e') d'" "enc_ready e'" "synced e' d'" "enc_buf e' \<noteq> []"
    "emission d' = emit_one (emit_keep d) f (emission d)" "same_mode d d'" "maxSizeLimit e' = maxSizeLimit e"
    "added (dt_table (enc_dynTab e')) \<le> added (dt_table (enc_dynTab e)) + 1" "inserted d' \<le> inserted d + 1"
proof -
  obtain e1 d1 where 1: "flush_size_update (e\<lparr>enc_buf := []\<rparr>) = Return e1" "enc_ready e1" "runs d (enc_buf e1) d1" "synced e1 d1" "same_mode d d1"
    "emission d1 = emission d" "inserted d1 = inserted d" "added (dt_table (enc_dynTab e1)) = added (dt_table (enc_dynTab e))" "maxSizeLimit e1 = maxSizeLimit e"
    by (rule flush_runs [OF assms(1)]) (use assms(2) in \<open>simp add: field_ok_def\<close>)
  have f: "field_ok d1 f" using assms(2) 1(5) by (simp add: field_ok_def string_ok_def same_mode_def)
  obtain e2 d2 bs where 2: "append_field e1 f = Return e2" "enc_buf e2 = enc_buf e1 @ bs" "decodes_as d1 bs d2" "synced e2 d2"
    "emission d2 = emit_one (emit_keep d1) f (emission d1)" "same_mode d1 d2" "tableSizeUpdate e2 = tableSizeUpdate e1" "minSize e2 = minSize e1"
    "maxSizeLimit e2 = maxSizeLimit e1" "added (dt_table (enc_dynTab e2)) \<le> added (dt_table (enc_dynTab e1)) + 1" "inserted d2 \<le> inserted d1 + 1"
    by (rule append_field_decodes [OF 1(4) f]) (use assms(3,4) 1(7,8) in auto)
  have "runs d (enc_buf e2) (d2\<lparr>firstField := False\<rparr>)" using runs_trans [OF 1(3) decodes_as_runs [OF 2(3)]] 2(2) by simp
  moreover have "enc_buf e2 \<noteq> []" using 2(2,3) by (simp add: decodes_as_def)
  ultimately show ?thesis using that [of e2 "d2\<lparr>firstField := False\<rparr>"] 1 2
    by (auto simp: encode_field_def enc_ready_def same_mode_def synced_def decoder_ok_def)
qed


section \<open>Header blocks\<close>

text \<open>The bytes of a header block: those of the successive \<open>WriteField\<close> calls.\<close>

fun encode_block :: "Encoder \<Rightarrow> HeaderField list \<Rightarrow> (Encoder \<times> bytes) hpack" where
  "encode_block e [] = Return (e, [])"
| "encode_block e (f # fs) =
     bind_outcome (encode_field e f) (\<lambda>e1. bind_outcome (encode_block e1 fs) (\<lambda>(e2, bs). Return (e2, enc_buf e1 @ bs)))"

text \<open>What a block of \<open>n\<close> fields does to a synced pair.\<close>

definition block_result :: "Encoder \<Rightarrow> Decoder \<Rightarrow> HeaderField list \<Rightarrow> Encoder \<Rightarrow> bytes \<Rightarrow> Decoder \<Rightarrow> bool" where
  "block_result e d fs e' bs d' \<longleftrightarrow> encode_block e fs = Return (e', bs) \<and> runs d bs d' \<and> enc_ready e' \<and> synced e' d' \<and> (fs \<noteq> [] \<longrightarrow> bs \<noteq> []) \<and>
     emission d' = fold (emit_one (emit_keep d)) fs (emission d) \<and> same_mode d d' \<and> maxSizeLimit e' = maxSizeLimit e \<and>
     added (dt_table (enc_dynTab e')) \<le> added (dt_table (enc_dynTab e)) + length fs \<and> inserted d' \<le> inserted d + length fs"

lemma same_mode_trans: "same_mode d d' \<Longrightarrow> same_mode d' d'' \<Longrightarrow> same_mode d d''"
  by (simp add: same_mode_def)

lemma encode_block_cons:
  assumes "prepared e d" "\<forall>g \<in> set (f # fs). field_ok d g" "added (dt_table (enc_dynTab e)) + length (f # fs) < 2 ^ 62"
    "inserted d + length (f # fs) < 2 ^ 64"
    and rest: "\<And>e1 d1. \<lbrakk>enc_ready e1; synced e1 d1; \<forall>g \<in> set fs. field_ok d1 g; added (dt_table (enc_dynTab e1)) + length fs < 2 ^ 62;
      inserted d1 + length fs < 2 ^ 64\<rbrakk> \<Longrightarrow> \<exists>e' bs d'. block_result e1 d1 fs e' bs d'"
  shows "\<exists>e' bs d'. block_result e d (f # fs) e' bs d'"
proof -
  obtain e1 d1 where 1: "encode_field e f = Return e1" "runs d (enc_buf e1) d1" "enc_ready e1" "synced e1 d1" "enc_buf e1 \<noteq> []"
    "emission d1 = emit_one (emit_keep d) f (emission d)" "same_mode d d1" "maxSizeLimit e1 = maxSizeLimit e"
    "added (dt_table (enc_dynTab e1)) \<le> added (dt_table (enc_dynTab e)) + 1" "inserted d1 \<le> inserted d + 1"
    by (rule encode_field_runs [OF assms(1), of f]) (use assms(2-4) in auto)
  have f1: "\<forall>g \<in> set fs. field_ok d1 g" using assms(2) 1(7) by (auto simp: field_ok_def string_ok_def same_mode_def)
  obtain e2 bs d2 where 2: "block_result e1 d1 fs e2 bs d2"
    using rest [OF 1(3,4) f1] 1(9,10) assms(3,4) by auto
  then have "runs d (enc_buf e1 @ bs) d2" "same_mode d d2"
    using runs_trans [OF 1(2)] same_mode_trans [OF 1(7)] by (auto simp: block_result_def)
  then have "block_result e d (f # fs) e2 (enc_buf e1 @ bs) d2"
    using 1 2 by (auto simp: block_result_def same_mode_def)
  then show ?thesis by blast
qed

lemma encode_block_ready:
  "\<lbrakk>enc_ready e; synced e d; \<forall>f \<in> set fs. field_ok d f; added (dt_table (enc_dynTab e)) + length fs < 2 ^ 62;
    inserted d + length fs < 2 ^ 64\<rbrakk> \<Longrightarrow> \<exists>e' bs d'. block_result e d fs e' bs d'"
proof (induction fs arbitrary: e d)
  case Nil
  then have "block_result e d [] e [] d" by (simp add: block_result_def same_mode_def)
  then show ?case by blast
next
  case (Cons f fs)
  then have "prepared e d" by (simp add: prepared_def)
  then show ?case using Cons.prems(3-5) Cons.IH by (rule encode_block_cons)
qed

lemma encode_block_prepared:
  "\<lbrakk>prepared e d; fs \<noteq> []; \<forall>f \<in> set fs. field_ok d f; added (dt_table (enc_dynTab e)) + length fs < 2 ^ 62;
    inserted d + length fs < 2 ^ 64\<rbrakk> \<Longrightarrow> \<exists>e' bs d'. block_result e d fs e' bs d'"
  by (cases fs) (simp_all only: list.simps(3) not_True_eq_False, rule encode_block_cons, assumption+, rule encode_block_ready)

lemma Decoder_Write_runs:
  assumes "runs d bs d'" "saveBuf d = []" "bs \<noteq> []"
  shows "Decoder_Write bs d = (Return (length bs, None), d'\<lparr>dec_buf := []\<rparr>)"
proof -
  have "run_buf (length bs) (d\<lparr>dec_buf := bs\<rparr>) = run_buf (length bs) (d'\<lparr>dec_buf := []\<rparr>)"
    using runs_run_buf [OF assms(1), of _ "[]"] by simp
  also have "\<dots> = (Return (length bs, None), d'\<lparr>dec_buf := []\<rparr>)" by (simp add: run_buf_rec)
  finally show ?thesis using assms(2,3) by (cases d) (simp add: Decoder_Write_run)
qed

lemma DecodeFull_runs:
  assumes "runs (SetEmitFunc d (\<lambda>_. True)) bs d'" "saveBuf d = []" "saveBuf d' = []" "bs \<noteq> []"
  shows "DecodeFull bs d = (Return (emits d'), d'\<lparr>dec_buf := [], firstField := True, emits := emits d, emit_keep := emit_keep d\<rparr>)"
  using Decoder_Write_runs [OF assms(1) _ assms(4)] assms(2,3) by (simp add: DecodeFull_def Decoder_Close_def SetEmitFunc_def)

lemma emit_all: "fold (emit_one (\<lambda>_. True)) fs (True, es) = (True, es @ fs)"
  by (induction fs arbitrary: es) (simp_all add: emit_one_def)

section \<open>A block in pieces\<close>

text \<open>A proper part of a representation makes the parser ask for more.\<close>

lemma partial_repr:
  assumes "decodes_as d (p @ q) d'" "p \<noteq> []" "q \<noteq> []"
  shows "parseHeaderFieldRepr (d\<lparr>dec_buf := p\<rparr>) = (Fail errNeedMore, d\<lparr>dec_buf := p\<rparr>)"
proof -
  obtain r d1 where p: "parseHeaderFieldRepr (d\<lparr>dec_buf := p\<rparr>) = (r, d1)" by force
  have st: "steady parseHeaderFieldRepr (d\<lparr>dec_buf := p\<rparr>)" using assms(2) by (intro parse_steady) simp
  have full: "parseHeaderFieldRepr (d\<lparr>dec_buf := p @ q\<rparr>) = (Return (), d'\<lparr>dec_buf := []\<rparr>)"
    using assms(1) by (simp add: decodes_as_def) (metis append_Nil2 append_assoc)
  have "r = Fail errNeedMore"
  proof (rule ccontr)
    assume "r \<noteq> Fail errNeedMore"
    then have "(r, d1\<lparr>dec_buf := dec_buf d1 @ q\<rparr>) = (Return (), d'\<lparr>dec_buf := []\<rparr>)"
      using st p full by (simp add: steady_def)
    then have "dec_buf d1 @ q = []" by (metis Decoder.select_convs(4) Decoder.surjective Decoder.update_convs(4) prod.inject)
    then show False using assms(3) by simp
  qed
  then show ?thesis using st p by (simp add: steady_def)
qed

text \<open>The decoder has received a part of the bytes that take it to \<open>d'\<close>; \<open>bs\<close> are the others.\<close>

definition awaits :: "Decoder \<Rightarrow> bytes \<Rightarrow> Decoder \<Rightarrow> bool" where
  "awaits d bs d' \<longleftrightarrow> (\<exists>b. runs (d\<lparr>saveBuf := [], dec_buf := b\<rparr>) (saveBuf d @ bs) d') \<and> (bs = [] \<longrightarrow> saveBuf d = []) \<and> 0 \<le> maxStrLen d \<and> maxStrLen d < 2 ^ 32"

lemma not_too_long:
  assumes "0 \<le> maxStrLen d" "maxStrLen d < 2 ^ 32" "short_repr d (p @ q)" "q \<noteq> []"
  shows "\<not> too_long (d\<lparr>dec_buf := p\<rparr>)"
proof -
  have "2 * (of_int (maxStrLen d) + 8) = (of_int (2 * (maxStrLen d + 8)) :: u64)" by simp
  moreover have "sint (of_int (2 * (maxStrLen d + 8)) :: u64) = 2 * (maxStrLen d + 8)"
    unfolding sint_sbintrunc' by (rule signed_take_bit_int_eq_self) (use assms(1,2) in simp_all)
  ultimately show ?thesis using assms(3,4) by (cases q) (auto simp: too_long_def short_repr_def)
qed

lemma decodes_as_keeps:
  assumes "decodes_as d r d1"
  shows "saveBuf d1 = saveBuf d" "maxStrLen d1 = maxStrLen d" "decodes_as (d\<lparr>dec_buf := b\<rparr>) r d1"
proof -
  have "parseHeaderFieldRepr (d\<lparr>dec_buf := r\<rparr>) = (Return (), d1\<lparr>dec_buf := []\<rparr>)"
    using assms by (simp add: decodes_as_def) (metis append_Nil2)
  from this [THEN arg_cong [where f = snd]]
  show "saveBuf d1 = saveBuf d" "maxStrLen d1 = maxStrLen d"
    using parse_maxStrLen [of "d\<lparr>dec_buf := r\<rparr>"] parse_saveBuf [of "d\<lparr>dec_buf := r\<rparr>"] by simp_all
  show "decodes_as (d\<lparr>dec_buf := b\<rparr>) r d1" using assms by (simp add: decodes_as_def short_repr_def)
qed

lemma run_part:
  "\<lbrakk>runs d bs d'; bs = p @ q; saveBuf d = []; 0 \<le> maxStrLen d; maxStrLen d < 2 ^ 32\<rbrakk> \<Longrightarrow>
    \<exists>d1. run_buf len (d\<lparr>dec_buf := p\<rparr>) = (Return (len, None), d1) \<and> awaits d1 q d'"
proof (induction arbitrary: p rule: runs.induct)
  case (runs_refl d)
  have "d\<lparr>saveBuf := [], dec_buf := dec_buf d\<rparr> = d" using runs_refl(2) by (cases d) simp
  then have "\<exists>b. runs (d\<lparr>saveBuf := [], dec_buf := b\<rparr>) [] d" using runs.runs_refl by metis
  then have "awaits (d\<lparr>dec_buf := []\<rparr>) [] d" using runs_refl by (simp add: awaits_def)
  then show ?case using runs_refl by (simp add: run_buf_rec)
next
  case (runs_step d r d1 bs d')
  note keep = decodes_as_keeps [OF runs_step.hyps(1)]
  have "d\<lparr>saveBuf := [], dec_buf := b\<rparr> = d\<lparr>dec_buf := b\<rparr>" for b using runs_step.prems(2) by (cases d) simp
  then have all: "runs (d\<lparr>saveBuf := [], dec_buf := b\<rparr>) (r @ bs) d'" for b
    using runs.runs_step [OF keep(3) runs_step.hyps(2)] by metis
  obtain vs where "r = p @ vs \<and> vs @ bs = q \<or> r @ vs = p \<and> bs = vs @ q"
    using runs_step.prems(1) unfolding append_eq_append_conv2 by blast
  then consider p2 where "p = r @ p2" "bs = p2 @ q" | us where "r = p @ us" "us \<noteq> []" "q = us @ bs"
    by (cases "vs = []") auto
  then show ?case
  proof cases
    case 1
    have "run_buf len (d\<lparr>dec_buf := r @ p2\<rparr>) = run_buf len (d1\<lparr>firstField := False, dec_buf := p2\<rparr>)"
      using runs_run_buf [OF decodes_as_runs [OF runs_step.hyps(1)]] .
    then show ?thesis using runs_step.IH [OF 1(2)] keep(1,2) runs_step.prems(2-4) 1(1) by simp
  next
    case 2
    show ?thesis
    proof (cases "p = []")
      case True
      then show ?thesis using all runs_step.prems 2 by (auto simp: run_buf_rec awaits_def)
    next
      case False
      have "\<not> too_long (d\<lparr>dec_buf := p\<rparr>)"
        using not_too_long [OF runs_step.prems(3,4) _ 2(2)] runs_step.hyps(1) 2(1) by (simp add: decodes_as_def)
      moreover have "parseHeaderFieldRepr (d\<lparr>dec_buf := p\<rparr>) = (Fail errNeedMore, d\<lparr>dec_buf := p\<rparr>)"
        using partial_repr [OF _ False 2(2)] runs_step.hyps(1) 2(1) by simp
      ultimately have "run_buf len (d\<lparr>dec_buf := p\<rparr>) = (Return (len, None), d\<lparr>dec_buf := p, saveBuf := p\<rparr>)"
        using False runs_step.prems(2) by (simp add: run_buf_rec)
      moreover have "awaits (d\<lparr>dec_buf := p, saveBuf := p\<rparr>) q d'"
        using all runs_step.prems(1,3,4) 2(2,3) by (auto simp: awaits_def)
      ultimately show ?thesis using 2 by auto
    qed
  qed
qed

lemma awaits_start: "\<lbrakk>runs d bs d'; saveBuf d = []; 0 \<le> maxStrLen d; maxStrLen d < 2 ^ 32\<rbrakk> \<Longrightarrow> awaits d bs d'"
proof -
  assume a: "runs d bs d'" "saveBuf d = []" "0 \<le> maxStrLen d" "maxStrLen d < 2 ^ 32"
  have "d\<lparr>saveBuf := [], dec_buf := dec_buf d\<rparr> = d" using a(2) by (cases d) simp
  then have "\<exists>b. runs (d\<lparr>saveBuf := [], dec_buf := b\<rparr>) bs d'" using a(1) by metis
  then show ?thesis using a by (simp add: awaits_def)
qed

lemma awaits_done: "awaits d [] d' \<Longrightarrow> saveBuf d = [] \<and> (\<exists>b. d' = d\<lparr>dec_buf := b\<rparr>)"
proof -
  assume a: "awaits d [] d'"
  then obtain b where b: "runs (d\<lparr>saveBuf := [], dec_buf := b\<rparr>) [] d'" "saveBuf d = []" by (auto simp: awaits_def)
  from b(1) have "d' = d\<lparr>saveBuf := [], dec_buf := b\<rparr>" by (cases rule: runs.cases) (auto simp: decodes_as_def)
  moreover have "d\<lparr>saveBuf := [], dec_buf := b\<rparr> = d\<lparr>dec_buf := b\<rparr>" using b(2) by (cases d) simp
  ultimately show ?thesis using b(2) by metis
qed

lemma Decoder_Write_part:
  assumes "awaits d (p @ q) d'"
  shows "\<exists>d1. Decoder_Write p d = (Return (length p, None), d1) \<and> awaits d1 q d'"
proof (cases "p = []")
  case False
  obtain b where b: "runs (d\<lparr>saveBuf := [], dec_buf := b\<rparr>) ((saveBuf d @ p) @ q) d'" "0 \<le> maxStrLen d" "maxStrLen d < 2 ^ 32"
    using assms by (auto simp: awaits_def)
  have eq: "d\<lparr>dec_buf := saveBuf d @ p, saveBuf := []\<rparr> = d\<lparr>saveBuf := [], dec_buf := saveBuf d @ p\<rparr>" by simp
  show ?thesis using run_part [OF b(1) refl, of "length p"] b(2,3) False unfolding Decoder_Write_run eq by simp
qed (use assms in \<open>simp add: Decoder_Write_run\<close>)

section \<open>A connection\<close>

lemma resize_prepared:
  assumes "enc_ready e" "synced e d" "firstField d" "maxSizeLimit e \<le> allowedMaxSize (dec_dynTab d)"
  obtains e' where "SetMaxDynamicTableSize e v = Return e'" "prepared e' d" "maxSizeLimit e' = maxSizeLimit e"
    "added (dt_table (enc_dynTab e')) = added (dt_table (enc_dynTab e))"
proof -
  let ?v = "if v > maxSizeLimit e then maxSizeLimit e else v"
  have v: "?v \<le> allowedMaxSize (dec_dynTab d)" using assms(4) by auto
  have ok: "dynamic_ok (enc_dynTab e)" "dynamic_ok (dec_dynTab d)" "decoder_ok d"
    and eq: "ents (dt_table (dec_dynTab d)) = ents (dt_table (enc_dynTab e))" "dt_size (dec_dynTab d) = dt_size (enc_dynTab e)"
    using assms(2) by (auto simp: synced_def decoder_ok_def dynamic_ok_def)
  let ?n = "snd (evict_loop (dt_size (enc_dynTab e)) ?v (ents (dt_table (enc_dynTab e))))"
  obtain dt where dt: "setMaxSize (enc_dynTab e) ?v = Return dt" "dynamic_ok dt" "maxSize dt = ?v"
    "ents (dt_table dt) = drop ?n (ents (dt_table (enc_dynTab e)))" "added (dt_table dt) = added (dt_table (enc_dynTab e))"
    by (rule setMaxSize_ok [OF ok(1), of ?v])
  obtain dt' where dt': "setMaxSize (dec_dynTab d) ?v = Return dt'" "dynamic_ok dt'" "maxSize dt' = ?v" "allowedMaxSize dt' = allowedMaxSize (dec_dynTab d)"
    "ents (dt_table dt') = drop ?n (ents (dt_table (enc_dynTab e)))" "added (dt_table dt') = inserted d"
    by (rule setMaxSize_ok [OF ok(2), of ?v]) (simp only: eq)
  have "?v \<le> minSize e" using assms(1) by (simp add: enc_ready_def uint32Max_def)
  then have m: "(if ?v < minSize e then ?v else minSize e) = ?v" by auto
  let ?e = "e\<lparr>minSize := ?v, tableSizeUpdate := True, enc_dynTab := dt\<rparr>"
  have "SetMaxDynamicTableSize e v = Return ?e"
    using dt(1) m by (cases "?v < minSize e") (simp_all add: SetMaxDynamicTableSize_def Let_def)
  moreover have "prepared ?e d"
    using dt dt' ok(3) v assms(3) by (simp add: prepared_def synced_def decoder_ok_def)
  ultimately show ?thesis using that [of ?e] dt(5) by simp
qed

text \<open>A connection: before each block the encoder may be given a new table size once.\<close>

fun session :: "Encoder \<Rightarrow> Decoder \<Rightarrow> (u32 option \<times> HeaderField list) list \<Rightarrow> HeaderField list list hpack" where
  "session e d [] = Return []"
| "session e d ((r, fs) # blocks) =
     bind_outcome (case r of None \<Rightarrow> Return e | Some v \<Rightarrow> SetMaxDynamicTableSize e v) (\<lambda>e.
     bind_outcome (encode_block e fs) (\<lambda>(e, bs).
     case DecodeFull bs d of
       (Return hf, d) \<Rightarrow> bind_outcome (session e d blocks) (\<lambda>hfs. Return (hf # hfs))
     | (Fail err, d) \<Rightarrow> Fail err
     | (Panic, d) \<Rightarrow> Panic))"

definition block_ok :: "Decoder \<Rightarrow> u32 option \<times> HeaderField list \<Rightarrow> bool" where
  "block_ok d b \<longleftrightarrow> snd b \<noteq> [] \<and> (\<forall>f \<in> set (snd b). field_ok d f)"

lemma session_decodes:
  "\<lbrakk>enc_ready e; synced e d; firstField d; saveBuf d = [] \<and> emitEnabled d; maxSizeLimit e \<le> allowedMaxSize (dec_dynTab d); \<forall>b \<in> set blocks. block_ok d b;
    added (dt_table (enc_dynTab e)) + sum_list (map (length \<circ> snd) blocks) < 2 ^ 62; inserted d + sum_list (map (length \<circ> snd) blocks) < 2 ^ 64\<rbrakk> \<Longrightarrow>
   session e d blocks = Return (map snd blocks)"
proof (induction blocks arbitrary: e d)
  case (Cons b blocks)
  obtain r fs where b: "b = (r, fs)" by force
  let ?fresh = "SetEmitFunc d (\<lambda>_. True)"
  have fs: "fs \<noteq> []" "\<forall>f \<in> set fs. field_ok ?fresh f"
    using Cons.prems(6) b by (auto simp: block_ok_def field_ok_def string_ok_def)
  obtain e1 where e1: "(case r of None \<Rightarrow> Return e | Some v \<Rightarrow> SetMaxDynamicTableSize e v) = Return e1" "prepared e1 ?fresh"
    "maxSizeLimit e1 = maxSizeLimit e" "added (dt_table (enc_dynTab e1)) = added (dt_table (enc_dynTab e))"
  proof (cases r)
    case None
    then show ?thesis using that [of e] Cons.prems(1,2) by (simp add: prepared_def)
  next
    case (Some v)
    show ?thesis
      by (rule resize_prepared [of e ?fresh v])
        (use Cons.prems(1-5) Some that in auto)
  qed
  obtain e2 bs d2 where 2: "block_result e1 ?fresh fs e2 bs d2"
    using encode_block_prepared [OF e1(2) fs] e1(4) Cons.prems(7,8) b by auto
  have em: "emitEnabled d2" "emits d2 = fs"
    using 2 Cons.prems(4) emit_all [of fs "[]"] by (auto simp: block_result_def emission_def)
  let ?d = "d2\<lparr>dec_buf := [], firstField := True, emits := emits d, emit_keep := emit_keep d\<rparr>"
  have full: "DecodeFull bs d = (Return fs, ?d)"
    using DecodeFull_runs [of d bs d2] 2 em fs(1) Cons.prems(4) by (simp add: block_result_def same_mode_def)
  have "session e2 ?d blocks = Return (map snd blocks)"
    using 2 em Cons.prems e1(3,4) b
    by (intro Cons.IH) (auto simp: block_result_def same_mode_def synced_def decoder_ok_def block_ok_def field_ok_def string_ok_def)
  then show ?case using b e1(1) 2 full by (simp add: block_result_def)
qed simp

section \<open>Two sizes before one block\<close>

lemma append_field_extends: "append_field e f = Return e' \<Longrightarrow> \<exists>bs. enc_buf e' = enc_buf e @ bs"
  by (auto simp: append_field_def append_eqs Let_def split: if_splits)

lemma encode_field_returns:
  assumes "dynamic_ok (enc_dynTab e)" "added (dt_table (enc_dynTab e)) + 1 < 2 ^ 64"
  shows "\<exists>e'. encode_field e f = Return e'"
proof -
  have "\<exists>e1. flush_size_update e = Return e1 \<and> enc_dynTab e1 = enc_dynTab e" for e
    by (cases "tableSizeUpdate e"; cases "minSize e < maxSize (enc_dynTab e)") (simp_all add: flush_size_update_def append_eqs)
  then obtain e1 where e1: "flush_size_update (e\<lparr>enc_buf := []\<rparr>) = Return e1" "enc_dynTab e1 = enc_dynTab e"
    by (metis Encoder.select_convs(1) Encoder.surjective Encoder.update_convs(5))
  have "table_ok (dt_table (enc_dynTab e))" using assms(1) by (simp add: dynamic_ok_def)
  then have "\<exists>im. searchTable e1 f = Return im"
    using e1(2) search_ok [OF static_ok(1), of True f] search_ok [of "dt_table (enc_dynTab e)" False f]
    by (auto simp: searchTable_def)
  then obtain i m where im: "searchTable e1 f = Return (i, m)" by force
  obtain dt where "dynamic_add (enc_dynTab e) f = Return dt" by (rule dynamic_add_ok [OF assms, of f])
  then show ?thesis using e1 im by (simp add: encode_field_def append_field_def append_eqs Let_def)
qed

text \<open>After a smaller and then a larger size, the encoder announces both.\<close>

lemma SetMaxDynamicTableSize_eq:
  "SetMaxDynamicTableSize e v = Return e' \<Longrightarrow> v \<le> maxSizeLimit e \<Longrightarrow>
     \<exists>dt. setMaxSize (enc_dynTab e) v = Return dt \<and> e' = e\<lparr>minSize := min v (minSize e), tableSizeUpdate := True, enc_dynTab := dt\<rparr>"
  by (auto simp: SetMaxDynamicTableSize_def Let_def min_def split: if_splits)

lemma evict_loop_fits: "sz \<le> mx \<Longrightarrow> evict_loop sz mx fs = (sz, 0)"
  by (cases fs) auto

lemma dynamic_shrink_then_grow:
  assumes "dynamic_ok dt" "v1 \<le> v2" "setMaxSize dt v1 = Return dt1" "setMaxSize dt1 v2 = Return dt2"
  shows "dynamic_ok dt1" "dynamic_ok dt2" "ents (dt_table dt2) = ents (dt_table dt1)" "maxSize dt2 = v2" "maxSize dt1 = v1"
    "ents (dt_table dt1) = drop (snd (evict_loop (dt_size dt) v1 (ents (dt_table dt)))) (ents (dt_table dt))"
proof -
  show 1: "dynamic_ok dt1" "maxSize dt1 = v1"
    "ents (dt_table dt1) = drop (snd (evict_loop (dt_size dt) v1 (ents (dt_table dt)))) (ents (dt_table dt))"
    by (rule setMaxSize_ok [OF assms(1), of v1], use assms(3) in simp)+
  then have "dt_size dt1 \<le> v2" using assms(2) by (auto simp: dynamic_ok_def dest: order_trans)
  then have "evict_loop (dt_size dt1) v2 (ents (dt_table dt1)) = (dt_size dt1, 0)" by (rule evict_loop_fits)
  then show "dynamic_ok dt2" "ents (dt_table dt2) = ents (dt_table dt1)" "maxSize dt2 = v2"
    by (rule_tac setMaxSize_ok [OF 1(1), of v2], use assms(4) in simp)+
qed

lemma second_update_rejected:
  assumes "\<not> firstField d" "dt_size (dec_dynTab d) > 0" "saveBuf d = []"
  shows "run_buf len (d\<lparr>dec_buf := tagged_int 5 0x20 v @ rest\<rparr>) =
    (Return (len, Some (DecodingError SizeUpdateNotFirst)), d\<lparr>dec_buf := tagged_int 5 0x20 v @ rest, firstField := False\<rparr>)"
proof -
  obtain b bs where b: "tagged_int 5 0x20 v = b # bs" "b AND 128 = 0x20 AND 128" "b AND 192 = 0x20 AND 192" "b AND 224 = 0x20 AND 224"
    by (rule tagged_int_first [of 5 "0x20" v]) (auto simp: mask_eq_exp_minus_1)
  have "b AND 224 = (b AND 240) AND 224" by (simp add: and.assoc)
  then have n: "b AND 240 \<noteq> 0" "b AND 240 \<noteq> 16" using b(4) by auto
  show ?thesis using b n assms
    by (simp add: run_buf_rec parseHeaderFieldRepr_def parseDynamicTableSizeUpdate_def)
qed

text \<open>What the encoder writes first after two sizes.\<close>

lemma two_updates_written:
  assumes "enc_ready e" "synced e d" "v1 < v2" "v2 \<le> maxSizeLimit e" "SetMaxDynamicTableSize e v1 = Return e1"
    "SetMaxDynamicTableSize e1 v2 = Return e2" "encode_block e2 (f # fs) = Return (e3, bs)"
  obtains rest dt where "bs = tagged_int 5 0x20 (ucast v1) @ tagged_int 5 0x20 (ucast v2) @ rest"
    "setMaxSize (dec_dynTab d) v1 = Return dt" "dt_size dt = dt_size (enc_dynTab e2)"
proof -
  have v1: "v1 \<le> maxSizeLimit e" using assms(3,4) by simp
  obtain dt1 where e1: "setMaxSize (enc_dynTab e) v1 = Return dt1"
    "e1 = e\<lparr>minSize := min v1 (minSize e), tableSizeUpdate := True, enc_dynTab := dt1\<rparr>"
    using SetMaxDynamicTableSize_eq [OF assms(5) v1] by blast
  have lim: "v2 \<le> maxSizeLimit e1" using e1(2) assms(4) by simp
  obtain dt2 where e2: "setMaxSize dt1 v2 = Return dt2"
    "e2 = e1\<lparr>minSize := min v2 (minSize e1), tableSizeUpdate := True, enc_dynTab := dt2\<rparr>"
    using SetMaxDynamicTableSize_eq [OF assms(6) lim] e1(2) by auto
  have ok: "dynamic_ok (enc_dynTab e)" "dynamic_ok (dec_dynTab d)"
    and eq: "ents (dt_table (dec_dynTab d)) = ents (dt_table (enc_dynTab e))" "dt_size (dec_dynTab d) = dt_size (enc_dynTab e)"
    using assms(2) by (auto simp: synced_def decoder_ok_def dynamic_ok_def)
  note dt = dynamic_shrink_then_grow [OF ok(1) less_imp_le [OF assms(3)] e1(1) e2(1)]
  have min: "minSize e2 = v1" using e1(2) e2(2) assms(1,3) by (auto simp: enc_ready_def uint32Max_def min_def)
  obtain dt' where dt': "setMaxSize (dec_dynTab d) v1 = Return dt'" "dynamic_ok dt'" "ents (dt_table dt') = ents (dt_table dt1)"
    by (rule setMaxSize_ok [OF ok(2), of v1]) (use eq dt(6) in auto)
  have size: "dt_size dt' = dt_size (enc_dynTab e2)" using dt dt' e2(2) by (simp add: dynamic_ok_def)
  obtain e4 bs' where bs': "encode_field e2 f = Return e4" "bs = enc_buf e4 @ bs'" using assms(7) by auto
  obtain e5 where "flush_size_update (e2\<lparr>enc_buf := []\<rparr>) = Return e5" "append_field e5 f = Return e4"
    using bs'(1) by (auto simp: encode_field_def)
  moreover from this(1) have "enc_buf e5 = tagged_int 5 0x20 (ucast v1) @ tagged_int 5 0x20 (ucast v2)"
    using min e2(2) dt(4) assms(3) or_at_appendVarInt [of "[]"] by (auto simp: flush_size_update_def append_eqs)
  ultimately obtain rest where "bs = tagged_int 5 0x20 (ucast v1) @ tagged_int 5 0x20 (ucast v2) @ rest"
    using append_field_extends [of e5 f e4] bs'(2) by auto
  then show ?thesis using that dt'(1) size by blast
qed

section \<open>Properties\<close>

lemma NewEncoder_ok: "\<exists>e. NewEncoder = Return e \<and> enc_ready e \<and> dynamic_ok (enc_dynTab e) \<and> ents (dt_table (enc_dynTab e)) = [] \<and>
    maxSize (enc_dynTab e) = 4096 \<and> maxSizeLimit e = 4096 \<and> added (dt_table (enc_dynTab e)) = 0"
  by (rule setMaxSize_ok [OF zero_dynamicTable_ok(1), of initialHeaderTableSize])
    (auto simp: NewEncoder_def enc_ready_def initialHeaderTableSize_def)

text \<open>C7: On a fresh connection the decoder returns, block by block, exactly the header fields the encoder was given: with Huffman and plain
  strings, static and dynamic indices, sensitive fields, insertions and evictions, and with the encoder's table resized at most
  once before each block.  (Names and values are below \<open>2 ^ 63\<close> bytes, blocks are not empty, and fewer than \<open>2 ^ 62\<close> fields are sent.)\<close>

theorem HPACK_session:
  assumes "NewEncoder = Return e" "NewDecoder 4096 emitFunc = Return d"
    "\<forall>(r, fs) \<in> set blocks. fs \<noteq> [] \<and> (\<forall>f \<in> set fs. length (HName f) < 2 ^ 63 \<and> length (HValue f) < 2 ^ 63)"
    "sum_list (map (length \<circ> snd) blocks) < 2 ^ 62"
  shows "session e d blocks = Return (map snd blocks)"
proof -
  have e: "enc_ready e" "dynamic_ok (enc_dynTab e)" "ents (dt_table (enc_dynTab e)) = []" "maxSize (enc_dynTab e) = 4096" "maxSizeLimit e = 4096"
    "added (dt_table (enc_dynTab e)) = 0"
    using NewEncoder_ok assms(1) by (metis outcome.inject(1))+
  have d: "decoder_ok d" "inserted d = 0" "ents (dt_table (dec_dynTab d)) = []" "maxSize (dec_dynTab d) = 4096" "allowedMaxSize (dec_dynTab d) = 4096"
    "emitEnabled d" "maxStrLen d = 0" "saveBuf d = []" "firstField d"
    using NewDecoder_ok [of 4096 emitFunc] assms(2) by (metis outcome.inject(1))+
  have "synced e d" using e d by (simp add: synced_def)
  moreover have "\<forall>b \<in> set blocks. block_ok d b"
    using assms(3) d(6,7) by (auto simp: block_ok_def field_ok_def string_ok_def)
  ultimately show ?thesis using session_decodes [OF e(1) _ d(9)] e d assms(4) by simp
qed

theorem HPACK_session_witness:
  "\<exists>e d. NewEncoder = Return e \<and> NewDecoder 4096 (\<lambda>_. True) = Return d \<and>
     session e d [(None, [\<lparr>HName = [97], HValue = [98], Sensitive = False\<rparr>]), (Some 40, [\<lparr>HName = [97], HValue = [98], Sensitive = True\<rparr>])] =
       Return [[\<lparr>HName = [97], HValue = [98], Sensitive = False\<rparr>], [\<lparr>HName = [97], HValue = [98], Sensitive = True\<rparr>]]"
proof -
  obtain e where e: "NewEncoder = Return e" using NewEncoder_ok by blast
  obtain d where d: "NewDecoder 4096 (\<lambda>_. True) = Return d" using NewDecoder_ok by blast
  have "session e d [(None, [\<lparr>HName = [97], HValue = [98], Sensitive = False\<rparr>]), (Some 40, [\<lparr>HName = [97], HValue = [98], Sensitive = True\<rparr>])] =
       Return [[\<lparr>HName = [97], HValue = [98], Sensitive = False\<rparr>], [\<lparr>HName = [97], HValue = [98], Sensitive = True\<rparr>]]"
    by (subst HPACK_session [OF e d]) auto
  then show ?thesis using e d by blast
qed

text \<open>C38: When the encoder's table is first shrunk and then enlarged before a block and keeps an entry, the encoder announces both sizes,
  as the format demands, and the decoder of the same package rejects the block.\<close>

theorem double_resize_rejected:
  assumes "enc_ready e" "synced e d" "firstField d" "saveBuf d = []" "maxSizeLimit e \<le> allowedMaxSize (dec_dynTab d)" "0 \<le> maxStrLen d"
    "v1 < v2" "v2 \<le> maxSizeLimit e" "SetMaxDynamicTableSize e v1 = Return e1" "SetMaxDynamicTableSize e1 v2 = Return e2"
    "dt_size (enc_dynTab e2) > 0" "encode_block e2 (f # fs) = Return (e3, bs)"
  shows "fst (DecodeFull bs d) = Fail (DecodingError SizeUpdateNotFirst)"
proof -
  let ?u1 = "tagged_int 5 0x20 (ucast v1)" and ?u2 = "tagged_int 5 0x20 (ucast v2)"
  obtain rest dt where bs: "bs = ?u1 @ ?u2 @ rest" and dt: "setMaxSize (dec_dynTab d) v1 = Return dt" "dt_size dt > 0"
    by (rule two_updates_written [OF assms(1,2,7,8,9,10,12)]) (use assms(11) in auto)
  let ?fresh = "SetEmitFunc d (\<lambda>_. True)"
  let ?d = "?fresh\<lparr>dec_dynTab := dt, firstField := False\<rparr>"
  have "v1 \<le> allowedMaxSize (dec_dynTab d)" using assms(5,7,8) by simp
  then have "runs ?fresh ?u1 ?d"
    using decodes_as_runs [OF size_update_decodes [of ?fresh v1 dt]] assms(3,6) dt(1) by simp
  then have r: "run_buf (length bs) (?fresh\<lparr>dec_buf := bs\<rparr>) = run_buf (length bs) (?d\<lparr>dec_buf := ?u2 @ rest\<rparr>)"
    unfolding bs by (rule runs_run_buf)
  have ne: "bs \<noteq> []" using bs appendVarInt_nonempty [of 5 "ucast v1"] by (cases "appendVarInt [] 5 (ucast v1)") auto
  have "Decoder_Write bs ?fresh = run_buf (length bs) (?fresh\<lparr>dec_buf := bs\<rparr>)"
    using assms(4) ne by (cases d) (simp add: Decoder_Write_run SetEmitFunc_def)
  also have "\<dots> = (Return (length bs, Some (DecodingError SizeUpdateNotFirst)), ?d\<lparr>dec_buf := ?u2 @ rest, firstField := False\<rparr>)"
    unfolding r by (rule second_update_rejected) (use dt(2) assms(4) in auto)
  finally show ?thesis by (simp add: DecodeFull_def)
qed


theorem double_resize_rejected_witness:
  "\<exists>e d e1 e2 e3 bs. synced e d \<and> SetMaxDynamicTableSize e 40 = Return e1 \<and> SetMaxDynamicTableSize e1 4096 = Return e2 \<and>
     encode_block e2 [\<lparr>HName = [97], HValue = [98], Sensitive = False\<rparr>] = Return (e3, bs) \<and>
     fst (DecodeFull bs d) = Fail (DecodingError SizeUpdateNotFirst)"
proof -
  let ?f = "\<lparr>HName = [97], HValue = [98], Sensitive = False\<rparr>"
  obtain t where t: "dynamic_ok t" "maxSize t = 4096" "ents (dt_table t) = []" "added (dt_table t) = 0"
    by (rule setMaxSize_ok [OF zero_dynamicTable_ok(1), of 4096]) auto
  then have sz: "dt_size t = 0" by (simp add: dynamic_ok_def)
  obtain dt where dt: "dynamic_ok dt" "maxSize dt = 4096" "ents (dt_table dt) = [?f]" "added (dt_table dt) = 1"
    by (rule dynamic_add_ok [OF t(1), of ?f]) (use t sz in \<open>auto simp: HeaderField_Size_def\<close>)
  let ?e = "\<lparr>enc_dynTab = dt, minSize = uint32Max, maxSizeLimit = 4096, tableSizeUpdate = False, enc_buf = []\<rparr>"
  let ?d = "\<lparr>dec_dynTab = dt\<lparr>allowedMaxSize := 4096\<rparr>, emitEnabled = True, maxStrLen = 0, dec_buf = [], saveBuf = [], firstField = True, emits = [],
      emit_keep = (\<lambda>_. True)\<rparr>"
  have s: "enc_ready ?e" "synced ?e ?d" using dt by (auto simp: enc_ready_def synced_def decoder_ok_def dynamic_ok_def)
  obtain dt1 where dt1: "setMaxSize dt 40 = Return dt1" "dynamic_ok dt1" "ents (dt_table dt1) = [?f]" "added (dt_table dt1) = 1"
    by (rule setMaxSize_ok [OF dt(1), of 40]) (use dt in \<open>auto simp: dynamic_ok_def HeaderField_Size_def\<close>)
  obtain dt2 where dt2: "setMaxSize dt1 4096 = Return dt2" "dynamic_ok dt2" "ents (dt_table dt2) = [?f]" "added (dt_table dt2) = 1"
    by (rule setMaxSize_ok [OF dt1(2), of 4096]) (use dt1 in \<open>auto simp: dynamic_ok_def HeaderField_Size_def\<close>)
  let ?e1 = "?e\<lparr>minSize := 40, tableSizeUpdate := True, enc_dynTab := dt1\<rparr>"
  let ?e2 = "?e1\<lparr>enc_dynTab := dt2\<rparr>"
  have e1: "SetMaxDynamicTableSize ?e 40 = Return ?e1" using dt1(1) by (simp add: SetMaxDynamicTableSize_def uint32Max_def)
  have e2: "SetMaxDynamicTableSize ?e1 4096 = Return ?e2" using dt2(1) by (simp add: SetMaxDynamicTableSize_def)
  have pos: "dt_size (enc_dynTab ?e2) > 0" using dt2(2,3) by (simp add: dynamic_ok_def HeaderField_Size_def)
  obtain e3 bs where e3: "encode_block ?e2 [?f] = Return (e3, bs)"
    using encode_field_returns [of ?e2 ?f] dt2(2,4) by auto
  have "fst (DecodeFull bs ?d) = Fail (DecodingError SizeUpdateNotFirst)"
    by (rule double_resize_rejected [OF s _ _ _ _ _ _ e1 e2 pos e3]) simp_all
  then show ?thesis using s(2) e1 e2 e3 by blast
qed

end
