(* ===== verification/HTTP_Guts.thy ===== *)
theory HTTP_Guts
  imports Prelude
begin

text \<open>
  The header field rules of \<open>src/http/httpguts\<close>.  Strings are byte lists.  Go's \<open>range\<close> over a string decodes UTF-8; \<open>runes\<close> is that
  decoding, with the byte index of every rune and the replacement character for invalid bytes.  The lemmas show that the
  checks over runes are checks over bytes, and what it means that a header value contains a token.
\<close>

section \<open>Ranging over a string\<close>

definition in_range :: "nat \<Rightarrow> nat \<Rightarrow> u8 \<Rightarrow> bool" where
  "in_range lo hi b \<longleftrightarrow> lo \<le> unat b \<and> unat b \<le> hi"

text \<open>The range of the second byte, by the first.\<close>

definition second_range :: "u8 \<Rightarrow> u8 \<Rightarrow> bool" where
  "second_range b0 =
     (if unat b0 = 0xE0 then in_range 0xA0 0xBF else if unat b0 = 0xED then in_range 0x80 0x9F
      else if unat b0 = 0xF0 then in_range 0x90 0xBF else if unat b0 = 0xF4 then in_range 0x80 0x8F else in_range 0x80 0xBF)"

text \<open>The first rune of a string that is not empty, and its width.\<close>

fun decode_rune :: "bytes \<Rightarrow> nat \<times> nat" where
  "decode_rune [] = (0xFFFD, 0)"
| "decode_rune (b0 # s) =
     (if unat b0 < 0x80 then (unat b0, 1)
      else case s of
        b1 # s1 \<Rightarrow>
          if in_range 0xC2 0xDF b0 \<and> second_range b0 b1 then ((unat b0 - 0xC0) * 64 + (unat b1 - 0x80), 2)
          else (case s1 of
            b2 # s2 \<Rightarrow>
              if in_range 0xE0 0xEF b0 \<and> second_range b0 b1 \<and> in_range 0x80 0xBF b2
              then ((unat b0 - 0xE0) * 4096 + (unat b1 - 0x80) * 64 + (unat b2 - 0x80), 3)
              else (case s2 of
                b3 # _ \<Rightarrow>
                  if in_range 0xF0 0xF4 b0 \<and> second_range b0 b1 \<and> in_range 0x80 0xBF b2 \<and> in_range 0x80 0xBF b3
                  then ((unat b0 - 0xF0) * 262144 + (unat b1 - 0x80) * 4096 + (unat b2 - 0x80) * 64 + (unat b3 - 0x80), 4)
                  else (0xFFFD, 1)
              | [] \<Rightarrow> (0xFFFD, 1))
          | [] \<Rightarrow> (0xFFFD, 1))
      | [] \<Rightarrow> (0xFFFD, 1))"

lemma decode_rune_width: "s \<noteq> [] \<Longrightarrow> 1 \<le> snd (decode_rune s)"
  by (cases s) (auto split: list.splits)

lemma decode_rune_ascii [simp]: "unat b < 0x80 \<Longrightarrow> decode_rune (b # s) = (unat b, 1)"
  by simp

lemma decode_rune_high: "\<not> unat b < 0x80 \<Longrightarrow> 0x80 \<le> fst (decode_rune (b # s))"
  by (auto simp: second_range_def in_range_def split: list.splits if_splits)

declare decode_rune.simps(2) [simp del]

function runes :: "nat \<Rightarrow> bytes \<Rightarrow> (nat \<times> nat) list" where
  "runes i s = (if s = [] then [] else case decode_rune s of (r, n) \<Rightarrow> (i, r) # runes (i + n) (drop n s))"
  by auto
termination
proof (relation "measure (length \<circ> snd)", goal_cases)
  case (2 i s r n)
  then show ?case using decode_rune_width [of s] by (cases s) (auto dest: sym)
qed simp

declare runes.simps [simp del]

lemma runes_Nil [simp]: "runes i [] = []"
  by (simp add: runes.simps)

text \<open>A check that rejects every rune beyond ASCII is a check of the bytes.\<close>

lemma runes_ascii:
  assumes "\<And>i r. 0x80 \<le> r \<Longrightarrow> \<not> P i r"
  shows "(\<forall>(i, r) \<in> set (runes k s). P i r) \<longleftrightarrow> (\<forall>j < length s. unat (s ! j) < 0x80 \<and> P (k + j) (unat (s ! j)))"
proof (induction s arbitrary: k)
  case (Cons b s)
  show ?case
  proof (cases "unat b < 0x80")
    case True
    have "runes k (b # s) = (k, unat b) # runes (k + 1) s" using True by (simp add: runes.simps [of k "b # s"])
    then show ?thesis using Cons [of "k + 1"] True by (auto simp: nth_Cons less_Suc_eq_0_disj split: nat.splits)
  next
    case False
    obtain r n where r: "decode_rune (b # s) = (r, n)" by force
    have "0x80 \<le> r" using decode_rune_high [OF False, of s] r by simp
    then have "\<not> P k r" by (rule assms)
    moreover have "(k, r) \<in> set (runes k (b # s))" using r by (simp add: runes.simps [of k "b # s"])
    ultimately show ?thesis using False by (metis (mono_tags, lifting) case_prodD length_greater_0_conv list.discI nth_Cons_0)
  qed
qed simp

section \<open>Tokens\<close>

definition tokenChars :: string where
  "tokenChars = ''!#$%&'' @ [CHR 39] @ ''*+-.0123456789ABCDEFGHIJKLMNOPQRSTUWVXYZ^_`abcdefghijklmnopqrstuvwxyz|~''"

definition isTokenTable :: "bool list" where
  "isTokenTable = map (\<lambda>i. i \<in> set (map of_char tokenChars)) [0..<127]"

text \<open>The runes of a string are not negative.\<close>

definition IsTokenRune :: "nat \<Rightarrow> bool" where
  "IsTokenRune r \<longleftrightarrow> r < length isTokenTable \<and> isTokenTable ! r"

definition isNotToken :: "nat \<Rightarrow> bool" where
  "isNotToken r \<longleftrightarrow> \<not> IsTokenRune r"

definition ValidHeaderFieldName :: "bytes \<Rightarrow> bool" where
  "ValidHeaderFieldName v \<longleftrightarrow> length v \<noteq> 0 \<and> (\<forall>(_, r) \<in> set (runes 0 v). IsTokenRune r)"

definition isOWS :: "u8 \<Rightarrow> bool" where
  "isOWS b \<longleftrightarrow> b = 32 \<or> b = 9"

fun trim_front :: "bytes \<Rightarrow> bytes" where
  "trim_front [] = []"
| "trim_front (b # x) = (if isOWS b then trim_front x else b # x)"

function trim_back :: "bytes \<Rightarrow> bytes" where
  "trim_back x = (if length x > 0 \<and> isOWS (x ! (length x - 1)) then trim_back (take (length x - 1) x) else x)"
  by auto
termination by (relation "measure length") auto

declare trim_back.simps [simp del]

definition trimOWS :: "bytes \<Rightarrow> bytes" where
  "trimOWS x = trim_back (trim_front x)"

definition lowerASCII :: "u8 \<Rightarrow> u8" where
  "lowerASCII b = (if 65 \<le> b \<and> b \<le> 90 then b + (97 - 65) else b)"

definition tokenEqual :: "bytes \<Rightarrow> bytes \<Rightarrow> bool" where
  "tokenEqual t1 t2 \<longleftrightarrow> length t1 = length t2 \<and>
     (\<forall>(i, b) \<in> set (runes 0 t1). b < 0x80 \<and> lowerASCII (of_nat b) = lowerASCII (t2 ! i))"

definition IndexByte :: "bytes \<Rightarrow> u8 \<Rightarrow> nat option" where
  "IndexByte s c = (if c \<in> set s then Some (length (takeWhile (\<lambda>b. b \<noteq> c) s)) else None)"

function headerValueContainsToken :: "bytes \<Rightarrow> bytes \<Rightarrow> bool" where
  "headerValueContainsToken v token =
     (case IndexByte v 44 of
        Some comma \<Rightarrow> if tokenEqual (trimOWS (take comma v)) token then True else headerValueContainsToken (drop (comma + 1) v) token
      | None \<Rightarrow> tokenEqual (trimOWS v) token)"
  by auto
termination
  by (relation "measure (length \<circ> fst)") (auto simp: IndexByte_def dest: length_pos_if_in_set intro!: diff_less split: if_splits)

declare headerValueContainsToken.simps [simp del]

fun HeaderValuesContainsToken :: "bytes list \<Rightarrow> bytes \<Rightarrow> bool" where
  "HeaderValuesContainsToken [] token = False"
| "HeaderValuesContainsToken (v # vals) token = (if headerValueContainsToken v token then True else HeaderValuesContainsToken vals token)"

section \<open>Values and hosts\<close>

definition isLWS :: "u8 \<Rightarrow> bool" where
  "isLWS b \<longleftrightarrow> b = 32 \<or> b = 9"

definition isCTL :: "u8 \<Rightarrow> bool" where
  "isCTL b \<longleftrightarrow> b < 32 \<or> b = 0x7F"

definition ValidHeaderFieldValue :: "bytes \<Rightarrow> bool" where
  "ValidHeaderFieldValue v \<longleftrightarrow> (\<forall>b \<in> set v. \<not> (isCTL b \<and> \<not> isLWS b))"

definition hostChars :: string where
  "hostChars = ''0123456789abcdefghijklmnopqrstuvwxyzABCDEFGHIJKLMNOPQRSTUVWXYZ!$%&()*+,-.:;=['' @ [CHR 39] @ '']_~''"

definition validHostByte :: "u8 \<Rightarrow> bool" where
  "validHostByte b \<longleftrightarrow> unat b \<in> set (map of_char hostChars)"

definition ValidHostHeader :: "bytes \<Rightarrow> bool" where
  "ValidHostHeader h \<longleftrightarrow> (\<forall>b \<in> set h. validHostByte b)"

definition isASCII :: "bytes \<Rightarrow> bool" where
  "isASCII s \<longleftrightarrow> (\<forall>b \<in> set s. unat b < 0x80)"

text \<open>The splitting and joining of host and port and the conversion \<open>idna.ToASCII\<close> are arguments.\<close>

definition PunycodeHostPort ::
  "(bytes \<Rightarrow> ('x, bytes \<times> bytes) outcome) \<Rightarrow> (bytes \<Rightarrow> ('e, bytes) outcome) \<Rightarrow> (bytes \<Rightarrow> bytes \<Rightarrow> bytes) \<Rightarrow> bytes \<Rightarrow> ('e, bytes) outcome" where
  "PunycodeHostPort SplitHostPort ToASCII JoinHostPort v =
     (if isASCII v then Return v
      else case (case SplitHostPort v of Return hp \<Rightarrow> Return hp | Fail _ \<Rightarrow> Return (v, []) | Panic \<Rightarrow> Panic) of
        Return (host, port) \<Rightarrow>
          bind_outcome (ToASCII host) (\<lambda>host. if port = [] then Return host else Return (JoinHostPort host port))
      | _ \<Rightarrow> Panic)"

section \<open>Trailers\<close>

text \<open>\<open>textproto.CanonicalMIMEHeaderKey\<close>: a key with a byte that is not a token byte stays as it is; otherwise a letter is
  upper case at the start and after a hyphen, and lower case elsewhere.\<close>

definition upperASCII :: "u8 \<Rightarrow> u8" where
  "upperASCII b = (if 97 \<le> b \<and> b \<le> 122 then b - 32 else b)"

fun canonical_from :: "bool \<Rightarrow> bytes \<Rightarrow> bytes" where
  "canonical_from upper [] = []"
| "canonical_from upper (b # s) = (if upper then upperASCII b else lowerASCII b) # canonical_from (b = 45) s"

definition CanonicalMIMEHeaderKey :: "bytes \<Rightarrow> bytes" where
  "CanonicalMIMEHeaderKey s = (if \<forall>b \<in> set s. IsTokenRune (unat b) then canonical_from True s else s)"

definition badTrailer :: "string list" where
  "badTrailer =
     [''Authorization'', ''Cache-Control'', ''Connection'', ''Content-Encoding'', ''Content-Length'', ''Content-Range'', ''Content-Type'',
      ''Expect'', ''Host'', ''Keep-Alive'', ''Max-Forwards'', ''Pragma'', ''Proxy-Authenticate'', ''Proxy-Authorization'',
      ''Proxy-Connection'', ''Range'', ''Realm'', ''Te'', ''Trailer'', ''Transfer-Encoding'', ''Www-Authenticate'']"

definition ValidTrailerHeader :: "bytes \<Rightarrow> bool" where
  "ValidTrailerHeader name =
     (let name = CanonicalMIMEHeaderKey name in
      if take 3 name = bytes_of ''If-'' \<or> name \<in> set (map bytes_of badTrailer) then False else True)"

section \<open>What the checks mean\<close>

lemma IsTokenRune_ascii: "0x80 \<le> r \<Longrightarrow> \<not> IsTokenRune r"
  by (simp add: IsTokenRune_def isTokenTable_def)

lemma ValidHeaderFieldName_iff: "ValidHeaderFieldName v \<longleftrightarrow> v \<noteq> [] \<and> (\<forall>b \<in> set v. IsTokenRune (unat b))"
proof -
  have "unat b < 0x80" if "IsTokenRune (unat b)" for b :: u8 using IsTokenRune_ascii [of "unat b"] that by force
  then have "(\<forall>(i, r) \<in> set (runes 0 v). IsTokenRune r) \<longleftrightarrow> (\<forall>b \<in> set v. IsTokenRune (unat b))"
    using runes_ascii [of "\<lambda>i r. IsTokenRune r" 0 v] IsTokenRune_ascii by (auto simp: all_set_conv_all_nth)
  then show ?thesis by (simp add: ValidHeaderFieldName_def)
qed

lemma tokenEqual_iff: "tokenEqual t1 t2 \<longleftrightarrow> isASCII t1 \<and> map lowerASCII t1 = map lowerASCII t2"
proof -
  have "(\<forall>(i, b) \<in> set (runes 0 t1). b < 0x80 \<and> lowerASCII (of_nat b) = lowerASCII (t2 ! i)) \<longleftrightarrow>
      (\<forall>j < length t1. unat (t1 ! j) < 0x80 \<and> lowerASCII (t1 ! j) = lowerASCII (t2 ! j))"
    using runes_ascii [of "\<lambda>i b. b < 0x80 \<and> lowerASCII (of_nat b) = lowerASCII (t2 ! i)" 0 t1] by auto
  then show ?thesis by (auto simp: tokenEqual_def isASCII_def all_set_conv_all_nth list_eq_iff_nth_eq)
qed

text \<open>\<open>y\<close> is \<open>x\<close> without the white space around it.\<close>

definition stripped :: "bytes \<Rightarrow> bytes \<Rightarrow> bool" where
  "stripped x y \<longleftrightarrow> (\<exists>a b. x = a @ y @ b \<and> (\<forall>c \<in> set (a @ b). isOWS c)) \<and> (y \<noteq> [] \<longrightarrow> \<not> isOWS (hd y) \<and> \<not> isOWS (last y))"

lemma trim_front_eq: "trim_front x = dropWhile isOWS x"
  by (induction x) simp_all

lemma trim_back_eq: "trim_back x = rev (dropWhile isOWS (rev x))"
proof (induction x rule: rev_induct)
  case (snoc b x)
  then show ?case by (subst trim_back.simps) (simp add: nth_append)
qed (simp add: trim_back.simps)

lemma trimOWS_stripped: "stripped x (trimOWS x)"
proof -
  let ?y = "dropWhile isOWS x"
  let ?z = "rev (dropWhile isOWS (rev ?y))"
  have y: "?y = ?z @ rev (takeWhile isOWS (rev ?y))"
    by (metis rev_append rev_rev_ident takeWhile_dropWhile_id)
  have x: "x = takeWhile isOWS x @ ?z @ rev (takeWhile isOWS (rev ?y))"
    using y takeWhile_dropWhile_id [of isOWS x] by metis
  have "\<not> isOWS (hd ?z)" if "?z \<noteq> []"
  proof -
    have "hd ?z = hd ?y" using y that by (metis hd_append2)
    moreover have "?y \<noteq> []" using y that by (metis Nil_is_append_conv)
    ultimately show ?thesis using hd_dropWhile by metis
  qed
  moreover have "\<not> isOWS (last ?z)" if "?z \<noteq> []" using that by (simp add: last_rev hd_dropWhile)
  moreover have "\<forall>c \<in> set (takeWhile isOWS x @ rev (takeWhile isOWS (rev ?y))). isOWS c" by (auto dest: set_takeWhileD)
  ultimately show ?thesis using x unfolding trimOWS_def trim_front_eq trim_back_eq stripped_def by blast
qed

lemma stripped_unique: "stripped x y \<Longrightarrow> y = trimOWS x"
proof -
  assume s: "stripped x y"
  then obtain a b where x: "x = a @ y @ b" "\<forall>c \<in> set a. isOWS c" "\<forall>c \<in> set b. isOWS c" by (auto simp: stripped_def)
  have y: "y \<noteq> [] \<Longrightarrow> \<not> isOWS (hd y) \<and> \<not> isOWS (last y)" using s by (auto simp: stripped_def)
  have ends: "dropWhile isOWS (u @ w) = (if w = [] then [] else w)" if "\<forall>c \<in> set u. isOWS c" "w \<noteq> [] \<Longrightarrow> \<not> isOWS (hd w)" for u w
    using that by (cases w) (auto simp: dropWhile_append)
  show ?thesis
  proof (cases "y = []")
    case True
    then have "dropWhile isOWS x = []" using x by auto
    then show ?thesis using True unfolding trimOWS_def trim_front_eq trim_back_eq by (simp only: rev.simps dropWhile.simps)
  next
    case False
    then have "dropWhile isOWS x = y @ b" using x(1,2) y ends [of a "y @ b"] by simp
    moreover have "dropWhile isOWS (rev b @ rev y) = rev y" using x(3) False y ends [of "rev b" "rev y"] by (simp add: hd_rev)
    ultimately show ?thesis by (simp add: trimOWS_def trim_front_eq trim_back_eq)
  qed
qed

text \<open>The elements of a comma separated list.\<close>

fun elements :: "bytes \<Rightarrow> bytes list" where
  "elements [] = [[]]"
| "elements (b # v) = (if b = 44 then [] # elements v else (case elements v of [] \<Rightarrow> [[b]] | e # es \<Rightarrow> (b # e) # es))"

lemma elements_plain: "44 \<notin> set v \<Longrightarrow> elements v = [v]"
  by (induction v) auto

lemma elements_comma: "44 \<notin> set a \<Longrightarrow> elements (a @ 44 # v) = a # elements v"
  by (induction a) auto

lemma contains_elements: "headerValueContainsToken v token \<longleftrightarrow> (\<exists>e \<in> set (elements v). tokenEqual (trimOWS e) token)"
proof (induction v token rule: headerValueContainsToken.induct)
  case (1 v token)
  show ?case
  proof (cases "44 \<in> set v")
    case False
    then show ?thesis by (simp add: headerValueContainsToken.simps [of v] IndexByte_def elements_plain)
  next
    case True
    then obtain a r where v: "v = a @ 44 # r" "44 \<notin> set a" using split_list_first by metis
    then have "takeWhile (\<lambda>b. b \<noteq> 44) v = a" by (auto simp: takeWhile_tail takeWhile_eq_all_conv)
    then have i: "IndexByte v 44 = Some (length a)" using True by (simp add: IndexByte_def)
    have "headerValueContainsToken v token \<longleftrightarrow> tokenEqual (trimOWS a) token \<or> headerValueContainsToken r token"
      using i v(1) by (subst headerValueContainsToken.simps) simp
    then show ?thesis using 1 [OF i] v elements_comma [OF v(2), of r] by auto
  qed
qed

section \<open>Properties\<close>

text \<open>C33: A header value contains a token exactly when one of its comma separated elements, without the spaces and tabs around it, is
  the token up to the case of ASCII letters; an element with a byte beyond ASCII is never a token.\<close>

theorem header_tokens:
  "HeaderValuesContainsToken vals token \<longleftrightarrow>
     (\<exists>v \<in> set vals. \<exists>e \<in> set (elements v). \<exists>t. stripped e t \<and> isASCII t \<and> map lowerASCII t = map lowerASCII token)"
proof -
  have "tokenEqual (trimOWS e) token \<longleftrightarrow> (\<exists>t. stripped e t \<and> isASCII t \<and> map lowerASCII t = map lowerASCII token)" for e
    unfolding tokenEqual_iff using trimOWS_stripped [of e] stripped_unique [of e] by metis
  moreover have "HeaderValuesContainsToken vals token \<longleftrightarrow> (\<exists>v \<in> set vals. headerValueContainsToken v token)"
    by (induction vals) simp_all
  ultimately show ?thesis by (simp only: contains_elements)
qed

end
