(* ===== verification/H2_Meta.thy ===== *)
theory H2_Meta
  imports H2_Frame HPACK_Sync HTTP_Guts
begin

text \<open>
  Header lists on top of frames and header compression: \<open>readMetaFrame\<close> of \<open>src/http2/frame.go\<close>, which merges a \<open>HEADERS\<close> frame and its
  \<open>CONTINUATION\<close> frames, decodes the block and checks the fields, and \<open>ReadFrame\<close> with it.  The decoder of a framer is the field
  \<open>ReadMetaHeaders\<close>.  The variables the callback of the decoder captures are the record \<open>Meta\<close>, a function of the fields emitted so far.
  The main results join the three layers: what an encoder writes, cut into frames at any places, is read back as
  the fields, and the two tables stay equal also when the list is refused or cut off.
\<close>

section \<open>Fields\<close>

definition validWireHeaderFieldName :: "bytes \<Rightarrow> bool" where
  "validWireHeaderFieldName v \<longleftrightarrow> length v \<noteq> 0 \<and> (\<forall>(_, r) \<in> set (runes 0 v). IsTokenRune r \<and> \<not> (65 \<le> r \<and> r \<le> 90))"

record Meta =
  meta_Fields :: "HeaderField list"
  meta_Truncated :: bool
  remainSize :: u32
  sawRegular :: bool
  invalid :: "header_error option"

definition meta_start :: "u32 \<Rightarrow> Meta" where
  "meta_start limit = \<lparr>meta_Fields = [], meta_Truncated = False, remainSize = limit, sawRegular = False, invalid = None\<rparr>"

definition HasPrefix :: "bytes \<Rightarrow> bytes \<Rightarrow> bool" where
  "HasPrefix s p \<longleftrightarrow> length s \<ge> length p \<and> take (length p) s = p"

text \<open>One call of the callback: whether emission stays enabled, and the variables after it.\<close>

definition meta_emit :: "HeaderField \<Rightarrow> Meta \<Rightarrow> bool \<times> Meta" where
  "meta_emit hf m =
     (let m = (if \<not> ValidHeaderFieldValue (HValue hf) then m\<lparr>invalid := Some (headerFieldValueError (HName hf))\<rparr> else m);
          isPseudo = HasPrefix (HName hf) [58];
          m = (if isPseudo then if sawRegular m then m\<lparr>invalid := Some errPseudoAfterRegular\<rparr> else m
               else let m = m\<lparr>sawRegular := True\<rparr> in
                 if \<not> validWireHeaderFieldName (HName hf) then m\<lparr>invalid := Some (headerFieldNameError (HName hf))\<rparr> else m) in
      if invalid m \<noteq> None then (False, m)
      else let size = HeaderField_Size hf in
        if size > remainSize m then (False, m\<lparr>meta_Truncated := True\<rparr>)
        else (True, m\<lparr>remainSize := remainSize m - size, meta_Fields := meta_Fields m @ [hf]\<rparr>))"

definition meta_state :: "u32 \<Rightarrow> HeaderField list \<Rightarrow> Meta" where
  "meta_state limit hfs = fold (\<lambda>hf m. snd (meta_emit hf m)) hfs (meta_start limit)"

definition meta_keep :: "u32 \<Rightarrow> HeaderField list \<Rightarrow> bool" where
  "meta_keep limit hfs = (hfs = [] \<or> fst (meta_emit (last hfs) (meta_state limit (butlast hfs))))"

section \<open>Header lists\<close>

record MetaHeaders =
  mh_HeadersFrame :: Frame
  mh_Fields :: "HeaderField list"
  Truncated :: bool

fun PseudoValue :: "HeaderField list \<Rightarrow> bytes \<Rightarrow> bytes" where
  "PseudoValue [] pseudo = []"
| "PseudoValue (hf # hfs) pseudo =
     (if \<not> IsPseudo hf then [] else if drop 1 (HName hf) = pseudo then HValue hf else PseudoValue hfs pseudo)"

fun RegularFields :: "HeaderField list \<Rightarrow> HeaderField list" where
  "RegularFields [] = []"
| "RegularFields (hf # hfs) = (if \<not> IsPseudo hf then hf # hfs else RegularFields hfs)"

fun PseudoFields :: "HeaderField list \<Rightarrow> HeaderField list" where
  "PseudoFields [] = []"
| "PseudoFields (hf # hfs) = (if \<not> IsPseudo hf then [] else hf # PseudoFields hfs)"

definition ascii :: "string \<Rightarrow> bytes" where
  "ascii s = map of_char s"

definition request_names :: "bytes list" where
  "request_names = [ascii '':method'', ascii '':path'', ascii '':scheme'', ascii '':authority'']"

definition response_name :: bytes where
  "response_name = ascii '':status''"

fun check_loop :: "HeaderField list \<Rightarrow> HeaderField list \<Rightarrow> bool \<Rightarrow> bool \<Rightarrow> header_error option" where
  "check_loop before [] isRequest isResponse = (if isRequest \<and> isResponse then Some errMixPseudoHeaderTypes else None)"
| "check_loop before (hf # pf) isRequest isResponse =
     (if HName hf \<notin> set request_names \<and> HName hf \<noteq> response_name then Some (pseudoHeaderError (HName hf))
      else if \<exists>hf2 \<in> set before. HName hf = HName hf2 then Some (duplicatePseudoHeaderError (HName hf))
      else check_loop (before @ [hf]) pf (isRequest \<or> HName hf \<in> set request_names) (isResponse \<or> HName hf = response_name))"

definition checkPseudos :: "HeaderField list \<Rightarrow> header_error option" where
  "checkPseudos hfs = check_loop [] (PseudoFields hfs) False False"

section \<open>Reading header lists\<close>

definition maxHeaderListSize :: "Framer \<Rightarrow> u32" where
  "maxHeaderListSize fr = (if MaxHeaderListSize fr = 0 then push_bit 20 16 else MaxHeaderListSize fr)"

text \<open>An \<open>int\<close> has 64 bits.\<close>

definition maxHeaderStringLen :: "Framer \<Rightarrow> int" where
  "maxHeaderStringLen fr =
     (let v = maxHeaderListSize fr in
      if ucast (ucast v :: u64) = v then sint (ucast v :: u64) else 0)"

definition hdec_Write :: "bytes \<Rightarrow> unit framer" where
  "hdec_Write frag fr =
     (case ReadMetaHeaders fr of
        None \<Rightarrow> (Panic, fr)
      | Some hdec \<Rightarrow>
          (case Decoder_Write frag hdec of
             (Return (_, None), hdec) \<Rightarrow> (Return (), fr\<lparr>ReadMetaHeaders := Some hdec\<rparr>)
           | (Panic, hdec) \<Rightarrow> (Panic, fr\<lparr>ReadMetaHeaders := Some hdec\<rparr>)
           | (_, hdec) \<Rightarrow> (Fail (ConnectionError ErrCodeCompression), fr\<lparr>ReadMetaHeaders := Some hdec\<rparr>)))"

text \<open>A frame takes at least the nine bytes of its header.\<close>

lemma ReadFull_shorter: "ReadFull n fr = (Return b, fr') \<Longrightarrow> length (fr_input fr') + n = length (fr_input fr)"
  by (auto simp: ReadFull_def split: if_splits)

lemma parse_payload_input: "fr_input (snd (parse_payload fh p fr)) = fr_input fr"
  by (auto simp: parse_payload_def checkFrameOrder_def framer_connError_def bind_meth.simps lift_meth_def Let_def
      split: outcome.splits prod.splits h2_error.splits option.splits)

lemma parsed_header: "typeFrameParser t fh p = Return f \<Longrightarrow> Frame_Header f = fh"
  by (auto simp: typeFrameParser_def parseDataFrame_def parseHeadersFrame_def parsePushPromise_def parsePriorityFrame_def parseRSTStreamFrame_def
      parseSettingsFrame_def parsePingFrame_def parseGoAwayFrame_def parseWindowUpdateFrame_def parseContinuationFrame_def parseUnknownFrame_def Let_def
      split: if_splits option.splits)

lemma parse_payload_header: "parse_payload fh p fr = (Return f, fr') \<Longrightarrow> Frame_Header f = fh"
  by (auto simp: parse_payload_def bind_meth_Return_iff lift_meth_def framer_connError_def parsed_header
      split: outcome.splits prod.splits h2_error.splits)

lemma read_one_consumes:
  assumes "read_one fr = (Return f, fr')"
  shows "length (fr_input fr') + 9 + unat (fh_Length (Frame_Header f)) = length (fr_input fr)"
proof -
  let ?fr = "fr\<lparr>errDetail := None, lastFrame := map_option invalidate (lastFrame fr)\<rparr>"
  from assms obtain fh fr1 b fr2 where 1: "readFrameHeader ?fr = (Return fh, fr1)" "ReadFull (unat (fh_Length fh)) fr1 = (Return b, fr2)"
    "parse_payload fh b fr2 = (Return f, fr')"
    by (auto simp: read_one_def bind_meth_Return_iff split: if_splits)
  from 1(1) obtain h where "ReadFull 9 ?fr = (Return h, fr1)" by (auto simp: readFrameHeader_def bind_meth_Return_iff lift_meth_def)
  then show ?thesis
    using ReadFull_shorter [of 9 ?fr h fr1] ReadFull_shorter [OF 1(2)] parse_payload_input [of fh b fr2] 1(3) parse_payload_header [OF 1(3)] by simp
qed

text \<open>The loop of \<open>readMetaFrame\<close>.  \<open>ReadFrame\<close> merges a \<open>HEADERS\<close> frame before it returns, and any frame but a \<open>CONTINUATION\<close> fails the type
  assertion after it; \<open>checkFrameOrder\<close> excludes both.\<close>

function meta_loop :: "Frame \<Rightarrow> unit framer" where
  "meta_loop hc fr =
     (case HeaderBlockFragment hc of
        Return frag \<Rightarrow>
          (case hdec_Write frag fr of
             (Return _, fr1) \<Rightarrow>
               if HeadersEnded hc then (Return (), fr1)
               else (case read_one fr1 of
                   (Return f, fr2) \<Rightarrow> if fh_Type (Frame_Header f) = FrameContinuation then meta_loop f fr2 else (Panic, fr2)
                 | (Fail err, fr2) \<Rightarrow> (Fail err, fr2)
                 | (Panic, fr2) \<Rightarrow> (Panic, fr2))
           | (Fail err, fr1) \<Rightarrow> (Fail err, fr1)
           | (Panic, fr1) \<Rightarrow> (Panic, fr1))
      | Fail (err :: h2_error) \<Rightarrow> (Fail err, fr)
      | Panic \<Rightarrow> (Panic, fr))"
  by pat_completeness auto

lemma hdec_Write_input [simp]: "fr_input (snd (hdec_Write frag fr)) = fr_input fr"
  by (auto simp: hdec_Write_def split: option.splits prod.splits outcome.splits)

termination meta_loop
proof (relation "measure (\<lambda>(_, fr). length (fr_input fr))", simp, clarsimp)
  fix fr frag fr1 fr2 f
  assume w: "(Return (), fr1) = hdec_Write frag fr" and r: "(Return f, fr2) = read_one fr1"
  have "fr_input fr1 = fr_input fr" using hdec_Write_input [of frag fr] unfolding w [symmetric] by simp
  then show "length (fr_input fr2) < length (fr_input fr)" using read_one_consumes [OF r [symmetric]] by simp
qed

definition finish_meta :: "FrameHeader \<Rightarrow> PriorityParam \<Rightarrow> Meta \<Rightarrow> MetaHeaders framer" where
  "finish_meta h p m fr =
     (let fail = (\<lambda>err. (Fail (StreamError (fh_StreamID h) ErrCodeProtocol (Some err)), fr\<lparr>errDetail := Some (HeaderDetail err)\<rparr>)) in
      case invalid m of
        Some err \<Rightarrow> fail err
      | None \<Rightarrow>
          (case checkPseudos (meta_Fields m) of
             Some err \<Rightarrow> fail err
           | None \<Rightarrow> (Return \<lparr>mh_HeadersFrame = HeadersFrame (invalid_header h) p [], mh_Fields = meta_Fields m, Truncated = meta_Truncated m\<rparr>, fr)))"

definition hdec_Close :: "u32 \<Rightarrow> Meta framer" where
  "hdec_Close limit fr =
     (case ReadMetaHeaders fr of
        None \<Rightarrow> (Panic, fr)
      | Some hdec \<Rightarrow>
          (case Decoder_Close hdec of
             (Return _, hdec) \<Rightarrow> (Return (meta_state limit (emits hdec)), fr\<lparr>ReadMetaHeaders := Some hdec\<rparr>)
           | (Fail _, hdec) \<Rightarrow> (Fail (ConnectionError ErrCodeCompression), fr\<lparr>ReadMetaHeaders := Some hdec\<rparr>)
           | (Panic, hdec) \<Rightarrow> (Panic, fr\<lparr>ReadMetaHeaders := Some hdec\<rparr>)))"

text \<open>The deferred call, which installs a callback without effect.\<close>

definition drop_callback :: "'a \<times> Framer \<Rightarrow> 'a \<times> Framer" where
  "drop_callback = apsnd (\<lambda>fr. fr\<lparr>ReadMetaHeaders := map_option (\<lambda>hdec. SetEmitFunc hdec (\<lambda>_. True)) (ReadMetaHeaders fr)\<rparr>)"

definition prepare_hdec :: "Framer \<Rightarrow> Decoder \<Rightarrow> Decoder" where
  "prepare_hdec fr hdec =
     SetEmitFunc (SetMaxStringLength (SetEmitEnabled hdec True) (maxHeaderStringLen fr)) (meta_keep (maxHeaderListSize fr))"

definition readMetaFrame :: "FrameHeader \<Rightarrow> PriorityParam \<Rightarrow> bytes \<Rightarrow> MetaHeaders framer" where
  "readMetaFrame h p frag fr =
     (if AllowIllegalReads fr then (Fail errIllegalMeta, fr)
      else case ReadMetaHeaders fr of
        None \<Rightarrow> (Panic, fr)
      | Some hdec \<Rightarrow>
          drop_callback
            (bind_meth (meta_loop (HeadersFrame h p frag)) (\<lambda>_. bind_meth (hdec_Close (maxHeaderListSize fr)) (finish_meta h p)) (fr\<lparr>ReadMetaHeaders := Some (prepare_hdec fr hdec)\<rparr>)))"

text \<open>What \<open>ReadFrame\<close> returns.\<close>

datatype ReadResult = PlainFrame Frame | MetaHeadersFrame MetaHeaders

definition ReadFrame :: "ReadResult framer" where
  "ReadFrame =
     bind_meth read_one (\<lambda>f fr.
       case f of
         HeadersFrame h p frag \<Rightarrow>
           if ReadMetaHeaders fr \<noteq> None then bind_meth (readMetaFrame h p frag) (\<lambda>mh. lift_meth (Return (MetaHeadersFrame mh))) fr
           else (Return (PlainFrame f), fr)
       | _ \<Rightarrow> (Return (PlainFrame f), fr))"

section \<open>The decoder under any input\<close>

text \<open>Entries inserted and bytes saved are paid for by bytes received.\<close>

definition decoder_load :: "Decoder \<Rightarrow> nat" where
  "decoder_load d = inserted d + length (saveBuf d)"

lemma run_buf_load:
  assumes "loop_ok d" "saveBuf d = []"
  shows "\<exists>n err d'. run_buf len d = (Return (n, err), d') \<and> decoder_ok d' \<and> decoder_load d' \<le> inserted d + length (dec_buf d)"
  using assms
proof (induction "length (dec_buf d)" arbitrary: d rule: less_induct)
  case less
  show ?case
  proof (cases "dec_buf d = []")
    case True
    then show ?thesis using less.prems by (simp add: run_buf_rec loop_ok_def decoder_load_def)
  next
    case False
    obtain r d1 where p: "parseHeaderFieldRepr d = (r, d1)" by force
    note st = loop_ok_step [OF less.prems(1) False p]
    have pos: "1 \<le> length (dec_buf d)" using False by (cases "dec_buf d") auto
    show ?thesis
    proof (cases r)
      case (Return u)
      let ?d = "d1\<lparr>firstField := False\<rparr>"
      have "length (dec_buf ?d) < length (dec_buf d)" using parse_shorter p Return False by simp
      moreover from this obtain n err d' where "run_buf len ?d = (Return (n, err), d')" "decoder_ok d'" "decoder_load d' \<le> inserted d1 + length (dec_buf d1)"
        using less.hyps [of ?d] st(5,7) Return less.prems(2) by auto
      ultimately show ?thesis using p Return False st(3) by (simp add: run_buf_rec [of len d])
    next
      case (Fail e)
      have "d1 = d" if "e = errNeedMore" using that Fail p parse_steady [OF False] by (simp add: steady_def)
      then show ?thesis using p False st(2,3,5) pos Fail less.prems(2)
        by (cases "e = errNeedMore") (auto simp: run_buf_rec [of len d] decoder_ok_def decoder_load_def)
    qed (use st(1) in simp)
  qed
qed

lemma Decoder_Write_load:
  assumes "decoder_ok d" "decoder_load d + length p < 2 ^ 64"
  shows "\<exists>n err d'. Decoder_Write p d = (Return (n, err), d') \<and> decoder_ok d' \<and> decoder_load d' \<le> decoder_load d + length p"
proof (cases "p = []")
  case False
  let ?d = "d\<lparr>dec_buf := saveBuf d @ p, saveBuf := []\<rparr>"
  have "loop_ok ?d" using assms by (simp add: loop_ok_def decoder_ok_def decoder_load_def)
  from run_buf_load [OF this, of "length p"] show ?thesis using False by (simp add: Decoder_Write_run decoder_load_def add.assoc)
qed (use assms in \<open>simp add: Decoder_Write_run\<close>)

lemma hdec_simps [simp]:
  "decoder_ok (SetEmitFunc d k) = decoder_ok d" "decoder_load (SetEmitFunc d k) = decoder_load d" "decoder_ok (prepare_hdec fr d) = decoder_ok d"
  "decoder_load (prepare_hdec fr d) = decoder_load d"
  by (simp_all add: decoder_ok_def decoder_load_def prepare_hdec_def SetEmitFunc_def SetMaxStringLength_def SetEmitEnabled_def)

text \<open>A framer with a decoder: the order of frames, the tables, and that fewer than \<open>2 ^ 64\<close> bytes arrive.\<close>

definition hdec_ok :: "nat \<Rightarrow> Framer \<Rightarrow> bool" where
  "hdec_ok k fr \<longleftrightarrow> (case ReadMetaHeaders fr of None \<Rightarrow> True | Some d \<Rightarrow> decoder_ok d \<and> decoder_load d + k + length (fr_input fr) < 2 ^ 64)"

definition framer_ok :: "Framer \<Rightarrow> bool" where
  "framer_ok fr \<longleftrightarrow> order_inv fr \<and> hdec_ok 0 fr"

lemma hdec_Write_ok:
  assumes "hdec_ok (length frag) fr" "ReadMetaHeaders fr \<noteq> None"
  obtains r d where "hdec_Write frag fr = (r, fr\<lparr>ReadMetaHeaders := Some d\<rparr>)" "r \<noteq> Panic" "hdec_ok 0 (fr\<lparr>ReadMetaHeaders := Some d\<rparr>)"
proof -
  from assms obtain d where d: "ReadMetaHeaders fr = Some d" "decoder_ok d" "decoder_load d + length frag + length (fr_input fr) < 2 ^ 64"
    by (auto simp: hdec_ok_def)
  from Decoder_Write_load [OF d(2), of frag] d(3) obtain n err d' where
    "Decoder_Write frag d = (Return (n, err), d')" "decoder_ok d'" "decoder_load d' \<le> decoder_load d + length frag" by auto
  then show thesis using d that [of _ d'] by (cases err) (auto simp: hdec_Write_def hdec_ok_def)
qed

text \<open>A read leaves the decoder alone, and the fragment it returns is part of the bytes it took.\<close>

lemma ReadMetaHeaders_read_one [simp]: "ReadMetaHeaders (snd (read_one fr)) = ReadMetaHeaders fr" "MaxHeaderListSize (snd (read_one fr)) = MaxHeaderListSize fr"
proof -
  have 1: "ReadMetaHeaders (snd (ReadFull n fr)) = ReadMetaHeaders fr \<and> MaxHeaderListSize (snd (ReadFull n fr)) = MaxHeaderListSize fr" for n fr by (simp add: ReadFull_def)
  have 2: "ReadMetaHeaders (snd (parse_payload fh p fr)) = ReadMetaHeaders fr \<and> MaxHeaderListSize (snd (parse_payload fh p fr)) = MaxHeaderListSize fr" for fh p fr
    by (auto simp: parse_payload_def checkFrameOrder_def framer_connError_def bind_meth.simps lift_meth_def Let_def
        split: outcome.splits prod.splits h2_error.splits option.splits)
  have 3: "ReadMetaHeaders (snd (bind_meth m f fr)) = ReadMetaHeaders fr \<and> MaxHeaderListSize (snd (bind_meth m f fr)) = MaxHeaderListSize fr"
    if "\<And>fr. ReadMetaHeaders (snd (m fr)) = ReadMetaHeaders fr \<and> MaxHeaderListSize (snd (m fr)) = MaxHeaderListSize fr"
      "\<And>a fr. ReadMetaHeaders (snd (f a fr)) = ReadMetaHeaders fr \<and> MaxHeaderListSize (snd (f a fr)) = MaxHeaderListSize fr"
    for m :: "'b framer" and f :: "'b \<Rightarrow> 'c framer" and fr
    using that(1) [of fr] that(2) by (auto simp: bind_meth.simps split: prod.splits outcome.splits)
  show "ReadMetaHeaders (snd (read_one fr)) = ReadMetaHeaders fr" "MaxHeaderListSize (snd (read_one fr)) = MaxHeaderListSize fr"
    unfolding read_one_def readFrameHeader_def by (simp_all add: 1 2 3 lift_meth_def)
qed

lemma read_continuation:
  assumes "order_inv fr" "lastHeaderStream fr \<noteq> 0" "read_one fr = (Return f, fr')"
  obtains h b where "f = ContinuationFrame h b" "HeaderBlockFragment f = Return b" "order_inv fr'" "\<not> HeadersEnded f \<longrightarrow> lastHeaderStream fr' \<noteq> 0"
    "length b + length (fr_input fr') \<le> length (fr_input fr)" "fh_Type h = FrameContinuation"
proof -
  have ok: "order_inv fr'" "frame_ok (maxReadSize fr) f" "follows (lastHeaderStream fr) f = Some (lastHeaderStream fr')"
    using read_one_ok [OF assms(1)] assms(3) by (simp_all add: read_ok_def)
  then obtain h b where f: "f = ContinuationFrame h b" using assms(2) by (cases f) (auto simp: follows_def)
  then show thesis using that [of h b] ok assms(2) read_one_consumes [OF assms(3)]
    by (auto simp: follows_def block_stream_def frame_ok_def checkValid_def split: if_splits)
qed

lemma read_one_input: "length (fr_input (snd (read_one fr))) \<le> length (fr_input fr)"
proof -
  have 1: "length (fr_input (snd (ReadFull n fr))) \<le> length (fr_input fr)" for n fr by (simp add: ReadFull_def)
  have bind: "length (fr_input (snd (bind_meth m f fr))) \<le> length (fr_input fr)"
    if "\<And>fr. length (fr_input (snd (m fr))) \<le> length (fr_input fr)" "\<And>a fr. length (fr_input (snd (f a fr))) \<le> length (fr_input fr)"
    for m :: "'b framer" and f :: "'b \<Rightarrow> 'c framer" and fr
    using that(1) [of fr] by (auto simp: bind_meth.simps split: prod.splits outcome.splits intro: le_trans [OF that(2)])
  have "length (fr_input (snd (bind_meth readFrameHeader (\<lambda>fh fr.
       if fh_Length fh > maxReadSize fr then (Fail ErrFrameTooLarge, fr) else bind_meth (ReadFull (unat (fh_Length fh))) (parse_payload fh) fr) fr))) \<le> length (fr_input fr)" for fr
    unfolding readFrameHeader_def by (intro bind) (simp_all add: 1 lift_meth_def parse_payload_input bind)
  then show ?thesis unfolding read_one_def by (metis (no_types, lifting) Framer.select_convs(1) Framer.surjective Framer.update_convs(2,3))
qed

lemma meta_loop_ok:
  assumes "order_inv fr" "hdec_ok (length frag) fr" "ReadMetaHeaders fr \<noteq> None" "HeaderBlockFragment hc = (Return frag :: (h2_error, bytes) outcome)"
    "\<not> HeadersEnded hc \<longrightarrow> lastHeaderStream fr \<noteq> 0"
  shows "\<exists>r fr'. meta_loop hc fr = (r, fr') \<and> r \<noteq> Panic \<and> order_inv fr' \<and> hdec_ok 0 fr' \<and> ReadMetaHeaders fr' \<noteq> None"
  using assms
proof (induction hc fr arbitrary: frag rule: meta_loop.induct)
  case (1 hc fr)
  obtain r d where w: "hdec_Write frag fr = (r, fr\<lparr>ReadMetaHeaders := Some d\<rparr>)" "r \<noteq> Panic" "hdec_ok 0 (fr\<lparr>ReadMetaHeaders := Some d\<rparr>)"
    using hdec_Write_ok [OF 1(3,4)] by blast
  let ?fr = "fr\<lparr>ReadMetaHeaders := Some d\<rparr>"
  have inv: "order_inv ?fr" using 1(2) by (simp add: order_inv_def)
  show ?case
  proof (cases "r = Return () \<and> \<not> HeadersEnded hc")
    case False
    then show ?thesis using w inv 1(5) by (cases r) (auto simp: meta_loop.simps [of hc fr])
  next
    case True
    obtain r2 fr2 where r2: "read_one ?fr = (r2, fr2)" by force
    have inv2: "order_inv fr2" "r2 \<noteq> Panic" "ReadMetaHeaders fr2 = Some d"
      using read_one_ok [OF inv] r2 ReadMetaHeaders_read_one(1) [of ?fr] by (auto simp: read_ok_def)
    show ?thesis
    proof (cases r2)
      case (Return f)
      have "lastHeaderStream ?fr \<noteq> 0" "read_one ?fr = (Return f, fr2)" using 1(6) True r2 Return by simp_all
      then obtain h b where f: "f = ContinuationFrame h b" "HeaderBlockFragment f = (Return b :: (h2_error, bytes) outcome)" "\<not> HeadersEnded f \<longrightarrow> lastHeaderStream fr2 \<noteq> 0"
        "length b + length (fr_input fr2) \<le> length (fr_input ?fr)" "fh_Type h = FrameContinuation"
        by (rule read_continuation [OF inv])
      have "hdec_ok (length b) fr2" using w(3) f(4) inv2(3) by (simp add: hdec_ok_def)
      then have "\<exists>r fr'. meta_loop f fr2 = (r, fr') \<and> r \<noteq> Panic \<and> order_inv fr' \<and> hdec_ok 0 fr' \<and> ReadMetaHeaders fr' \<noteq> None"
        using 1(1) [OF 1(5) w(1) [symmetric]] True r2 Return f inv2 by auto
      then show ?thesis using w(1) r2 Return True f(1,5) 1(5) by (simp add: meta_loop.simps [of hc fr])
    next
      case (Fail e)
      have "length (fr_input fr2) \<le> length (fr_input ?fr)" using read_one_input [of ?fr] r2 by simp
      then have "hdec_ok 0 fr2" using w(3) inv2(3) by (simp add: hdec_ok_def)
      then show ?thesis using w(1) r2 Fail True 1(5) inv2 by (simp add: meta_loop.simps [of hc fr])
    qed (use inv2 in simp)
  qed
qed

section \<open>What a header list satisfies\<close>

definition list_size :: "HeaderField list \<Rightarrow> nat" where
  "list_size hfs = sum_list (map (\<lambda>hf. unat (HeaderField_Size hf)) hfs)"

text \<open>Valid values and names, pseudo header fields first.\<close>

definition fields_ok :: "HeaderField list \<Rightarrow> bool" where
  "fields_ok hfs \<longleftrightarrow> (\<forall>hf \<in> set hfs. ValidHeaderFieldValue (HValue hf)) \<and>
     (\<forall>hf \<in> set (dropWhile IsPseudo hfs). \<not> IsPseudo hf \<and> validWireHeaderFieldName (HName hf))"

text \<open>Known pseudo header fields, each at most once, of a request or of a response.\<close>

definition pseudos_ok :: "HeaderField list \<Rightarrow> bool" where
  "pseudos_ok pf \<longleftrightarrow> distinct (map HName pf) \<and> (HName ` set pf \<subseteq> set request_names \<or> HName ` set pf \<subseteq> {response_name})"

definition header_list_ok :: "u32 \<Rightarrow> HeaderField list \<Rightarrow> bool" where
  "header_list_ok limit hfs \<longleftrightarrow> fields_ok hfs \<and> pseudos_ok (takeWhile IsPseudo hfs) \<and> list_size hfs \<le> unat limit"

lemma PseudoFields_takeWhile: "PseudoFields hfs = takeWhile IsPseudo hfs"
  by (induction hfs) auto

lemma RegularFields_dropWhile: "RegularFields hfs = dropWhile IsPseudo hfs"
  by (induction hfs) auto

lemma response_not_request: "response_name \<notin> set request_names"
  by (simp add: request_names_def response_name_def ascii_def)

lemma check_loop_None:
  "check_loop before pf a b = None \<longleftrightarrow>
     HName ` set pf \<subseteq> insert response_name (set request_names) \<and> distinct (map HName pf) \<and> HName ` set pf \<inter> HName ` set before = {} \<and>
     \<not> ((a \<or> HName ` set pf \<inter> set request_names \<noteq> {}) \<and> (b \<or> response_name \<in> HName ` set pf))"
proof (induction pf arbitrary: before a b)
  case (Cons hf pf)
  then show ?case using response_not_request by (auto simp: Cons.IH)
qed simp

lemma checkPseudos_None: "checkPseudos hfs = None \<longleftrightarrow> pseudos_ok (takeWhile IsPseudo hfs)"
proof -
  have "A \<subseteq> insert response_name (set request_names) \<and> \<not> (A \<inter> set request_names \<noteq> {} \<and> response_name \<in> A) \<longleftrightarrow> A \<subseteq> set request_names \<or> A \<subseteq> {response_name}" for A
    using response_not_request by blast
  from this [of "HName ` set (takeWhile IsPseudo hfs)"] show ?thesis
    unfolding checkPseudos_def PseudoFields_takeWhile check_loop_None pseudos_ok_def by (simp only: set_simps image_empty Int_empty_right simp_thms) blast
qed

lemma HasPrefix_colon: "HasPrefix (HName hf) [58] \<longleftrightarrow> IsPseudo hf"
  by (cases "HName hf") (auto simp: HasPrefix_def IsPseudo_def)

text \<open>The variables of the callback after each call.\<close>

definition meta_inv :: "u32 \<Rightarrow> Meta \<Rightarrow> bool" where
  "meta_inv limit m \<longleftrightarrow> invalid m = None \<longrightarrow>
     fields_ok (meta_Fields m) \<and> (\<not> sawRegular m \<longrightarrow> (\<forall>hf \<in> set (meta_Fields m). IsPseudo hf)) \<and>
     unat (remainSize m) + list_size (meta_Fields m) = unat limit"

lemma dropWhile_snoc: "\<not> P x \<Longrightarrow> dropWhile P (xs @ [x]) = dropWhile P xs @ [x]"
  by (induction xs) simp_all

lemma fields_ok_regular:
  assumes "fields_ok hfs" "ValidHeaderFieldValue (HValue hf)" "\<not> IsPseudo hf" "validWireHeaderFieldName (HName hf)"
  shows "fields_ok (hfs @ [hf])"
  using assms(1,2,4) assms(3) unfolding fields_ok_def dropWhile_snoc [of IsPseudo, OF assms(3)] by simp

lemma fields_ok_pseudo:
  assumes "fields_ok hfs" "ValidHeaderFieldValue (HValue hf)" "IsPseudo hf" "\<forall>g \<in> set hfs. IsPseudo g"
  shows "fields_ok (hfs @ [hf])"
proof -
  have "dropWhile IsPseudo (hfs @ [hf]) = []" using assms(3,4) by (simp only: dropWhile_eq_Nil_conv) simp
  then show ?thesis using assms(1,2) unfolding fields_ok_def by simp
qed

lemma meta_emit_inv: "meta_inv limit m \<Longrightarrow> meta_inv limit (snd (meta_emit hf m))"
proof -
  assume inv: "meta_inv limit m"
  have size: "unat (remainSize m - HeaderField_Size hf) + unat (HeaderField_Size hf) = unat (remainSize m)" if "\<not> HeaderField_Size hf > remainSize m"
    using that by (simp add: unat_sub word_le_nat_alt linorder_not_less)
  show ?thesis
  proof (cases "invalid m = None \<and> ValidHeaderFieldValue (HValue hf) \<and> (if IsPseudo hf then \<not> sawRegular m else validWireHeaderFieldName (HName hf))")
    case True
    then have "fields_ok (meta_Fields m @ [hf])" using inv by (cases "IsPseudo hf") (simp_all add: meta_inv_def fields_ok_regular fields_ok_pseudo)
    then show ?thesis using inv True size by (auto simp: meta_inv_def meta_emit_def HasPrefix_colon list_size_def Let_def split: if_splits)
  qed (auto simp: meta_inv_def meta_emit_def HasPrefix_colon Let_def split: if_splits)
qed

lemma meta_state_inv: "meta_inv limit (meta_state limit hfs)"
proof -
  have "meta_inv limit m \<Longrightarrow> meta_inv limit (fold (\<lambda>hf m. snd (meta_emit hf m)) hfs m)" for m
    by (induction hfs arbitrary: m) (simp_all add: meta_emit_inv)
  moreover have "meta_inv limit (meta_start limit)" by (simp add: meta_inv_def meta_start_def fields_ok_def list_size_def)
  ultimately show ?thesis by (simp add: meta_state_def)
qed

lemma finish_meta_ok:
  assumes "meta_inv limit m" "finish_meta h p m fr = (r, fr')"
  shows "r \<noteq> Panic \<and> order_inv fr' = order_inv fr \<and> hdec_ok k fr' = hdec_ok k fr \<and> (\<forall>mh. r = Return mh \<longrightarrow> header_list_ok limit (mh_Fields mh))"
  using assms
  by (auto simp: finish_meta_def Let_def header_list_ok_def meta_inv_def checkPseudos_None order_inv_def hdec_ok_def split: option.splits)

lemma hdec_Close_ok:
  assumes "order_inv fr" "hdec_ok 0 fr" "ReadMetaHeaders fr \<noteq> None" "hdec_Close limit fr = (r, fr')"
  shows "r \<noteq> Panic \<and> order_inv fr' \<and> hdec_ok 0 fr' \<and> (\<forall>m. r = Return m \<longrightarrow> meta_inv limit m)"
  using assms meta_state_inv [of limit]
  by (auto simp: hdec_Close_def Decoder_Close_def hdec_ok_def order_inv_def decoder_ok_def decoder_load_def split: if_splits)

text \<open>A result of reading that is no panic and leaves the framer usable; a header list in it is in order.\<close>

definition result_ok :: "u32 \<Rightarrow> ('a \<Rightarrow> HeaderField list) \<Rightarrow> (h2_error, 'a) outcome \<times> Framer \<Rightarrow> bool" where
  "result_ok limit list_of res =
     (case res of (r, fr') \<Rightarrow> r \<noteq> Panic \<and> framer_ok fr' \<and> (\<forall>a. r = Return a \<longrightarrow> header_list_ok limit (list_of a)))"

lemma drop_callback_ok: "result_ok limit list_of res \<Longrightarrow> result_ok limit list_of (drop_callback res)"
  by (auto simp: result_ok_def drop_callback_def framer_ok_def order_inv_def hdec_ok_def split: prod.splits option.splits)

lemma readMetaFrame_ok:
  assumes "order_inv fr" "hdec_ok (length frag) fr" "ReadMetaHeaders fr = Some d" "fh_valid h"
    "\<not> HeadersEnded (HeadersFrame h p frag) \<longrightarrow> lastHeaderStream fr \<noteq> 0"
  shows "result_ok (maxHeaderListSize fr) mh_Fields (readMetaFrame h p frag fr)"
proof -
  let ?fr = "fr\<lparr>ReadMetaHeaders := Some (prepare_hdec fr d)\<rparr>"
  let ?limit = "maxHeaderListSize fr"
  have "order_inv ?fr" "hdec_ok (length frag) ?fr" using assms(1-3) by (simp_all add: order_inv_def hdec_ok_def)
  from meta_loop_ok [OF this, of "HeadersFrame h p frag"] assms(4,5) obtain r fr1 where 1: "meta_loop (HeadersFrame h p frag) ?fr = (r, fr1)"
    "r \<noteq> Panic" "order_inv fr1" "hdec_ok 0 fr1" "ReadMetaHeaders fr1 \<noteq> None" by (auto simp: checkValid_def)
  obtain r2 fr2 where 2: "hdec_Close ?limit fr1 = (r2, fr2)" by force
  note ok2 = hdec_Close_ok [OF 1(3-5) 2]
  have "result_ok ?limit mh_Fields (bind_meth (hdec_Close ?limit) (finish_meta h p) fr1)"
  proof (cases r2)
    case (Return m)
    obtain r3 fr3 where "finish_meta h p m fr2 = (r3, fr3)" by force
    then show ?thesis using Return 2 ok2 finish_meta_ok [of ?limit m h p fr2 r3 fr3 0] by (simp add: result_ok_def framer_ok_def)
  qed (use 2 ok2 in \<open>auto simp: result_ok_def framer_ok_def\<close>)
  then have "result_ok ?limit mh_Fields (bind_meth (meta_loop (HeadersFrame h p frag)) (\<lambda>_. bind_meth (hdec_Close ?limit) (finish_meta h p)) ?fr)"
    using 1 by (cases r) (auto simp: result_ok_def framer_ok_def)
  then show ?thesis using assms(1,3) drop_callback_ok by (simp add: readMetaFrame_def order_inv_def)
qed

fun result_fields :: "ReadResult \<Rightarrow> HeaderField list" where
  "result_fields (PlainFrame _) = []"
| "result_fields (MetaHeadersFrame mh) = mh_Fields mh"

lemma header_list_ok_Nil [simp]: "header_list_ok limit []"
  by (simp add: header_list_ok_def fields_ok_def pseudos_ok_def list_size_def)

lemma ReadFrame_ok: "framer_ok fr \<Longrightarrow> result_ok (maxHeaderListSize fr) result_fields (ReadFrame fr)"
proof -
  assume ok: "framer_ok fr"
  then have inv: "order_inv fr" by (simp add: framer_ok_def)
  obtain r fr1 where 1: "read_one fr = (r, fr1)" by force
  note r1 = read_one_ok [OF inv]
  have keep: "ReadMetaHeaders fr1 = ReadMetaHeaders fr" "MaxHeaderListSize fr1 = MaxHeaderListSize fr" "length (fr_input fr1) \<le> length (fr_input fr)"
    using ReadMetaHeaders_read_one [of fr] read_one_input [of fr] 1 by simp_all
  then have ok1: "framer_ok fr1" using r1 1 ok by (auto simp: framer_ok_def read_ok_def hdec_ok_def split: option.splits)
  show ?thesis
  proof (cases "\<exists>h p frag. r = Return (HeadersFrame h p frag) \<and> ReadMetaHeaders fr1 \<noteq> None")
    case False
    then show ?thesis using 1 ok1 r1
      by (cases r) (auto simp: ReadFrame_def result_ok_def read_ok_def bind_meth.simps split: Frame.splits)
  next
    case True
    then obtain h p frag d where r: "r = Return (HeadersFrame h p frag)" "ReadMetaHeaders fr1 = Some d" by auto
    then have f: "frame_ok (maxReadSize fr) (HeadersFrame h p frag)" "follows (lastHeaderStream fr) (HeadersFrame h p frag) = Some (lastHeaderStream fr1)"
      using r1 1 by (simp_all add: read_ok_def)
    have "length frag + length (fr_input fr1) \<le> length (fr_input fr)" using read_one_consumes [of fr "HeadersFrame h p frag" fr1] 1 r f(1) by (simp add: frame_ok_def)
    then have "hdec_ok (length frag) fr1" using ok r(2) keep by (simp add: framer_ok_def hdec_ok_def)
    moreover have "\<not> HeadersEnded (HeadersFrame h p frag) \<longrightarrow> lastHeaderStream fr1 \<noteq> 0" "fh_valid h"
      using f by (auto simp: follows_def block_stream_def frame_ok_def split: if_splits)
    ultimately have "result_ok (maxHeaderListSize fr1) mh_Fields (readMetaFrame h p frag fr1)"
      using readMetaFrame_ok [OF _ _ r(2)] ok1 by (simp add: framer_ok_def)
    moreover have "maxHeaderListSize fr1 = maxHeaderListSize fr" using keep by (simp add: maxHeaderListSize_def)
    ultimately show ?thesis using 1 r
      by (auto simp: ReadFrame_def result_ok_def bind_meth.simps [of "readMetaFrame h p frag"] lift_meth_def split: prod.splits outcome.splits)
  qed
qed

section \<open>Encoder, frames and decoder\<close>

text \<open>The calls of the callback for the fields of a block, until it disables emission.\<close>

fun meta_run :: "HeaderField list \<Rightarrow> Meta \<Rightarrow> Meta" where
  "meta_run [] m = m"
| "meta_run (hf # hfs) m = (case meta_emit hf m of (keep, m') \<Rightarrow> if keep then meta_run hfs m' else m')"

lemma emit_disabled: "fold (emit_one k) hfs (False, es) = (False, es)"
  by (induction hfs) (simp_all add: emit_one_def)

lemma meta_state_snoc: "meta_state limit (es @ [hf]) = snd (meta_emit hf (meta_state limit es))"
  by (simp add: meta_state_def)

lemma meta_keep_snoc: "meta_keep limit (es @ [hf]) = fst (meta_emit hf (meta_state limit es))"
  by (simp add: meta_keep_def)

lemma emitted_meta: "meta_state limit (snd (fold (emit_one (meta_keep limit)) hfs (True, es))) = meta_run hfs (meta_state limit es)"
proof (induction hfs arbitrary: es)
  case (Cons hf hfs)
  obtain keep m' where e: "meta_emit hf (meta_state limit es) = (keep, m')" by force
  have "emit_one (meta_keep limit) hf (True, es) = (keep, es @ [hf])" "meta_state limit (es @ [hf]) = m'"
    using e by (simp_all add: emit_one_def meta_keep_snoc meta_state_snoc)
  then show ?case using e Cons.IH [of "es @ [hf]"] by (cases keep) (simp_all add: emit_disabled)
qed simp

text \<open>The callback in one step: an invalid field stops it, a field too large for what is left truncates the list.\<close>

definition field_follows :: "bool \<Rightarrow> HeaderField \<Rightarrow> bool" where
  "field_follows saw hf \<longleftrightarrow> ValidHeaderFieldValue (HValue hf) \<and> (if IsPseudo hf then \<not> saw else validWireHeaderFieldName (HName hf))"

lemma meta_emit_cases:
  assumes "invalid m = None"
  shows "\<not> field_follows (sawRegular m) hf \<Longrightarrow> \<exists>m'. meta_emit hf m = (False, m') \<and> invalid m' \<noteq> None"
    "field_follows (sawRegular m) hf \<Longrightarrow> meta_emit hf m =
      (let m' = m\<lparr>sawRegular := sawRegular m \<or> \<not> IsPseudo hf\<rparr> in
       if HeaderField_Size hf > remainSize m then (False, m'\<lparr>meta_Truncated := True\<rparr>)
       else (True, m'\<lparr>remainSize := remainSize m - HeaderField_Size hf, meta_Fields := meta_Fields m @ [hf]\<rparr>))"
proof -
  show "\<exists>m'. meta_emit hf m = (False, m') \<and> invalid m' \<noteq> None" if "\<not> field_follows (sawRegular m) hf"
    using that assms by (auto simp: field_follows_def meta_emit_def HasPrefix_colon Let_def split: if_splits)
  have "m\<lparr>sawRegular := sawRegular m\<rparr> = m" by simp
  then show "meta_emit hf m =
      (let m' = m\<lparr>sawRegular := sawRegular m \<or> \<not> IsPseudo hf\<rparr> in
       if HeaderField_Size hf > remainSize m then (False, m'\<lparr>meta_Truncated := True\<rparr>)
       else (True, m'\<lparr>remainSize := remainSize m - HeaderField_Size hf, meta_Fields := meta_Fields m @ [hf]\<rparr>))"
    if "field_follows (sawRegular m) hf"
    using that assms by (auto simp: field_follows_def meta_emit_def HasPrefix_colon Let_def split: if_splits)
qed

text \<open>The longest prefix of a list within a limit on its size.\<close>

fun fitting :: "nat \<Rightarrow> HeaderField list \<Rightarrow> HeaderField list" where
  "fitting n [] = []"
| "fitting n (hf # hfs) = (if unat (HeaderField_Size hf) \<le> n then hf # fitting (n - unat (HeaderField_Size hf)) hfs else [])"

definition fields_follow :: "bool \<Rightarrow> HeaderField list \<Rightarrow> bool" where
  "fields_follow saw hfs \<longleftrightarrow> fields_ok hfs \<and> (saw \<longrightarrow> (\<forall>hf \<in> set hfs. \<not> IsPseudo hf))"

lemma fields_follow_Nil [simp]: "fields_follow saw []"
  by (simp add: fields_follow_def fields_ok_def)

lemma fields_follow_Cons: "fields_follow saw (hf # hfs) \<longleftrightarrow> field_follows saw hf \<and> fields_follow (saw \<or> \<not> IsPseudo hf) hfs"
proof (cases "IsPseudo hf")
  case False
  have "dropWhile IsPseudo hfs = hfs" if "\<forall>g \<in> set hfs. \<not> IsPseudo g" using that by (cases hfs) simp_all
  then show ?thesis using False by (auto simp: fields_follow_def field_follows_def fields_ok_def)
qed (auto simp: fields_follow_def field_follows_def fields_ok_def)

text \<open>What the callback keeps of a list, precisely: it looks at the fields that fit and the one after them.\<close>

lemma meta_run_exact:
  "invalid m = None \<Longrightarrow>
   if fields_follow (sawRegular m) (take (Suc (length (fitting (unat (remainSize m)) hfs))) hfs)
   then invalid (meta_run hfs m) = None \<and> meta_Fields (meta_run hfs m) = meta_Fields m @ fitting (unat (remainSize m)) hfs \<and>
     meta_Truncated (meta_run hfs m) = (meta_Truncated m \<or> fitting (unat (remainSize m)) hfs \<noteq> hfs)
   else invalid (meta_run hfs m) \<noteq> None"
proof (induction hfs arbitrary: m)
  case (Cons hf hfs)
  show ?case
  proof (cases "field_follows (sawRegular m) hf")
    case False
    then show ?thesis using meta_emit_cases(1) [OF Cons.prems False] by (auto simp: fields_follow_Cons)
  next
    case True
    note emit = meta_emit_cases(2) [OF Cons.prems True]
    show ?thesis
    proof (cases "HeaderField_Size hf > remainSize m")
      case True
      then show ?thesis using emit \<open>field_follows (sawRegular m) hf\<close> Cons.prems
        by (simp add: Let_def fields_follow_Cons word_less_nat_alt)
    next
      case False
      let ?m = "m\<lparr>sawRegular := sawRegular m \<or> \<not> IsPseudo hf, remainSize := remainSize m - HeaderField_Size hf, meta_Fields := meta_Fields m @ [hf]\<rparr>"
      have "unat (remainSize m - HeaderField_Size hf) = unat (remainSize m) - unat (HeaderField_Size hf)" "unat (HeaderField_Size hf) \<le> unat (remainSize m)"
        using False by (simp_all add: unat_sub word_le_nat_alt linorder_not_less)
      moreover have "meta_emit hf m = (True, ?m)" using emit False by (simp add: Let_def)
      ultimately show ?thesis using Cons.IH [of ?m] Cons.prems True by (simp add: fields_follow_Cons)
    qed
  qed
qed simp

text \<open>The calls that send a header block cut into parts.\<close>

fun continuation_calls :: "u32 \<Rightarrow> bytes list \<Rightarrow> write_call list" where
  "continuation_calls sid [] = []"
| "continuation_calls sid (frag # frags) = CallContinuation sid (frags = []) frag # continuation_calls sid frags"

fun block_calls :: "HeadersFrameParam \<Rightarrow> bytes list \<Rightarrow> write_call list" where
  "block_calls p [] = []"
| "block_calls p (frag # frags) = CallHeaders (p\<lparr>hp_BlockFragment := frag, hp_EndHeaders := (frags = [])\<rparr>) # continuation_calls (hp_StreamID p) frags"

text \<open>Calls the write methods accept and the reader has room for.\<close>

definition sendable :: "u32 \<Rightarrow> write_call \<Rightarrow> bool" where
  "sendable limit c \<longleftrightarrow> legal_call c \<and> length (call_payload c) < 2 ^ 24 \<and> of_nat (length (call_payload c)) \<le> limit"

text \<open>The reader between two reads: the bytes to come, the stream of an unfinished block and the decoder.\<close>

definition reader_at :: "Framer \<Rightarrow> Framer \<Rightarrow> bytes \<Rightarrow> u32 \<Rightarrow> bool" where
  "reader_at fr0 fr input sid \<longleftrightarrow> order_inv fr \<and> fr_input fr = input \<and> lastHeaderStream fr = sid \<and>
     maxReadSize fr = maxReadSize fr0 \<and> MaxHeaderListSize fr = MaxHeaderListSize fr0"

lemma reader_at_update [simp]:
  "reader_at fr0 (fr\<lparr>ReadMetaHeaders := d\<rparr>) input sid = reader_at fr0 fr input sid"
  by (simp add: reader_at_def order_inv_def)

lemma reader_at_read:
  assumes "reader_at fr0 fr (call_bytes c @ rest) s" "sendable (maxReadSize fr0) c" "readable_call c" "follows s (sent_frame c) = Some s'"
  obtains fr' where "read_one fr = (Return (sent_frame c), fr')" "reader_at fr0 fr' rest s'" "ReadMetaHeaders fr' = ReadMetaHeaders fr"
proof -
  let ?fr = "fr\<lparr>errDetail := None, lastFrame := Some (sent_frame c), fr_input := rest, lastHeaderStream := s'\<rparr>"
  have "read_one fr = (Return (sent_frame c), ?fr)" using read_call [of c fr rest] assms by (simp add: reader_at_def sendable_def)
  moreover have "reader_at fr0 ?fr rest s'" using assms(1) by (simp add: reader_at_def order_inv_def)
  ultimately show thesis using that by simp
qed

lemma hdec_Write_part:
  assumes "ReadMetaHeaders fr = Some d" "awaits d (frag @ bs) d'"
  obtains d1 where "hdec_Write frag fr = (Return (), fr\<lparr>ReadMetaHeaders := Some d1\<rparr>)" "awaits d1 bs d'"
  using Decoder_Write_part [OF assms(2)] assms(1) that by (auto simp: hdec_Write_def)

lemma HeadersEnded_continuation: "HeadersEnded (sent_frame (CallContinuation sid e frag)) = e"
  by (cases e) (simp_all add: HeadersEnded_def flag_def Flags_Has_def)

lemma meta_loop_parts:
  assumes "HeaderBlockFragment hc = (Return frag :: (h2_error, bytes) outcome)" "HeadersEnded hc = (frags = [])" "validStreamID sid"
    "reader_at fr0 fr (concat (map call_bytes (continuation_calls sid frags)) @ rest) (if frags = [] then 0 else sid)"
    "\<forall>c \<in> set (continuation_calls sid frags). sendable (maxReadSize fr0) c" "ReadMetaHeaders fr = Some d" "awaits d (frag @ concat frags) d'"
  shows "\<exists>fr' d1. meta_loop hc fr = (Return (), fr') \<and> reader_at fr0 fr' rest 0 \<and> ReadMetaHeaders fr' = Some d1 \<and> awaits d1 [] d'"
  using assms
proof (induction frags arbitrary: hc frag fr d)
  case Nil
  from Nil.prems(7) have "awaits d (frag @ []) d'" by simp
  from hdec_Write_part [OF Nil.prems(6) this] obtain d1 where "hdec_Write frag fr = (Return (), fr\<lparr>ReadMetaHeaders := Some d1\<rparr>)" "awaits d1 [] d'" .
  then show ?case using Nil.prems(1,2,4) by (simp add: meta_loop.simps [of hc])
next
  case (Cons frag1 frags)
  let ?c = "CallContinuation sid (frags = []) frag1"
  let ?f = "sent_frame ?c"
  have sid: "sid AND 0x7FFFFFFF = sid" "sid \<noteq> 0" using valid_stream [OF Cons.prems(3)] by simp_all
  obtain d1 where w: "hdec_Write frag fr = (Return (), fr\<lparr>ReadMetaHeaders := Some d1\<rparr>)" "awaits d1 (frag1 @ concat frags) d'"
    by (rule hdec_Write_part [OF Cons.prems(6), of frag "frag1 @ concat frags" d']) (use Cons.prems(7) in simp)
  have fl: "follows sid ?f = Some (if frags = [] then 0 else sid)"
    using sid by (simp add: follows_def block_stream_def HeadersEnded_def)
  obtain fr2 where r: "read_one (fr\<lparr>ReadMetaHeaders := Some d1\<rparr>) = (Return ?f, fr2)"
    "reader_at fr0 fr2 (concat (map call_bytes (continuation_calls sid frags)) @ rest) (if frags = [] then 0 else sid)" "ReadMetaHeaders fr2 = Some d1"
    by (rule reader_at_read [of fr0 "fr\<lparr>ReadMetaHeaders := Some d1\<rparr>" ?c _ sid "if frags = [] then 0 else sid"])
      (use Cons.prems(4,5) fl in \<open>simp_all only: reader_at_update, simp_all\<close>)
  have "\<exists>fr' d1. meta_loop ?f fr2 = (Return (), fr') \<and> reader_at fr0 fr' rest 0 \<and> ReadMetaHeaders fr' = Some d1 \<and> awaits d1 [] d'"
    by (rule Cons.IH [OF _ HeadersEnded_continuation Cons.prems(3) r(2) _ r(3) w(2)]) (use Cons.prems(5) in \<open>simp_all add: checkValid_def\<close>)
  then show ?case using w(1) r(1) Cons.prems(1,2) by (simp add: meta_loop.simps [of hc])
qed

text \<open>What \<open>ReadFrame\<close> makes of the state of the callback.\<close>

definition meta_outcome :: "HeadersFrameParam \<Rightarrow> FrameHeader \<Rightarrow> Meta \<Rightarrow> (h2_error, ReadResult) outcome" where
  "meta_outcome p h m =
     (case (case invalid m of Some err \<Rightarrow> Some err | None \<Rightarrow> checkPseudos (meta_Fields m)) of
        Some err \<Rightarrow> Fail (StreamError (fh_StreamID h) ErrCodeProtocol (Some err))
      | None \<Rightarrow> Return (MetaHeadersFrame
          \<lparr>mh_HeadersFrame = HeadersFrame (invalid_header h) (hp_Priority p) [], mh_Fields = meta_Fields m, Truncated = meta_Truncated m\<rparr>))"

lemma finish_meta_outcome:
  "\<exists>detail. bind_meth (finish_meta h (hp_Priority p) m) (\<lambda>mh. lift_meth (Return (MetaHeadersFrame mh))) fr = (meta_outcome p h m, fr\<lparr>errDetail := detail\<rparr>)"
proof -
  have "fr = fr\<lparr>errDetail := errDetail fr\<rparr>" by simp
  then show ?thesis
    by (cases "invalid m"; cases "checkPseudos (meta_Fields m)")
      (auto simp: finish_meta_def meta_outcome_def bind_meth.simps lift_meth_def Let_def intro: exI [of _ "errDetail fr"])
qed

lemma prepare_hdec_simps [simp]:
  "dec_dynTab (prepare_hdec fr d) = dec_dynTab d" "firstField (prepare_hdec fr d) = firstField d" "saveBuf (prepare_hdec fr d) = saveBuf d"
  "emission (prepare_hdec fr d) = (True, [])" "emit_keep (prepare_hdec fr d) = meta_keep (maxHeaderListSize fr)" "maxStrLen (prepare_hdec fr d) = maxHeaderStringLen fr"
  by (simp_all add: prepare_hdec_def SetEmitFunc_def SetMaxStringLength_def SetEmitEnabled_def emission_def)

lemma prepare_hdec_same: "MaxHeaderListSize fr = MaxHeaderListSize fr0 \<Longrightarrow> prepare_hdec fr d = prepare_hdec fr0 d"
  by (simp add: prepare_hdec_def maxHeaderStringLen_def maxHeaderListSize_def)

lemma drop_callback_bind: "bind_meth (\<lambda>fr. drop_callback (m fr)) (\<lambda>a. lift_meth (Return (g a))) fr = drop_callback (bind_meth m (\<lambda>a. lift_meth (Return (g a))) fr)"
  by (auto simp: bind_meth.simps drop_callback_def lift_meth_def split: prod.splits outcome.splits)

lemma bind_meth_assoc: "bind_meth (bind_meth m f) g fr = bind_meth m (\<lambda>a. bind_meth (f a) g) fr"
  by (auto simp: bind_meth.simps split: prod.splits outcome.splits)

lemma block_read:
  assumes "reader_at fr0 fr (concat (map call_bytes (block_calls p (frag # frags))) @ rest) 0"
    "\<forall>c \<in> set (block_calls p (frag # frags)). sendable (maxReadSize fr0) c"
    "ReadMetaHeaders fr = Some d" "awaits (prepare_hdec fr0 d) (concat (frag # frags)) d'"
  shows "\<exists>fr' dd. ReadFrame fr = (meta_outcome p (call_header (hd (block_calls p (frag # frags)))) (meta_state (maxHeaderListSize fr0) (emits d')), fr') \<and>
    reader_at fr0 fr' rest 0 \<and> ReadMetaHeaders fr' = Some dd \<and> dec_dynTab dd = dec_dynTab d' \<and> firstField dd \<and> saveBuf dd = []"
proof -
  let ?q = "p\<lparr>hp_BlockFragment := frag, hp_EndHeaders := (frags = [])\<rparr>"
  let ?c = "CallHeaders ?q"
  let ?f = "sent_frame ?c"
  let ?h = "call_header ?c"
  have sid: "validStreamID (hp_StreamID p)" "hp_StreamID p AND 0x7FFFFFFF = hp_StreamID p"
    using assms(2) valid_stream [of "hp_StreamID p"] by (simp_all add: sendable_def)
  have ended: "HeadersEnded ?f = (frags = [])" by (simp add: HeadersEnded_def)
  have fl: "follows 0 ?f = Some (if frags = [] then 0 else hp_StreamID p)"
    using sid ended by (simp add: follows_def block_stream_def)
  let ?rest = "concat (map call_bytes (continuation_calls (hp_StreamID p) frags)) @ rest"
  obtain fr1 where 1: "read_one fr = (Return ?f, fr1)" "reader_at fr0 fr1 ?rest (if frags = [] then 0 else hp_StreamID p)" "ReadMetaHeaders fr1 = Some d"
    by (rule reader_at_read [of fr0 fr ?c ?rest 0 "if frags = [] then 0 else hp_StreamID p"]) (use assms fl in auto)
  have lim: "prepare_hdec fr1 d = prepare_hdec fr0 d" "maxHeaderListSize fr1 = maxHeaderListSize fr0"
    using 1(2) by (auto simp: reader_at_def maxHeaderListSize_def intro: prepare_hdec_same)
  obtain fr2 d1 where 2: "meta_loop ?f (fr1\<lparr>ReadMetaHeaders := Some (prepare_hdec fr0 d)\<rparr>) = (Return (), fr2)" "reader_at fr0 fr2 rest 0"
    "ReadMetaHeaders fr2 = Some d1" "awaits d1 [] d'"
    using meta_loop_parts [of ?f frag frags "hp_StreamID p" fr0 "fr1\<lparr>ReadMetaHeaders := Some (prepare_hdec fr0 d)\<rparr>" rest "prepare_hdec fr0 d" d']
      1(2) sid(1) ended assms(2,4) by (auto simp: checkValid_def)
  obtain b where d1: "saveBuf d1 = []" "d' = d1\<lparr>dec_buf := b\<rparr>" using awaits_done [OF 2(4)] by blast
  let ?fr3 = "fr2\<lparr>ReadMetaHeaders := Some (d1\<lparr>firstField := True\<rparr>)\<rparr>"
  have 3: "hdec_Close (maxHeaderListSize fr0) fr2 = (Return (meta_state (maxHeaderListSize fr0) (emits d')), ?fr3)"
    using 2(3) d1 by (simp add: hdec_Close_def Decoder_Close_def)
  obtain detail where 4: "bind_meth (finish_meta ?h (hp_Priority p) (meta_state (maxHeaderListSize fr0) (emits d'))) (\<lambda>mh. lift_meth (Return (MetaHeadersFrame mh))) ?fr3 =
      (meta_outcome p ?h (meta_state (maxHeaderListSize fr0) (emits d')), ?fr3\<lparr>errDetail := detail\<rparr>)"
    using finish_meta_outcome by blast
  let ?fr4 = "?fr3\<lparr>errDetail := detail, ReadMetaHeaders := Some (SetEmitFunc (d1\<lparr>firstField := True\<rparr>) (\<lambda>_. True))\<rparr>"
  have meta: "readMetaFrame ?h (hp_Priority p) frag fr1 = drop_callback (bind_meth (hdec_Close (maxHeaderListSize fr0)) (finish_meta ?h (hp_Priority p)) fr2)"
    using 1(2,3) 2(1) lim by (simp add: readMetaFrame_def reader_at_def order_inv_def)
  have "ReadFrame fr = drop_callback (bind_meth (bind_meth (hdec_Close (maxHeaderListSize fr0)) (finish_meta ?h (hp_Priority p))) (\<lambda>mh. lift_meth (Return (MetaHeadersFrame mh))) fr2)"
    unfolding drop_callback_bind [symmetric] using 1(1,3) meta by (simp add: ReadFrame_def bind_meth.simps)
  also have "\<dots> = (meta_outcome p ?h (meta_state (maxHeaderListSize fr0) (emits d')), ?fr4)"
    unfolding bind_meth_assoc using 3 4 by (simp add: drop_callback_def)
  finally show ?thesis using 2(2) d1 by (auto simp: reader_at_def order_inv_def)
qed

text \<open>A header block to send: stream, priority and flags; the fields; and how its bytes are cut.\<close>

type_synonym header_block = "HeadersFrameParam \<times> HeaderField list \<times> (bytes \<Rightarrow> bytes list)"

fun send_blocks :: "Encoder \<Rightarrow> header_block list \<Rightarrow> (Encoder \<times> write_call list) hpack" where
  "send_blocks e [] = Return (e, [])"
| "send_blocks e ((p, fs, cuts) # blocks) =
     bind_outcome (encode_block e fs) (\<lambda>(e1, bs).
     bind_outcome (send_blocks e1 blocks) (\<lambda>(e2, calls).
     Return (e2, block_calls p (cuts bs) @ calls)))"

text \<open>\<open>n\<close> reads, whatever they return.\<close>

fun read_results :: "nat \<Rightarrow> Framer \<Rightarrow> (h2_error, ReadResult) outcome list \<times> Framer" where
  "read_results 0 fr = ([], fr)"
| "read_results (Suc n) fr = (case ReadFrame fr of (r, fr1) \<Rightarrow> case read_results n fr1 of (rs, fr2) \<Rightarrow> (r # rs, fr2))"

text \<open>What a receiver with a limit on the size of header lists gets for a block: the longest prefix within the limit, marked as
  truncated exactly if it is not the whole list; or a stream error, exactly if among the fields of this prefix and the
  one after it there is one that is invalid or out of order, or if its pseudo header fields are not those of one message.\<close>

definition delivered :: "u32 \<Rightarrow> header_block \<Rightarrow> (h2_error, ReadResult) outcome \<Rightarrow> bool" where
  "delivered limit block r =
     (case block of (p, fs, _) \<Rightarrow>
        let kept = fitting (unat limit) fs in
        if fields_ok (take (Suc (length kept)) fs) \<and> pseudos_ok (takeWhile IsPseudo kept)
        then \<exists>h. r = Return (MetaHeadersFrame \<lparr>mh_HeadersFrame = HeadersFrame h (hp_Priority p) [], mh_Fields = kept, Truncated = (kept \<noteq> fs)\<rparr>) \<and>
          fh_StreamID h = hp_StreamID p \<and> StreamEnded (HeadersFrame h (hp_Priority p) []) = hp_EndStream p
        else \<exists>err. r = Fail (StreamError (hp_StreamID p) ErrCodeProtocol (Some err)))"

lemma meta_outcome_delivered:
  assumes "fh_StreamID h = hp_StreamID p" "StreamEnded (HeadersFrame h (hp_Priority p) []) = hp_EndStream p"
  shows "delivered limit (p, fs, cuts) (meta_outcome p h (meta_run fs (meta_start limit)))"
proof -
  let ?kept = "fitting (unat limit) fs"
  let ?m = "meta_run fs (meta_start limit)"
  note run = meta_run_exact [of "meta_start limit" fs]
  show ?thesis
  proof (cases "fields_ok (take (Suc (length ?kept)) fs)")
    case True
    then have "invalid ?m = None" "meta_Fields ?m = ?kept" "meta_Truncated ?m = (?kept \<noteq> fs)"
      using run by (simp_all add: meta_start_def fields_follow_def)
    then show ?thesis using True assms
      by (cases "checkPseudos ?kept") (auto simp: meta_outcome_def delivered_def invalid_header_def StreamEnded_def simp flip: checkPseudos_None)
  next
    case False
    then have "invalid ?m \<noteq> None" using run by (simp add: meta_start_def fields_follow_def)
    then show ?thesis using False assms by (auto simp: meta_outcome_def delivered_def)
  qed
qed

lemma maxHeaderStringLen_limit: "maxHeaderStringLen fr = int (unat (maxHeaderListSize fr))" "0 < unat (maxHeaderListSize fr)" "unat (maxHeaderListSize fr) < 2 ^ 32"
proof -
  let ?v = "maxHeaderListSize fr"
  have "ucast (ucast ?v :: u64) = ?v" by (rule bit_word_eqI) (simp add: bit_simps)
  moreover have "sint (ucast ?v :: u64) = uint ?v"
  proof -
    have u: "0 \<le> uint ?v" "uint ?v < 2 ^ 32" using uint_lt2p [of ?v] by simp_all
    then have "uint (ucast ?v :: u64) = uint ?v" by (simp add: unsigned_ucast_eq take_bit_int_eq_self)
    moreover have "- (2 ^ 63) \<le> uint ?v" "uint ?v < 2 ^ 63" using u order_trans [of "- (2 ^ 63)" 0 "uint ?v"] by auto
    then have "signed_take_bit 63 (uint ?v) = uint ?v" by (rule signed_take_bit_int_eq_self)
    ultimately show ?thesis by (simp add: sint_uint)
  qed
  ultimately show "maxHeaderStringLen fr = int (unat ?v)" by (simp add: maxHeaderStringLen_def Let_def)
  show "0 < unat ?v" by (simp add: maxHeaderListSize_def unat_gt_0)
  have "unat ?v < 2 ^ LENGTH(32)" by (rule unsigned_less)
  then show "unat ?v < 2 ^ 32" by simp
qed

lemma field_ok_prepared:
  "length (HName f) \<le> unat (maxHeaderListSize fr) \<Longrightarrow> length (HValue f) \<le> unat (maxHeaderListSize fr) \<Longrightarrow> field_ok (prepare_hdec fr d) f"
  using maxHeaderStringLen_limit [of fr] by (simp add: field_ok_def string_ok_def del: of_nat_unat)

text \<open>One block: it is delivered, and the tables agree afterwards.\<close>

lemma block_delivered:
  assumes "enc_ready e" "synced e d" "saveBuf d = []" "ReadMetaHeaders fr = Some d" "encode_block e fs = Return (e', bs)"
    "\<forall>f \<in> set fs. length (HName f) \<le> unat (maxHeaderListSize fr0) \<and> length (HValue f) \<le> unat (maxHeaderListSize fr0)"
    "added (dt_table (enc_dynTab e)) + length fs < 2 ^ 62" "inserted d + length fs < 2 ^ 64" "concat frags = bs" "frags \<noteq> []"
    "reader_at fr0 fr (concat (map call_bytes (block_calls p frags)) @ rest) 0" "\<forall>c \<in> set (block_calls p frags). sendable (maxReadSize fr0) c"
  shows "\<exists>r fr' d'. ReadFrame fr = (r, fr') \<and> delivered (maxHeaderListSize fr0) (p, fs, cuts) r \<and> reader_at fr0 fr' rest 0 \<and> ReadMetaHeaders fr' = Some d' \<and>
    enc_ready e' \<and> synced e' d' \<and> saveBuf d' = [] \<and>
    added (dt_table (enc_dynTab e')) \<le> added (dt_table (enc_dynTab e)) + length fs \<and> inserted d' \<le> inserted d + length fs"
proof -
  let ?d = "prepare_hdec fr0 d"
  let ?limit = "maxHeaderListSize fr0"
  obtain frag frags' where frags: "frags = frag # frags'" using assms(10) by (cases frags) auto
  have "synced e ?d" using assms(2) by (simp add: synced_def)
  then obtain d1 where b: "block_result e ?d fs e' bs d1"
    using encode_block_ready [OF assms(1), of ?d fs] assms(5-8) field_ok_prepared by (auto simp: block_result_def)
  have "awaits ?d bs d1" using b assms(3) maxHeaderStringLen_limit [of fr0] by (intro awaits_start) (simp_all add: block_result_def del: of_nat_unat)
  then have aw: "awaits ?d (concat (frag # frags')) d1" using assms(9) frags by simp
  have "emission d1 = fold (emit_one (meta_keep ?limit)) fs (True, [])" using b by (simp add: block_result_def)
  then have "emits d1 = snd (fold (emit_one (meta_keep ?limit)) fs (True, []))" by (metis emission_def snd_conv)
  then have m: "meta_state ?limit (emits d1) = meta_run fs (meta_start ?limit)" using emitted_meta [of ?limit fs "[]"] by (simp add: meta_state_def)
  let ?h = "call_header (hd (block_calls p (frag # frags')))"
  obtain fr' d' where r: "ReadFrame fr = (meta_outcome p ?h (meta_run fs (meta_start ?limit)), fr')" "reader_at fr0 fr' rest 0" "ReadMetaHeaders fr' = Some d'"
    "dec_dynTab d' = dec_dynTab d1" "saveBuf d' = []"
    using block_read [OF assms(11) [unfolded frags] assms(12) [unfolded frags] assms(4) aw] unfolding m by blast
  have "validStreamID (hp_StreamID p)" using assms(12) frags by (simp add: sendable_def)
  then have "delivered ?limit (p, fs, cuts) (meta_outcome p ?h (meta_run fs (meta_start ?limit)))"
    by (intro meta_outcome_delivered) (simp_all add: valid_stream StreamEnded_def)
  moreover have "enc_ready e'" "synced e' d'" "added (dt_table (enc_dynTab e')) \<le> added (dt_table (enc_dynTab e)) + length fs" "inserted d' \<le> inserted d + length fs"
    using b r(4) by (auto simp: block_result_def synced_def decoder_ok_def)
  ultimately show ?thesis using r by blast
qed

definition block_fits :: "u32 \<Rightarrow> header_block \<Rightarrow> bool" where
  "block_fits limit block \<longleftrightarrow> (case block of (_, fs, cuts) \<Rightarrow>
     (\<forall>f \<in> set fs. length (HName f) \<le> unat limit \<and> length (HValue f) \<le> unat limit) \<and> (\<forall>bs. concat (cuts bs) = bs \<and> cuts bs \<noteq> []))"

abbreviation block_count :: "header_block list \<Rightarrow> nat" where
  "block_count blocks \<equiv> sum_list (map (\<lambda>(_, fs, _). length fs) blocks)"

lemma blocks_delivered:
  "\<lbrakk>enc_ready e; synced e d; saveBuf d = []; ReadMetaHeaders fr = Some d; send_blocks e blocks = Return (e', calls);
    \<forall>b \<in> set blocks. block_fits (maxHeaderListSize fr0) b; added (dt_table (enc_dynTab e)) + block_count blocks < 2 ^ 62; inserted d + block_count blocks < 2 ^ 64;
    reader_at fr0 fr (concat (map call_bytes calls) @ rest) 0; \<forall>c \<in> set calls. sendable (maxReadSize fr0) c\<rbrakk> \<Longrightarrow>
   \<exists>rs fr'. read_results (length blocks) fr = (rs, fr') \<and> list_all2 (delivered (maxHeaderListSize fr0)) blocks rs \<and> reader_at fr0 fr' rest 0"
proof (induction blocks arbitrary: e d fr calls)
  case (Cons b blocks)
  obtain p fs cuts where b: "b = (p, fs, cuts)" by (cases b)
  obtain e1 bs calls1 where s: "encode_block e fs = Return (e1, bs)" "send_blocks e1 blocks = Return (e', calls1)" "calls = block_calls p (cuts bs) @ calls1"
    using Cons.prems(5) b by auto
  obtain r fr1 d1 where 1: "ReadFrame fr = (r, fr1)" "delivered (maxHeaderListSize fr0) b r" "reader_at fr0 fr1 (concat (map call_bytes calls1) @ rest) 0"
    "ReadMetaHeaders fr1 = Some d1" "enc_ready e1" "synced e1 d1" "saveBuf d1 = []"
    "added (dt_table (enc_dynTab e1)) \<le> added (dt_table (enc_dynTab e)) + length fs" "inserted d1 \<le> inserted d + length fs"
    using block_delivered [OF Cons.prems(1-4) s(1), of fr0 "cuts bs" p "concat (map call_bytes calls1) @ rest" cuts] Cons.prems(6-10) b s(3)
    by (auto simp: block_fits_def)
  have "\<exists>rs fr'. read_results (length blocks) fr1 = (rs, fr') \<and> list_all2 (delivered (maxHeaderListSize fr0)) blocks rs \<and> reader_at fr0 fr' rest 0"
    by (rule Cons.IH [OF 1(5-7,4) s(2) _ _ _ 1(3)]) (use Cons.prems(6-8,10) 1(8,9) b s(3) in auto)
  then show ?case using 1(1,2) by auto
qed (simp add: lift_meth_def)

lemma send_blocks_returns:
  "\<lbrakk>enc_ready e; synced e d; added (dt_table (enc_dynTab e)) + block_count blocks < 2 ^ 62; inserted d + block_count blocks < 2 ^ 64;
    \<forall>(_, fs, _) \<in> set blocks. \<forall>f \<in> set fs. field_ok d f\<rbrakk> \<Longrightarrow> \<exists>e' calls. send_blocks e blocks = Return (e', calls)"
proof (induction blocks arbitrary: e d)
  case (Cons b blocks)
  obtain p fs cuts where b: "b = (p, fs, cuts)" by (cases b)
  obtain e1 bs d1 where 1: "block_result e d fs e1 bs d1" using encode_block_ready [OF Cons.prems(1,2), of fs] Cons.prems(3-5) b by auto
  have "\<exists>e' calls. send_blocks e1 blocks = Return (e', calls)"
    by (rule Cons.IH [of e1 d1]) (use 1 Cons.prems(3-5) b in \<open>auto simp: block_result_def same_mode_def field_ok_def string_ok_def\<close>)
  then show ?case using 1 b by (auto simp: block_result_def)
qed simp

section \<open>Properties\<close>

text \<open>C5: From an encoder through two framers to a decoder: header lists are encoded one after the other, each block is cut into a \<open>HEADERS\<close> frame
  and \<open>CONTINUATION\<close> frames at any places, and the frames are written.  For every list the receiver gets, with stream, priority and end of
  stream, the longest prefix within its limit, marked as truncated exactly if a field was left out; or a stream error, exactly if one of these
  fields or the first one left out is invalid or out of order, or if the pseudo header fields are unknown, repeated or mixed.  None of these
  disturbs the lists that follow, since the two tables stay in step.  Here the connection is fresh, each name and value
  is by itself no longer than the limit of the receiver, the block is cut into at least one part, and fewer than
  \<open>2 ^ 62\<close> fields are sent.\<close>

theorem header_session:
  assumes "NewEncoder = Return e" "NewDecoder 4096 emitFunc = Return d" "send_blocks e blocks = Return (e', calls)"
    "perform_all calls w = (Return (), w')" "\<not> AllowIllegalWrites w" "written w = []"
    "r = (NewFramer u (concat (written w') @ rest))\<lparr>ReadMetaHeaders := Some d, MaxHeaderListSize := limit\<rparr>"
    "\<forall>b \<in> set blocks. block_fits (maxHeaderListSize r) b" "block_count blocks < 2 ^ 62"
  shows "\<exists>rs r'. read_results (length blocks) r = (rs, r') \<and> list_all2 (delivered (maxHeaderListSize r)) blocks rs \<and> fr_input r' = rest"
proof -
  have e: "enc_ready e" "dynamic_ok (enc_dynTab e)" "ents (dt_table (enc_dynTab e)) = []" "maxSize (enc_dynTab e) = 4096" "added (dt_table (enc_dynTab e)) = 0"
    using NewEncoder_ok assms(1) by (metis outcome.inject(1))+
  have d: "decoder_ok d" "inserted d = 0" "ents (dt_table (dec_dynTab d)) = []" "maxSize (dec_dynTab d) = 4096" "saveBuf d = []"
    using NewDecoder_ok [of 4096 emitFunc] assms(2) by (metis outcome.inject(1))+
  have r: "maxReadSize r = 0xFFFFFF" "ReadMetaHeaders r = Some d" using assms(7) by (simp_all add: NewFramer_def SetMaxReadFrameSize_def)
  have sent: "\<forall>c \<in> set calls. legal_call c \<and> length (call_payload c) < 2 ^ 24" "written w' = map call_bytes calls"
    using perform_all_sends [OF assms(4,5)] assms(6) by simp_all
  have "of_nat n \<le> (0xFFFFFF :: u32)" if "n < 2 ^ 24" for n using that by (simp add: word_le_nat_alt unat_of_nat)
  then have "\<forall>c \<in> set calls. sendable (maxReadSize r) c" using sent(1) r(1) by (simp add: sendable_def)
  moreover have "reader_at r r (concat (map call_bytes calls) @ rest) 0"
    using assms(7) sent(2) by (simp add: reader_at_def order_inv_def NewFramer_def SetMaxReadFrameSize_def)
  moreover have "synced e d" using e d by (simp add: synced_def)
  ultimately show ?thesis
    using blocks_delivered [OF e(1) _ d(5) r(2) assms(3,8)] e(5) d(2) assms(9) by (auto simp: reader_at_def)
qed

definition bytewise :: "bytes \<Rightarrow> bytes list" where
  "bytewise bs = (if bs = [] then [[]] else map (\<lambda>b. [b]) bs)"

definition sample_param :: "u32 \<Rightarrow> HeadersFrameParam" where
  "sample_param sid = \<lparr>hp_StreamID = sid, hp_BlockFragment = [], hp_EndStream = True, hp_EndHeaders = False, hp_PadLength = 0,
     hp_Priority = \<lparr>StreamDep = 0, Exclusive = False, Weight = 0\<rparr>\<rparr>"

definition sample_blocks :: "header_block list" where
  "sample_blocks =
     [(sample_param 1, [\<lparr>HName = ascii '':method'', HValue = ascii ''GET'', Sensitive = False\<rparr>, \<lparr>HName = ascii ''a'', HValue = ascii ''b'', Sensitive = False\<rparr>], bytewise),
      (sample_param 3, [\<lparr>HName = ascii ''A'', HValue = ascii ''b'', Sensitive = False\<rparr>], bytewise),
      (sample_param 5, replicate 3 \<lparr>HName = ascii ''a'', HValue = ascii ''b'', Sensitive = False\<rparr>, bytewise)]"

lemma bytewise_parts: "concat (bytewise bs) = bs" "bytewise bs \<noteq> []" "frag \<in> set (bytewise bs) \<Longrightarrow> length frag \<le> 1"
  by (auto simp: bytewise_def split: if_splits)

lemma bytewise_sendable:
  assumes "validStreamID sid" "c \<in> set (block_calls (sample_param sid) (bytewise bs))"
  shows "legal_call c \<and> length (call_payload c) < 2 ^ 24"
proof -
  have cont: "\<forall>c \<in> set (continuation_calls sid frags). legal_call c \<and> length (call_payload c) < 2 ^ 24" if "\<forall>frag \<in> set frags. length frag \<le> 1" for frags
    using that assms(1) by (induction frags) auto
  obtain frag frags where b: "bytewise bs = frag # frags" using bytewise_parts(2) by (cases "bytewise bs") auto
  then have "length frag \<le> 1" "\<forall>frag \<in> set frags. length frag \<le> 1" using bytewise_parts(3) [of _ bs] by auto
  then show ?thesis using assms b cont [of frags]
    by (auto simp: sample_param_def validStreamIDOrZero_def priority_field_def PriorityParam_IsZero_def)
qed

lemma sample_blocks_sent:
  assumes "send_blocks e sample_blocks = Return (e', calls)" "c \<in> set calls"
  shows "legal_call c \<and> length (call_payload c) < 2 ^ 24"
proof -
  from assms(1) obtain bs1 bs2 bs3 where
    "calls = block_calls (sample_param 1) (bytewise bs1) @ block_calls (sample_param 3) (bytewise bs2) @ block_calls (sample_param 5) (bytewise bs3)"
    by (auto simp: sample_blocks_def)
  then show ?thesis using assms(2) bytewise_sendable [of 1 c bs1] bytewise_sendable [of 3 c bs2] bytewise_sendable [of 5 c bs3] by (auto simp: validStreamID_def)
qed

theorem header_session_witness:
  "\<exists>e d e' calls w' rs r'. NewEncoder = Return e \<and> NewDecoder 4096 (\<lambda>_. True) = Return d \<and> send_blocks e sample_blocks = Return (e', calls) \<and>
     perform_all calls (NewFramer (\<lambda>b. (length b, None)) []) = (Return (), w') \<and>
     read_results 3 ((NewFramer (\<lambda>b. (length b, None)) (concat (written w') @ [7]))\<lparr>ReadMetaHeaders := Some d, MaxHeaderListSize := 80\<rparr>) = (rs, r') \<and>
     list_all2 (delivered 80) sample_blocks rs \<and> fr_input r' = [7]"
proof -
  obtain e where e: "NewEncoder = Return e" "enc_ready e" "dynamic_ok (enc_dynTab e)" "ents (dt_table (enc_dynTab e)) = []" "maxSize (enc_dynTab e) = 4096"
    "added (dt_table (enc_dynTab e)) = 0" using NewEncoder_ok by blast
  obtain d where d: "NewDecoder 4096 (\<lambda>_. True) = Return d" "decoder_ok d" "inserted d = 0" "ents (dt_table (dec_dynTab d)) = []" "maxSize (dec_dynTab d) = 4096"
    "maxStrLen d = 0" using NewDecoder_ok [of 4096 "\<lambda>_. True"] by blast
  have n: "block_count sample_blocks = 6" by (simp add: sample_blocks_def)
  have "synced e d" using e d by (simp add: synced_def)
  then obtain e' calls where s: "send_blocks e sample_blocks = Return (e', calls)"
    using send_blocks_returns [OF e(2), of d sample_blocks] e(6) d(3,6) n by (auto simp: sample_blocks_def ascii_def field_ok_def string_ok_def)
  let ?w = "NewFramer (\<lambda>b. (length b, None)) []"
  have w: "\<not> AllowIllegalWrites ?w" "\<And>b. fr_w ?w b = (length b, None)" "written ?w = []" by (simp_all add: NewFramer_def SetMaxReadFrameSize_def)
  obtain w' where w': "perform_all calls ?w = (Return (), w')"
    using perform_all_succeeds [OF _ w(1,2), of calls] sample_blocks_sent [OF s] by blast
  let ?r = "(NewFramer (\<lambda>b. (length b, None)) (concat (written w') @ [7]))\<lparr>ReadMetaHeaders := Some d, MaxHeaderListSize := 80\<rparr>"
  have lim: "maxHeaderListSize ?r = 80" by (simp add: maxHeaderListSize_def)
  have "\<forall>b \<in> set sample_blocks. block_fits (maxHeaderListSize ?r) b" unfolding lim by (simp add: sample_blocks_def block_fits_def ascii_def bytewise_parts)
  from header_session [OF e(1) d(1) s w' w(1,3) refl this] n obtain rs r' where
    "read_results (length sample_blocks) ?r = (rs, r')" "list_all2 (delivered (maxHeaderListSize ?r)) sample_blocks rs" "fr_input r' = [7]" by auto
  moreover have "length sample_blocks = 3" by (simp add: sample_blocks_def)
  ultimately show ?thesis using e(1) d(1) s w' lim by auto
qed

text \<open>C6: On any input, \<open>ReadFrame\<close> with a decoder for header lists returns without panicking and leaves the framer and the tables of the decoder
  in order, so that it can be called again; a header list it returns satisfies what \<open>MetaHeadersFrame\<close> promises: valid names and
  values, pseudo header fields first, only known ones, none twice, not those of requests and responses mixed, and a size within the
  limit.  (Fewer than \<open>2 ^ 64\<close> bytes arrive.)\<close>

theorem ReadFrame_safe:
  assumes "framer_ok fr" "ReadFrame fr = (r, fr')"
  shows "r \<noteq> Panic \<and> framer_ok fr' \<and> (\<forall>mh. r = Return (MetaHeadersFrame mh) \<longrightarrow> header_list_ok (maxHeaderListSize fr) (mh_Fields mh))"
  using ReadFrame_ok [OF assms(1)] assms(2) by (auto simp: result_ok_def)

theorem ReadFrame_safe_witness:
  "\<exists>d r fr'. NewDecoder 4096 (\<lambda>_. True) = Return d \<and>
     ReadFrame ((NewFramer (\<lambda>b. (length b, None)) [0, 0, 1, 1, 4, 0, 0, 0, 1, 0x82])\<lparr>ReadMetaHeaders := Some d\<rparr>) = (r, fr') \<and> r \<noteq> Panic \<and> framer_ok fr'"
proof -
  obtain d where d: "NewDecoder 4096 (\<lambda>_. True) = Return d" "decoder_ok d" "inserted d = 0" "saveBuf d = []" using NewDecoder_ok by blast
  let ?fr = "(NewFramer (\<lambda>b. (length b, None)) [0, 0, 1, 1, 4, 0, 0, 0, 1, 0x82])\<lparr>ReadMetaHeaders := Some d\<rparr>"
  obtain r fr' where r: "ReadFrame ?fr = (r, fr')" by force
  have "framer_ok ?fr"
    using d by (simp add: framer_ok_def order_inv_def hdec_ok_def decoder_load_def NewFramer_def SetMaxReadFrameSize_def)
  from ReadFrame_safe [OF this r] show ?thesis using d(1) r by blast
qed

end
