(* ===== verification/H2_Buffer.thy ===== *)
theory H2_Buffer
  imports Prelude
begin

text \<open>
  The chunked buffer of \<open>src/http2/databuffer.go\<close>.  A \<open>dataBuffer\<close> is a list of chunks with a read position in the first and a write
  position in the last one.  Chunks come from a \<open>sync.Pool\<close> and hold the bytes of their previous use, so the contents
  a chunk is handed out with are a parameter: \<open>chunk_of n\<close> for a chunk of the size class \<open>n\<close>.  \<open>content\<close> is the byte queue
  the buffer stands for.  The loops of \<open>Read\<close> and \<open>Write\<close> run with the bytes still to copy as fuel, since every round
  copies at least one.
\<close>

section \<open>Chunks\<close>

definition dataChunkSizeClasses :: "nat list" where
  "dataChunkSizeClasses = [1024, 2048, 4096, 8192, 16384]"

text \<open>The size class for \<open>sz\<close>: the loop stops at the last class at the latest.\<close>

fun size_class :: "int \<Rightarrow> nat list \<Rightarrow> nat" where
  "size_class sz [] = 0"
| "size_class sz [c] = c"
| "size_class sz (c # cs) = (if sz \<le> int c then c else size_class sz cs)"

definition getDataBufferChunk :: "(nat \<Rightarrow> bytes) \<Rightarrow> int \<Rightarrow> bytes" where
  "getDataBufferChunk chunk_of sz = chunk_of (size_class sz dataChunkSizeClasses)"

datatype buffer_error = errReadEmpty

definition putDataBufferChunk :: "bytes \<Rightarrow> (buffer_error, unit) outcome" where
  "putDataBufferChunk p = (if length p \<in> set dataChunkSizeClasses then Return () else Panic)"

section \<open>The buffer\<close>

record dataBuffer =
  chunks :: "bytes list"
  buf_r :: nat
  buf_w :: nat
  buf_size :: nat
  expected :: int

definition bytesFromFirstChunk :: "dataBuffer \<Rightarrow> (buffer_error, bytes) outcome" where
  "bytesFromFirstChunk b =
     bind_outcome (go_index (chunks b) 0) (\<lambda>c.
     if length (chunks b) = 1 then go_slice c (buf_r b) (buf_w b) else go_slice c (buf_r b) (length c))"

text \<open>One round of the loop in \<open>Read\<close>: the bytes copied, at most \<open>room\<close>.\<close>

definition read_round :: "nat \<Rightarrow> dataBuffer \<Rightarrow> (buffer_error, bytes \<times> dataBuffer) outcome" where
  "read_round room b =
     bind_outcome (bytesFromFirstChunk b) (\<lambda>readFrom.
     let got = take room readFrom; n = length got;
         b = b\<lparr>buf_r := buf_r b + n, buf_size := buf_size b - n\<rparr> in
     bind_outcome (go_index (chunks b) 0) (\<lambda>c.
     if buf_r b = length c then
       bind_outcome (putDataBufferChunk c) (\<lambda>_. Return (got, b\<lparr>chunks := drop 1 (chunks b), buf_r := 0\<rparr>))
     else Return (got, b)))"

fun read_rounds :: "nat \<Rightarrow> nat \<Rightarrow> bytes \<Rightarrow> dataBuffer \<Rightarrow> (buffer_error, bytes \<times> dataBuffer) outcome" where
  "read_rounds fuel room acc b =
     (if \<not> (room > 0 \<and> buf_size b > 0) then Return (acc, b)
      else case fuel of
        0 \<Rightarrow> Panic
      | Suc fuel \<Rightarrow> bind_outcome (read_round room b) (\<lambda>(got, b). read_rounds fuel (room - length got) (acc @ got) b))"

declare read_rounds.simps [simp del]

text \<open>\<open>Read\<close> into a slice of length \<open>room\<close>: the bytes copied to its front.\<close>

definition buffer_Read :: "nat \<Rightarrow> dataBuffer \<Rightarrow> (buffer_error, bytes \<times> dataBuffer) outcome" where
  "buffer_Read room b = (if buf_size b = 0 then Fail errReadEmpty else read_rounds room room [] b)"

definition buffer_Len :: "dataBuffer \<Rightarrow> nat" where
  "buffer_Len b = buf_size b"

definition lastChunkOrAlloc :: "(nat \<Rightarrow> bytes) \<Rightarrow> int \<Rightarrow> dataBuffer \<Rightarrow> dataBuffer" where
  "lastChunkOrAlloc chunk_of want b =
     (if length (chunks b) \<noteq> 0 \<and> buf_w b < length (last (chunks b)) then b
      else b\<lparr>chunks := chunks b @ [getDataBufferChunk chunk_of want], buf_w := 0\<rparr>)"

text \<open>\<open>copy(chunk[w:], p)\<close> on the last chunk.\<close>

definition copy_last :: "nat \<Rightarrow> bytes \<Rightarrow> bytes list \<Rightarrow> bytes list" where
  "copy_last w p cs = butlast cs @ [take w (last cs) @ take (length (last cs) - w) p @ drop (w + length p) (last cs)]"

definition write_round :: "(nat \<Rightarrow> bytes) \<Rightarrow> bytes \<Rightarrow> dataBuffer \<Rightarrow> nat \<times> dataBuffer" where
  "write_round chunk_of p b =
     (let want = (if expected b > int (length p) then expected b else int (length p));
          b = lastChunkOrAlloc chunk_of want b;
          n = min (length (last (chunks b)) - buf_w b) (length p) in
      (n, b\<lparr>chunks := copy_last (buf_w b) p (chunks b), buf_w := buf_w b + n, buf_size := buf_size b + n, expected := expected b - int n\<rparr>))"

fun write_rounds :: "nat \<Rightarrow> (nat \<Rightarrow> bytes) \<Rightarrow> bytes \<Rightarrow> dataBuffer \<Rightarrow> (buffer_error, dataBuffer) outcome" where
  "write_rounds fuel chunk_of p b =
     (if length p = 0 then Return b
      else case fuel of
        0 \<Rightarrow> Panic
      | Suc fuel \<Rightarrow> (case write_round chunk_of p b of (n, b) \<Rightarrow> write_rounds fuel chunk_of (drop n p) b))"

declare write_rounds.simps [simp del]

definition buffer_Write :: "(nat \<Rightarrow> bytes) \<Rightarrow> bytes \<Rightarrow> dataBuffer \<Rightarrow> (buffer_error, nat \<times> dataBuffer) outcome" where
  "buffer_Write chunk_of p b = bind_outcome (write_rounds (length p) chunk_of p b) (\<lambda>b. Return (length p, b))"

section \<open>The byte queue a buffer stands for\<close>

definition content :: "dataBuffer \<Rightarrow> bytes" where
  "content b = (if chunks b = [] then [] else drop (buf_r b) (concat (butlast (chunks b)) @ take (buf_w b) (last (chunks b))))"

definition buffer_ok :: "dataBuffer \<Rightarrow> bool" where
  "buffer_ok b \<longleftrightarrow> buf_size b = length (content b) \<and> (\<forall>c \<in> set (chunks b). length c \<in> set dataChunkSizeClasses) \<and>
     (if chunks b = [] then buf_r b = 0
      else buf_w b \<le> length (last (chunks b)) \<and> buf_r b < length (hd (chunks b)) \<and> (length (chunks b) = 1 \<longrightarrow> buf_r b \<le> buf_w b))"

definition class_sized :: "(nat \<Rightarrow> bytes) \<Rightarrow> bool" where
  "class_sized chunk_of \<longleftrightarrow> (\<forall>n. length (chunk_of n) = n)"

lemma size_class_mem: "size_class sz dataChunkSizeClasses \<in> set dataChunkSizeClasses"
  by (simp add: dataChunkSizeClasses_def)

lemma class_pos: "n \<in> set dataChunkSizeClasses \<Longrightarrow> 0 < n"
  by (auto simp: dataChunkSizeClasses_def)

text \<open>Reading.\<close>

lemma read_round_ok:
  assumes "buffer_ok b" "buf_size b > 0" "room > 0"
  obtains got b' where "read_round room b = Return (got, b')" "got \<noteq> []" "length got \<le> room" "buffer_ok b'" "content b = got @ content b'"
proof -
  obtain c cs where c: "chunks b = c # cs" using assms(1,2) by (cases "chunks b") (auto simp: buffer_ok_def content_def)
  have ok: "length c \<in> set dataChunkSizeClasses" "buf_r b < length c" "buf_w b \<le> length (last (c # cs))" "cs = [] \<Longrightarrow> buf_r b \<le> buf_w b"
    "buf_size b = length (content b)" "\<forall>d \<in> set cs. length d \<in> set dataChunkSizeClasses"
    using assms(1) c by (auto simp: buffer_ok_def)
  let ?from = "if cs = [] then drop (buf_r b) (take (buf_w b) c) else drop (buf_r b) c"
  have frm: "bytesFromFirstChunk b = Return ?from"
    using c ok by (auto simp: bytesFromFirstChunk_def drop_take)
  let ?rest = "if cs = [] then [] else concat (butlast cs) @ take (buf_w b) (last cs)"
  have content: "content b = ?from @ ?rest" using c ok(2) by (simp add: content_def)
  have ne: "?from \<noteq> []" using content ok(2,5) assms(2) by (cases "cs = []") auto
  have hd: "cs \<noteq> [] \<Longrightarrow> 0 < length (hd cs)" using ok(6) class_pos by (cases cs) auto
  let ?got = "take room ?from"
  let ?b = "b\<lparr>buf_r := buf_r b + length ?got, buf_size := buf_size b - length ?got\<rparr>"
  have split: "content b = ?got @ drop room ?from @ ?rest" using content by simp
  have got: "?got \<noteq> []" "length ?got \<le> room" using ne assms(3) by auto
  show ?thesis
  proof (cases "buf_r b + length ?got = length c")
    case True
    have all: "drop room ?from = []" using True ok(2) by (cases "cs = []") (auto simp: min_def split: if_splits)
    have "read_round room b = Return (?got, ?b\<lparr>chunks := cs, buf_r := 0\<rparr>)"
      using frm c True ok(1) by (simp add: read_round_def putDataBufferChunk_def Let_def)
    moreover have rest: "content (?b\<lparr>chunks := cs, buf_r := 0\<rparr>) = ?rest" by (simp add: content_def)
    moreover have "buffer_ok (?b\<lparr>chunks := cs, buf_r := 0\<rparr>)"
      using ok split all rest hd by (auto simp: buffer_ok_def)
    ultimately show ?thesis using that [OF _ got] split all by simp
  next
    case False
    have "read_round room b = Return (?got, ?b)"
      using frm c False by (simp add: read_round_def Let_def)
    moreover have rest: "content ?b = drop room ?from @ ?rest"
      using c ok(2) by (cases "cs = []") (auto simp: content_def min_def drop_take add.commute)
    moreover have "buffer_ok ?b"
      using c ok split rest False by (auto simp: buffer_ok_def min_def split: if_splits)
    ultimately show ?thesis using that [OF _ got] split by simp
  qed
qed


lemma read_rounds_ok:
  "\<lbrakk>buffer_ok b; room \<le> fuel\<rbrakk> \<Longrightarrow> \<exists>b'. read_rounds fuel room acc b = Return (acc @ take room (content b), b') \<and> buffer_ok b' \<and>
     content b' = drop room (content b)"
proof (induction fuel arbitrary: room acc b)
  case 0
  then show ?case by (simp add: read_rounds.simps)
next
  case (Suc fuel)
  show ?case
  proof (cases "room > 0 \<and> buf_size b > 0")
    case True
    obtain got b' where r: "read_round room b = Return (got, b')" "got \<noteq> []" "length got \<le> room" "buffer_ok b'" "content b = got @ content b'"
      using read_round_ok [OF Suc.prems(1), of room] True by blast
    have "room - length got \<le> fuel" using r(2) Suc.prems(2) by (cases got) auto
    then obtain b'' where "read_rounds fuel (room - length got) (acc @ got) b' = Return ((acc @ got) @ take (room - length got) (content b'), b'')"
      "buffer_ok b''" "content b'' = drop (room - length got) (content b')"
      using Suc.IH [OF r(4)] by blast
    then show ?thesis using True r by (simp add: read_rounds.simps [of "Suc fuel"])
  next
    case False
    then show ?thesis using Suc.prems(1) by (auto simp: read_rounds.simps [of "Suc fuel"] buffer_ok_def)
  qed
qed

text \<open>Writing.\<close>

lemma lastChunkOrAlloc_ok:
  fixes want :: int
  assumes "buffer_ok b" "class_sized chunk_of"
  defines "b' \<equiv> lastChunkOrAlloc chunk_of want b"
  shows "buffer_ok b'" "content b' = content b" "chunks b' \<noteq> []" "buf_w b' < length (last (chunks b'))"
proof -
  show "chunks b' \<noteq> []" by (auto simp: b'_def lastChunkOrAlloc_def)
  let ?c = "getDataBufferChunk chunk_of want"
  have c: "length ?c \<in> set dataChunkSizeClasses" "0 < length ?c"
    using assms(2) size_class_mem class_pos by (auto simp: getDataBufferChunk_def class_sized_def)
  show "buf_w b' < length (last (chunks b'))" using c by (auto simp: b'_def lastChunkOrAlloc_def)
  have "concat (chunks b) = concat (butlast (chunks b)) @ take (buf_w b) (last (chunks b))"
    if "chunks b \<noteq> []" "\<not> buf_w b < length (last (chunks b))"
    using that by (cases "chunks b" rule: rev_cases) auto
  then show cont: "content b' = content b"
    using assms(1) by (auto simp: b'_def lastChunkOrAlloc_def content_def buffer_ok_def)
  show "buffer_ok b'" using assms(1) c cont by (auto simp: b'_def lastChunkOrAlloc_def buffer_ok_def hd_append)
qed

lemma copy_last_simps [simp]: "cs \<noteq> [] \<Longrightarrow> butlast (copy_last w p cs) = butlast cs" "copy_last w p cs \<noteq> []"
  "w \<le> length (last cs) \<Longrightarrow> length (last (copy_last w p cs)) = length (last cs)"
  by (auto simp: copy_last_def)

lemma write_round_ok:
  assumes "buffer_ok b" "class_sized chunk_of" "p \<noteq> []" "write_round chunk_of p b = (n, b')"
  shows "0 < n" "n \<le> length p" "buffer_ok b'" "content b' = content b @ take n p"
proof -
  obtain want where want: "write_round chunk_of p b = (let b = lastChunkOrAlloc chunk_of want b; n = min (length (last (chunks b)) - buf_w b) (length p) in
      (n, b\<lparr>chunks := copy_last (buf_w b) p (chunks b), buf_w := buf_w b + n, buf_size := buf_size b + n, expected := expected b - int n\<rparr>))"
    by (simp add: write_round_def Let_def)
  let ?b = "lastChunkOrAlloc chunk_of want b"
  note l = lastChunkOrAlloc_ok [OF assms(1,2), of want]
  have n: "n = min (length (last (chunks ?b)) - buf_w ?b) (length p)"
    and b': "b' = ?b\<lparr>chunks := copy_last (buf_w ?b) p (chunks ?b), buf_w := buf_w ?b + n, buf_size := buf_size ?b + n, expected := expected ?b - int n\<rparr>"
    using assms(4) want by (auto simp: Let_def)
  show "0 < n" "n \<le> length p" using n l(4) assms(3) by auto
  obtain cs c where cs: "chunks ?b = cs @ [c]" using l(3) by (cases "chunks ?b" rule: rev_cases) auto
  have w: "buf_w ?b < length c" using l(4) cs by simp
  let ?c = "take (buf_w ?b) c @ take (length c - buf_w ?b) p @ drop (buf_w ?b + length p) c"
  have c': "copy_last (buf_w ?b) p (chunks ?b) = cs @ [?c]" "length ?c = length c" using cs w by (auto simp: copy_last_def)
  have tk: "take (buf_w ?b + n) ?c = take (buf_w ?b) c @ take n p" using n cs w by (auto simp: min_def)
  have "buf_r ?b < length (hd (cs @ [c]))" "cs = [] \<Longrightarrow> buf_r ?b \<le> buf_w ?b" using l(1) cs by (auto simp: buffer_ok_def)
  then have r: "buf_r ?b \<le> length (concat cs @ take (buf_w ?b) c)" using w by (cases cs) auto
  show cont: "content b' = content b @ take n p"
    using b' c'(1) tk cs r l(2) by (simp add: content_def)
  have "buf_size b' = length (content b')" using cont b' l(1,2) \<open>n \<le> length p\<close> by (simp add: buffer_ok_def)
  moreover have "chunks b' = cs @ [?c]" "buf_w b' = buf_w ?b + n" "buf_r b' = buf_r ?b" using b' c'(1) by simp_all
  moreover have "buf_w ?b + n \<le> length c" using n cs w by simp
  moreover have "\<forall>d \<in> set (cs @ [c]). length d \<in> set dataChunkSizeClasses" "buf_r ?b < length (hd (cs @ [c]))"
    "cs = [] \<Longrightarrow> buf_r ?b \<le> buf_w ?b" using l(1) cs by (auto simp: buffer_ok_def)
  ultimately show "buffer_ok b'" unfolding buffer_ok_def using c'(2) by (cases cs) auto
qed

lemma write_rounds_ok:
  "\<lbrakk>buffer_ok b; class_sized chunk_of; length p \<le> fuel\<rbrakk> \<Longrightarrow>
     \<exists>b'. write_rounds fuel chunk_of p b = Return b' \<and> buffer_ok b' \<and> content b' = content b @ p"
proof (induction fuel arbitrary: p b)
  case 0
  then show ?case by (simp add: write_rounds.simps)
next
  case (Suc fuel)
  show ?case
  proof (cases "p = []")
    case True
    then show ?thesis using Suc.prems(1) by (simp add: write_rounds.simps)
  next
    case False
    obtain n b1 where w: "write_round chunk_of p b = (n, b1)" by force
    note r = write_round_ok [OF Suc.prems(1,2) False w]
    have "length (drop n p) \<le> fuel" using r(1) Suc.prems(3) by simp
    then obtain b' where "write_rounds fuel chunk_of (drop n p) b1 = Return b'" "buffer_ok b'" "content b' = content b1 @ drop n p"
      using Suc.IH [OF r(3) Suc.prems(2)] by blast
    then show ?thesis using False w r(4) by (simp add: write_rounds.simps [of "Suc fuel"])
  qed
qed

section \<open>The interface of pipe buffers\<close>

text \<open>What \<open>pipe\<close> relies on of a \<open>pipeBuffer\<close>: a queue of bytes.\<close>

locale pipe_buffer =
  fixes blen :: "'b \<Rightarrow> nat"
    and bwrite :: "bytes \<Rightarrow> 'b \<Rightarrow> ('e, nat \<times> 'b) outcome"
    and bread :: "nat \<Rightarrow> 'b \<Rightarrow> ('e, bytes \<times> 'b) outcome"
    and queued :: "'b \<Rightarrow> bytes"
    and valid :: "'b \<Rightarrow> bool"
  assumes len_queued: "valid b \<Longrightarrow> blen b = length (queued b)"
    and write_queued: "valid b \<Longrightarrow> \<exists>b'. bwrite p b = Return (length p, b') \<and> valid b' \<and> queued b' = queued b @ p"
    and read_queued: "valid b \<Longrightarrow> queued b \<noteq> [] \<Longrightarrow>
      \<exists>b'. bread n b = Return (take n (queued b), b') \<and> valid b' \<and> queued b' = drop n (queued b)"

lemma buffer_Write_ok:
  "buffer_ok b \<Longrightarrow> class_sized chunk_of \<Longrightarrow>
     \<exists>b'. buffer_Write chunk_of p b = Return (length p, b') \<and> buffer_ok b' \<and> content b' = content b @ p"
  using write_rounds_ok [of b chunk_of p "length p"] by (auto simp: buffer_Write_def)

lemma buffer_Read_ok:
  "buffer_ok b \<Longrightarrow> content b \<noteq> [] \<Longrightarrow>
     \<exists>b'. buffer_Read n b = Return (take n (content b), b') \<and> buffer_ok b' \<and> content b' = drop n (content b)"
  using read_rounds_ok [of b n n "[]"] by (auto simp: buffer_Read_def buffer_ok_def)

text \<open>The chunks a fresh pool hands out.\<close>

definition zero_chunk :: "nat \<Rightarrow> bytes" where
  "zero_chunk n = replicate n 0"

lemma class_sized_zero: "class_sized zero_chunk"
  by (simp add: class_sized_def zero_chunk_def)

lemma dataBuffer_pipe_buffer:
  "class_sized chunk_of \<Longrightarrow> pipe_buffer buffer_Len (buffer_Write chunk_of) buffer_Read content buffer_ok"
  by unfold_locales (simp_all add: buffer_Len_def buffer_Write_ok buffer_Read_ok, simp add: buffer_ok_def)

interpretation data_buffer: pipe_buffer buffer_Len "buffer_Write zero_chunk" buffer_Read content buffer_ok
  by (rule dataBuffer_pipe_buffer [OF class_sized_zero])

section \<open>Properties\<close>

text \<open>C14: \<open>dataBuffer\<close> is a queue of bytes, whatever its chunks held before: \<open>Write\<close> appends its bytes and returns their number, \<open>Read\<close>
  returns the longest prefix that fits and removes it, reading an empty buffer is \<open>errReadEmpty\<close>, the size field is the length of the
  queue, neither panics, and the loops end.\<close>

theorem dataBuffer_queue:
  assumes "buffer_ok b" "class_sized chunk_of"
  shows "(\<exists>b'. buffer_Write chunk_of p b = Return (length p, b') \<and> buffer_ok b' \<and> content b' = content b @ p) \<and>
    (if content b = [] then buffer_Read n b = Fail errReadEmpty
     else \<exists>b'. buffer_Read n b = Return (take n (content b), b') \<and> buffer_ok b' \<and> content b' = drop n (content b)) \<and>
    buffer_Len b = length (content b)"
proof -
  have "buffer_Len b = length (content b)" using assms(1) by (simp add: buffer_ok_def buffer_Len_def)
  moreover from this have "content b = [] \<Longrightarrow> buffer_Read n b = Fail errReadEmpty" by (simp add: buffer_Read_def buffer_Len_def)
  ultimately show ?thesis using buffer_Write_ok [OF assms] buffer_Read_ok [OF assms(1)] by auto
qed

definition zero_dataBuffer :: dataBuffer where
  "zero_dataBuffer = \<lparr>chunks = [], buf_r = 0, buf_w = 0, buf_size = 0, expected = 0\<rparr>"

lemma zero_dataBuffer_ok [simp]: "buffer_ok zero_dataBuffer" "content zero_dataBuffer = []"
  by (simp_all add: buffer_ok_def content_def zero_dataBuffer_def)

theorem dataBuffer_queue_witness:
  "\<exists>b. buffer_Write zero_chunk [1, 2, 3] zero_dataBuffer = Return (3, b) \<and> buffer_ok b \<and> content b = [1, 2, 3]"
  using dataBuffer_queue [OF zero_dataBuffer_ok(1) class_sized_zero, of "[1, 2, 3]" 0] by (simp add: numeral_3_eq_3)

end
