(* ===== verification/H2_Pipe.thy ===== *)
theory H2_Pipe
  imports H2_Buffer
begin

text \<open>
  The pipe of \<open>src/http2/pipe.go\<close>: a writer, a reader and the code that closes it share a buffer under a mutex, so their
  interleavings are sequences of whole method calls.  A \<open>Read\<close> that would wait on the condition variable returns \<open>Waits\<close> and
  changes nothing; waking up is calling it again.  The buffer is an interface of three operations, which the operations
  here take as arguments.  Running the callback \<open>readFn\<close> appends it to the list \<open>ran\<close>; the channel \<open>donec\<close> is nil, open or closed.
\<close>

section \<open>The pipe\<close>

datatype done_chan = DoneOpen | DoneClosed

record ('b, 'e) pipe =
  pipe_b :: "'b option"
  pipe_unread :: nat
  pipe_err :: "'e option"
  breakErr :: "'e option"
  donec :: "done_chan option"
  readFn :: "nat option"
  ran :: "nat list"

datatype 'e pipe_error = errClosedPipeWrite | PipeError 'e

datatype 'e read_result = Got bytes | ReadError 'e | Waits

definition setBuffer :: "'b \<Rightarrow> ('b, 'e) pipe \<Rightarrow> ('b, 'e) pipe" where
  "setBuffer b p = (if pipe_err p \<noteq> None \<or> breakErr p \<noteq> None then p else p\<lparr>pipe_b := Some b\<rparr>)"

definition pipe_Len :: "('b \<Rightarrow> nat) \<Rightarrow> ('b, 'e) pipe \<Rightarrow> nat" where
  "pipe_Len blen p = (case pipe_b p of None \<Rightarrow> pipe_unread p | Some b \<Rightarrow> blen b)"

text \<open>The part of \<open>Read\<close> after the buffer turned out to be empty or gone.\<close>

definition read_drained :: "('b, 'e) pipe \<Rightarrow> 'e read_result \<times> ('b, 'e) pipe" where
  "read_drained p =
     (case pipe_err p of
        Some e \<Rightarrow>
          (ReadError e,
           (case readFn p of None \<Rightarrow> p | Some f \<Rightarrow> p\<lparr>ran := ran p @ [f], readFn := None\<rparr>)\<lparr>pipe_b := None\<rparr>)
      | None \<Rightarrow> (Waits, p))"

definition pipe_Read ::
  "('b \<Rightarrow> nat) \<Rightarrow> (nat \<Rightarrow> 'b \<Rightarrow> ('x, bytes \<times> 'b) outcome) \<Rightarrow> nat \<Rightarrow> ('b, 'e) pipe \<Rightarrow> ('x, 'e read_result \<times> ('b, 'e) pipe) outcome" where
  "pipe_Read blen bread n p =
     (case breakErr p of
        Some e \<Rightarrow> Return (ReadError e, p)
      | None \<Rightarrow>
          (case pipe_b p of
             Some b \<Rightarrow>
               if blen b > 0 then bind_outcome (bread n b) (\<lambda>(got, b). Return (Got got, p\<lparr>pipe_b := Some b\<rparr>))
               else Return (read_drained p)
           | None \<Rightarrow> Return (read_drained p)))"

text \<open>A nil buffer panics when written to.\<close>

definition pipe_Write ::
  "(bytes \<Rightarrow> 'b \<Rightarrow> ('x, nat \<times> 'b) outcome) \<Rightarrow> bytes \<Rightarrow> ('b, 'e) pipe \<Rightarrow> ('x pipe_error, nat \<times> ('b, 'e) pipe) outcome" where
  "pipe_Write bwrite d p =
     (if pipe_err p \<noteq> None then Fail errClosedPipeWrite
      else if breakErr p \<noteq> None then Return (length d, p\<lparr>pipe_unread := pipe_unread p + length d\<rparr>)
      else case pipe_b p of
        None \<Rightarrow> Panic
      | Some b \<Rightarrow> bind_outcome (map_error PipeError (bwrite d b)) (\<lambda>(n, b). Return (n, p\<lparr>pipe_b := Some b\<rparr>)))"

definition closeDoneLocked :: "('b, 'e) pipe \<Rightarrow> ('b, 'e) pipe" where
  "closeDoneLocked p = (case donec p of None \<Rightarrow> p | Some _ \<Rightarrow> p\<lparr>donec := Some DoneClosed\<rparr>)"

text \<open>\<open>closeWithError\<close> with \<open>dst\<close> either \<open>&p.breakErr\<close> (\<open>brk\<close>) or \<open>&p.err\<close>; a nil error is \<open>None\<close>.\<close>

definition closeWithError :: "('b \<Rightarrow> nat) \<Rightarrow> bool \<Rightarrow> 'e option \<Rightarrow> nat option \<Rightarrow> ('b, 'e) pipe \<Rightarrow> (unit, ('b, 'e) pipe) outcome" where
  "closeWithError blen brk err fn p =
     (if err = None then Panic
      else if (if brk then breakErr p else pipe_err p) \<noteq> None then Return p
      else
        let p = p\<lparr>readFn := fn\<rparr>;
            p = (if brk then (case pipe_b p of None \<Rightarrow> p | Some b \<Rightarrow> p\<lparr>pipe_unread := pipe_unread p + blen b\<rparr>)\<lparr>pipe_b := None\<rparr> else p);
            p = (if brk then p\<lparr>breakErr := err\<rparr> else p\<lparr>pipe_err := err\<rparr>) in
        Return (closeDoneLocked p))"

definition CloseWithError :: "('b \<Rightarrow> nat) \<Rightarrow> 'e option \<Rightarrow> ('b, 'e) pipe \<Rightarrow> (unit, ('b, 'e) pipe) outcome" where
  "CloseWithError blen err p = closeWithError blen False err None p"

definition BreakWithError :: "('b \<Rightarrow> nat) \<Rightarrow> 'e option \<Rightarrow> ('b, 'e) pipe \<Rightarrow> (unit, ('b, 'e) pipe) outcome" where
  "BreakWithError blen err p = closeWithError blen True err None p"

definition closeWithErrorAndCode :: "('b \<Rightarrow> nat) \<Rightarrow> 'e option \<Rightarrow> nat option \<Rightarrow> ('b, 'e) pipe \<Rightarrow> (unit, ('b, 'e) pipe) outcome" where
  "closeWithErrorAndCode blen err fn p = closeWithError blen False err fn p"

definition pipe_Err :: "('b, 'e) pipe \<Rightarrow> 'e option" where
  "pipe_Err p = (if breakErr p \<noteq> None then breakErr p else pipe_err p)"

definition pipe_Done :: "('b, 'e) pipe \<Rightarrow> ('b, 'e) pipe" where
  "pipe_Done p =
     (if donec p = None then
        let p = p\<lparr>donec := Some DoneOpen\<rparr> in
        if pipe_err p \<noteq> None \<or> breakErr p \<noteq> None then closeDoneLocked p else p
      else p)"

section \<open>Histories\<close>

definition zero_pipe :: "('b, 'e) pipe" where
  "zero_pipe = \<lparr>pipe_b = None, pipe_unread = 0, pipe_err = None, breakErr = None, donec = None, readFn = None, ran = []\<rparr>"

text \<open>\<open>pipe_trace \<dots> p w r\<close>: some sequence of calls took a pipe set up with the empty buffer \<open>b0\<close> to \<open>p\<close>; the writers handed in the
  bytes \<open>w\<close> without an error, the readers got the bytes \<open>r\<close>.\<close>

inductive pipe_trace ::
  "('b \<Rightarrow> nat) \<Rightarrow> (bytes \<Rightarrow> 'b \<Rightarrow> ('x, nat \<times> 'b) outcome) \<Rightarrow> (nat \<Rightarrow> 'b \<Rightarrow> ('x, bytes \<times> 'b) outcome) \<Rightarrow> 'b \<Rightarrow>
   ('b, 'e) pipe \<Rightarrow> bytes \<Rightarrow> bytes \<Rightarrow> bool"
  for blen bwrite bread b0 where
  fresh: "pipe_trace blen bwrite bread b0 (setBuffer b0 zero_pipe) [] []"
| written: "\<lbrakk>pipe_trace blen bwrite bread b0 p w r; pipe_Write bwrite d p = Return (n, p')\<rbrakk> \<Longrightarrow> pipe_trace blen bwrite bread b0 p' (w @ d) r"
| got: "\<lbrakk>pipe_trace blen bwrite bread b0 p w r; pipe_Read blen bread n p = Return (Got bs, p')\<rbrakk> \<Longrightarrow> pipe_trace blen bwrite bread b0 p' w (r @ bs)"
| refused: "\<lbrakk>pipe_trace blen bwrite bread b0 p w r; pipe_Read blen bread n p = Return (ReadError e, p')\<rbrakk> \<Longrightarrow> pipe_trace blen bwrite bread b0 p' w r"
| closed: "\<lbrakk>pipe_trace blen bwrite bread b0 p w r; closeWithError blen brk err fn p = Return p'\<rbrakk> \<Longrightarrow> pipe_trace blen bwrite bread b0 p' w r"
| asked: "pipe_trace blen bwrite bread b0 p w r \<Longrightarrow> pipe_trace blen bwrite bread b0 (pipe_Done p) w r"

text \<open>A reader that calls \<open>Read\<close> until it returns something else than data.\<close>

fun read_until :: "('b \<Rightarrow> nat) \<Rightarrow> (nat \<Rightarrow> 'b \<Rightarrow> ('x, bytes \<times> 'b) outcome) \<Rightarrow> nat \<Rightarrow> nat \<Rightarrow> bytes \<Rightarrow> ('b, 'e) pipe \<Rightarrow>
    ('x, bytes \<times> 'e read_result \<times> ('b, 'e) pipe) outcome option" where
  "read_until blen bread 0 n acc p = None"
| "read_until blen bread (Suc k) n acc p =
     (case pipe_Read blen bread n p of
        Return (Got bs, p') \<Rightarrow> read_until blen bread k n (acc @ bs) p'
      | Return (res, p') \<Rightarrow> Some (Return (acc, res, p'))
      | Fail e \<Rightarrow> Some (Fail e)
      | Panic \<Rightarrow> Some Panic)"

context pipe_buffer
begin

definition pending_bytes :: "('b, 'x) pipe \<Rightarrow> bytes" where
  "pending_bytes p = (case pipe_b p of None \<Rightarrow> [] | Some b \<Rightarrow> queued b)"

definition trace_inv :: "('b, 'x) pipe \<Rightarrow> bytes \<Rightarrow> bytes \<Rightarrow> bool" where
  "trace_inv p w r \<longleftrightarrow>
     (\<forall>b. pipe_b p = Some b \<longrightarrow> valid b \<and> pipe_unread p = 0 \<and> breakErr p = None) \<and>
     (pipe_b p = None \<longrightarrow> pipe_err p \<noteq> None \<or> breakErr p \<noteq> None) \<and>
     (breakErr p = None \<longrightarrow> w = r @ pending_bytes p \<and> pipe_unread p = 0) \<and>
     (\<exists>lost. w = r @ lost \<and> pipe_Len blen p = length lost) \<and>
     (\<forall>c. donec p = Some c \<longrightarrow> (c = DoneClosed \<longleftrightarrow> pipe_Err p \<noteq> None))"

lemma trace_inv_fresh: "valid b0 \<Longrightarrow> queued b0 = [] \<Longrightarrow> trace_inv (setBuffer b0 zero_pipe) [] []"
  by (simp add: trace_inv_def setBuffer_def zero_pipe_def pending_bytes_def pipe_Len_def len_queued)

lemma write_cases:
  assumes "trace_inv p w r" "pipe_err p = None"
  shows "\<exists>p'. pipe_Write bwrite d p = Return (length d, p') \<and> trace_inv p' (w @ d) r"
proof (cases "breakErr p")
  case (Some e)
  then have nb: "pipe_b p = None" using assms(1) by (auto simp: trace_inv_def)
  have "pipe_Write bwrite d p = Return (length d, p\<lparr>pipe_unread := pipe_unread p + length d\<rparr>)"
    using Some assms(2) by (simp add: pipe_Write_def)
  moreover have "trace_inv (p\<lparr>pipe_unread := pipe_unread p + length d\<rparr>) (w @ d) r"
    using assms(1) Some nb by (auto simp: trace_inv_def pipe_Len_def pipe_Err_def)
  ultimately show ?thesis by blast
next
  case None
  then obtain b where b: "pipe_b p = Some b" "valid b" using assms by (auto simp: trace_inv_def)
  obtain b' where b': "bwrite d b = Return (length d, b')" "valid b'" "queued b' = queued b @ d"
    using write_queued [OF b(2)] by blast
  have "pipe_Write bwrite d p = Return (length d, p\<lparr>pipe_b := Some b'\<rparr>)"
    using None assms(2) b(1) b'(1) by (simp add: pipe_Write_def)
  moreover have "trace_inv (p\<lparr>pipe_b := Some b'\<rparr>) (w @ d) r"
    using assms(1) None b b' by (auto simp: trace_inv_def pipe_Len_def pending_bytes_def len_queued pipe_Err_def)
  ultimately show ?thesis by blast
qed

text \<open>Every outcome of a \<open>Read\<close>.\<close>

lemma read_cases:
  assumes "trace_inv p w r"
  obtains (broken) e where "breakErr p = Some e" "pipe_Read blen bread n p = Return (ReadError e, p)"
  | (data) p' where "breakErr p = None" "pending_bytes p \<noteq> []" "pipe_Read blen bread n p = Return (Got (take n (pending_bytes p)), p')"
      "trace_inv p' w (r @ take n (pending_bytes p))" "pending_bytes p' = drop n (pending_bytes p)" "pipe_err p' = pipe_err p" "breakErr p' = None"
  | (drained) e p' where "breakErr p = None" "pending_bytes p = []" "pipe_err p = Some e" "pipe_Read blen bread n p = Return (ReadError e, p')"
      "trace_inv p' w r"
  | (waits) "breakErr p = None" "pending_bytes p = []" "pipe_err p = None" "pipe_Read blen bread n p = Return (Waits, p)"
proof (cases "breakErr p")
  case (Some e)
  then show ?thesis using broken by (simp add: pipe_Read_def)
next
  case None
  show ?thesis
  proof (cases "pending_bytes p = []")
    case True
    then have rd: "pipe_Read blen bread n p = Return (read_drained p)"
      using None assms by (auto simp: pipe_Read_def pending_bytes_def trace_inv_def len_queued split: option.splits)
    show ?thesis
    proof (cases "pipe_err p")
      case err: (Some e)
      let ?p = "snd (read_drained p)"
      have "trace_inv ?p w r"
        using assms None True err
        by (auto simp: trace_inv_def read_drained_def pending_bytes_def pipe_Len_def pipe_Err_def split: option.splits)
      then show ?thesis using drained [of e ?p] None True err rd by (simp add: read_drained_def)
    qed (use waits None True rd in \<open>simp add: read_drained_def\<close>)
  next
    case False
    then obtain b where b: "pipe_b p = Some b" "valid b" "queued b \<noteq> []" "pending_bytes p = queued b"
      using assms by (auto simp: pending_bytes_def trace_inv_def split: option.splits)
    obtain b' where b': "bread n b = Return (take n (queued b), b')" "valid b'" "queued b' = drop n (queued b)"
      using read_queued [OF b(2,3)] by blast
    let ?p = "p\<lparr>pipe_b := Some b'\<rparr>"
    have "pipe_Read blen bread n p = Return (Got (take n (queued b)), ?p)"
      using None b b'(1) by (simp add: pipe_Read_def len_queued)
    moreover have "trace_inv ?p w (r @ take n (queued b))"
      using assms None b b'
      by (auto simp: trace_inv_def pipe_Len_def pending_bytes_def len_queued pipe_Err_def intro!: exI [of _ "drop n (queued b)"])
    ultimately show ?thesis using data [of ?p] None False b b' by (simp add: pending_bytes_def)
  qed
qed

lemma close_inv: "trace_inv p w r \<Longrightarrow> closeWithError blen brk err fn p = Return p' \<Longrightarrow> trace_inv p' w r"
  by (cases "pipe_b p"; cases "donec p"; cases brk)
    (auto simp: trace_inv_def closeWithError_def closeDoneLocked_def pipe_Len_def pending_bytes_def pipe_Err_def Let_def len_queued split: if_splits)

lemma done_inv: "trace_inv p w r \<Longrightarrow> trace_inv (pipe_Done p) w r"
  by (cases "pipe_b p"; cases "donec p")
    (auto simp: trace_inv_def pipe_Done_def closeDoneLocked_def pipe_Len_def pending_bytes_def pipe_Err_def Let_def split: if_splits)

lemma trace_ok: "pipe_trace blen bwrite bread b0 p w r \<Longrightarrow> valid b0 \<Longrightarrow> queued b0 = [] \<Longrightarrow> trace_inv p w r"
proof (induction rule: pipe_trace.induct)
  case fresh
  then show ?case by (rule trace_inv_fresh)
next
  case (written p w r d n p')
  then have i: "trace_inv p w r" by blast
  have "pipe_err p = None" using written.hyps(2) by (auto simp: pipe_Write_def split: if_splits)
  then show ?case using write_cases [OF i, of d] written.hyps(2) by auto
next
  case (got p w r n bs p')
  then have i: "trace_inv p w r" by blast
  show ?case by (cases rule: read_cases [OF i, of n]) (use got.hyps(2) in auto)
next
  case (refused p w r n e p')
  then have i: "trace_inv p w r" by blast
  show ?case by (cases rule: read_cases [OF i, of n]) (use refused.hyps(2) i in auto)
qed (auto intro: close_inv done_inv)

lemma reader_finishes:
  assumes "0 < n"
  shows "\<lbrakk>trace_inv p w r; breakErr p = None; pipe_err p = Some e; length (pending_bytes p) < k\<rbrakk> \<Longrightarrow>
    \<exists>p'. read_until blen bread k n acc p = Some (Return (acc @ pending_bytes p, ReadError e, p'))"
proof (induction k arbitrary: p r acc)
  case (Suc k)
  show ?case
  proof (cases rule: read_cases [OF Suc.prems(1), of n, case_names broken data drained waits])
    case (data p')
    have "length (pending_bytes p') < k" using data(2,5) Suc.prems(4) assms by (cases "pending_bytes p") auto
    then obtain p'' where "read_until blen bread k n (acc @ take n (pending_bytes p)) p' =
        Some (Return ((acc @ take n (pending_bytes p)) @ pending_bytes p', ReadError e, p''))"
      using Suc.IH [OF data(4,7), of "acc @ take n (pending_bytes p)"] data(6) Suc.prems(3) by auto
    then show ?thesis using data(3,5) by simp
  qed (use Suc.prems in auto)
qed simp

end

section \<open>Properties\<close>

text \<open>C15: Over any interleaving of calls on a pipe backed by a \<open>dataBuffer\<close>, what the readers got is a prefix of what was written, \<open>Len\<close> is the
  number of bytes accepted and not delivered (also when they were discarded because the pipe was broken), as long as the pipe is not
  broken no byte is lost, and the channel of \<open>Done\<close> is closed exactly when \<open>Err\<close> reports an error.\<close>

theorem pipe_accounting:
  assumes "pipe_trace buffer_Len (buffer_Write chunk_of) buffer_Read zero_dataBuffer p w r" "class_sized chunk_of"
  shows "(\<exists>lost. w = r @ lost \<and> pipe_Len buffer_Len p = length lost) \<and>
    (\<forall>b. pipe_b p = Some b \<longrightarrow> w = r @ content b) \<and>
    (\<forall>c. donec p = Some c \<longrightarrow> (c = DoneClosed \<longleftrightarrow> pipe_Err p \<noteq> None))"
proof -
  have loc: "pipe_buffer buffer_Len (buffer_Write chunk_of) buffer_Read content buffer_ok"
    by (rule dataBuffer_pipe_buffer [OF assms(2)])
  have "pipe_buffer.trace_inv buffer_Len content buffer_ok p w r"
    by (rule pipe_buffer.trace_ok [OF loc assms(1)]) simp_all
  then show ?thesis
    by (auto simp: pipe_buffer.trace_inv_def [OF loc] pipe_buffer.pending_bytes_def [OF loc])
qed

theorem pipe_accounting_witness:
  "\<exists>p :: (dataBuffer, unit) pipe. pipe_trace buffer_Len (buffer_Write zero_chunk) buffer_Read zero_dataBuffer p [7, 8] [] \<and>
     pipe_Len buffer_Len p = 2"
proof -
  let ?p = "setBuffer zero_dataBuffer zero_pipe :: (dataBuffer, unit) pipe"
  obtain b where "buffer_Write zero_chunk [7, 8] zero_dataBuffer = Return (length [7, 8 :: u8], b)"
    using data_buffer.write_queued [OF zero_dataBuffer_ok(1), of "[7, 8]"] by blast
  then have "pipe_Write (buffer_Write zero_chunk) [7, 8] ?p = Return (2, ?p\<lparr>pipe_b := Some b\<rparr>)"
    by (simp add: pipe_Write_def setBuffer_def zero_pipe_def)
  then have t: "pipe_trace buffer_Len (buffer_Write zero_chunk) buffer_Read zero_dataBuffer (?p\<lparr>pipe_b := Some b\<rparr>) [7, 8] []"
    using written [OF fresh, where d = "[7, 8]"] by fastforce
  then show ?thesis using pipe_accounting [OF t class_sized_zero] by (intro exI conjI) auto
qed

text \<open>C31: When the writing end of a pipe has been closed with an error and the pipe is not broken, a reader that keeps calling \<open>Read\<close> with any non-empty
  slice never waits or fails: after at most as many calls as bytes are left, and one more, it has received every byte written
  and gets the error.\<close>

theorem pipe_reader_finishes:
  assumes "pipe_trace buffer_Len (buffer_Write chunk_of) buffer_Read zero_dataBuffer p w r" "class_sized chunk_of"
    "breakErr p = None" "pipe_err p = Some e" "0 < n"
  shows "\<exists>rest p'. w = r @ rest \<and>
    read_until buffer_Len buffer_Read (pipe_Len buffer_Len p + 1) n [] p = Some (Return (rest, ReadError e, p'))"
proof -
  have loc: "pipe_buffer buffer_Len (buffer_Write chunk_of) buffer_Read content buffer_ok"
    by (rule dataBuffer_pipe_buffer [OF assms(2)])
  have inv: "pipe_buffer.trace_inv buffer_Len content buffer_ok p w r"
    by (rule pipe_buffer.trace_ok [OF loc assms(1)]) simp_all
  let ?rest = "pipe_buffer.pending_bytes content p"
  have "w = r @ ?rest" "pipe_Len buffer_Len p = length ?rest"
    using inv assms(3) by (auto simp: pipe_buffer.trace_inv_def [OF loc])
  then show ?thesis using pipe_buffer.reader_finishes [OF loc assms(5) inv assms(3,4), of "pipe_Len buffer_Len p + 1" "[]"] by auto
qed

theorem pipe_reader_finishes_witness:
  "\<exists>p p'. pipe_trace buffer_Len (buffer_Write zero_chunk) buffer_Read zero_dataBuffer (p :: (dataBuffer, nat) pipe) [] [] \<and>
     read_until buffer_Len buffer_Read (pipe_Len buffer_Len p + 1) 5 [] p = Some (Return ([], ReadError 42, p'))"
proof -
  let ?p = "(setBuffer zero_dataBuffer zero_pipe)\<lparr>pipe_err := Some 42\<rparr> :: (dataBuffer, nat) pipe"
  have "closeWithError buffer_Len False (Some 42) None (setBuffer zero_dataBuffer zero_pipe) = Return ?p"
    by (simp add: closeWithError_def closeDoneLocked_def setBuffer_def zero_pipe_def)
  then have t: "pipe_trace buffer_Len (buffer_Write zero_chunk) buffer_Read zero_dataBuffer ?p [] []"
    by (rule closed [OF fresh])
  have c: "breakErr ?p = None" "pipe_err ?p = Some 42" by (simp_all add: setBuffer_def zero_pipe_def)
  show ?thesis using pipe_reader_finishes [OF t class_sized_zero c, of 5] t by auto
qed

end
