(* ===== verification/H2_Flow.thy ===== *)
theory H2_Flow
  imports Prelude
begin

text \<open>
  Flow control windows of \<open>src/http2/flow.go\<close>.  A window is a signed 32 bit integer that wraps; a stream's window points to
  the window of its connection, so windows live in a store from references to \<open>flow\<close> records.
\<close>

type_synonym i32 = "32 word"
type_synonym flow_ref = nat

record flow =
  flow_n :: i32
  flow_conn :: "flow_ref option"

type_synonym flows = "flow_ref \<Rightarrow> flow"

definition setConnFlow :: "flow_ref \<Rightarrow> flow_ref \<Rightarrow> flows \<Rightarrow> flows" where
  "setConnFlow f cf s = s(f := (s f)\<lparr>flow_conn := Some cf\<rparr>)"

definition flow_available :: "flows \<Rightarrow> flow_ref \<Rightarrow> i32" where
  "flow_available s f =
     (let n = flow_n (s f) in
      case flow_conn (s f) of
        Some c \<Rightarrow> if sint (flow_n (s c)) < sint n then flow_n (s c) else n
      | None \<Rightarrow> n)"

definition flow_take :: "flow_ref \<Rightarrow> i32 \<Rightarrow> flows \<Rightarrow> (unit, flows) outcome" where
  "flow_take f n s =
     (if sint n > sint (flow_available s f) then Panic
      else
        let s = s(f := (s f)\<lparr>flow_n := flow_n (s f) - n\<rparr>) in
        case flow_conn (s f) of
          Some c \<Rightarrow> Return (s(c := (s c)\<lparr>flow_n := flow_n (s c) - n\<rparr>))
        | None \<Rightarrow> Return s)"

definition flow_add :: "flow_ref \<Rightarrow> i32 \<Rightarrow> flows \<Rightarrow> bool \<times> flows" where
  "flow_add f n s =
     (let sum = flow_n (s f) + n in
      if (sint sum > sint n) = (sint (flow_n (s f)) > 0) then (True, s(f := (s f)\<lparr>flow_n := sum\<rparr>))
      else (False, s))"

section \<open>Signed arithmetic\<close>

lemma sint_range: "- (2 ^ 31) \<le> sint (w :: i32)" "sint (w :: i32) < 2 ^ 31"
  using sint_ge [of w] sint_lt [of w] by simp_all

lemma signed_wrap:
  assumes "- (2 ^ 32) \<le> x" "x < 2 ^ 32"
  shows "signed_take_bit 31 (x :: int) = (if x \<ge> 2 ^ 31 then x - 2 ^ 32 else if x < - (2 ^ 31) then x + 2 ^ 32 else x)"
proof -
  have m: "signed_take_bit 31 x = (x + 2 ^ 31) mod 2 ^ 32 - 2 ^ 31"
    by (simp add: signed_take_bit_eq_take_bit_shift take_bit_eq_mod)
  show ?thesis
  proof (cases "x \<ge> 2 ^ 31")
    case True
    have "(x + 2 ^ 31 - 2 ^ 32 + 2 ^ 32) mod 2 ^ 32 = (x + 2 ^ 31 - 2 ^ 32) mod 2 ^ 32" by (rule mod_add_self2)
    also have "\<dots> = x + 2 ^ 31 - 2 ^ 32" using assms True by (intro mod_pos_pos_trivial) auto
    finally have "(x + 2 ^ 31) mod 2 ^ 32 = x + 2 ^ 31 - 2 ^ 32" by (simp add: add.commute)
    then show ?thesis using m True by simp
  next
    case False
    show ?thesis
    proof (cases "x < - (2 ^ 31)")
      case True
      have "(x + 2 ^ 31 + 2 ^ 32) mod 2 ^ 32 = x + 2 ^ 31 + 2 ^ 32" using assms True by (intro mod_pos_pos_trivial) auto
      then have "(x + 2 ^ 31) mod 2 ^ 32 = x + 2 ^ 31 + 2 ^ 32" by (simp only: mod_add_self2)
      then show ?thesis using m True False by simp
    next
      case F2: False
      have "(x + 2 ^ 31) mod 2 ^ 32 = x + 2 ^ 31" using False F2 by (intro mod_pos_pos_trivial) auto
      then show ?thesis using m False F2 by simp
    qed
  qed
qed

lemma sint_plus: "sint (a + b :: i32) = (let x = sint a + sint b in if x \<ge> 2 ^ 31 then x - 2 ^ 32 else if x < - (2 ^ 31) then x + 2 ^ 32 else x)"
proof -
  have "sint (a + b) = signed_take_bit 31 (sint a + sint b)" by (simp add: sint_word_ariths)
  then show ?thesis using signed_wrap [of "sint a + sint b"] sint_range [of a] sint_range [of b] by (simp add: Let_def)
qed

lemma sint_minus: "0 \<le> sint n \<Longrightarrow> sint n \<le> sint a \<Longrightarrow> sint (a - n :: i32) = sint a - sint n"
proof -
  assume n: "0 \<le> sint n" "sint n \<le> sint a"
  have "sint (a - n) = signed_take_bit 31 (sint a - sint n)" by (simp add: sint_word_ariths)
  then show ?thesis using n signed_wrap [of "sint a - sint n"] sint_range [of a] by simp
qed

section \<open>Taking from a window\<close>

text \<open>A window together with the connection's window it points to.\<close>

definition flow_wf :: "flows \<Rightarrow> flow_ref \<Rightarrow> bool" where
  "flow_wf s f \<longleftrightarrow> (case flow_conn (s f) of Some c \<Rightarrow> c \<noteq> f | None \<Rightarrow> True)"

lemma flow_available_le:
  "sint (flow_available s f) \<le> sint (flow_n (s f))"
  "flow_conn (s f) = Some c \<Longrightarrow> sint (flow_available s f) \<le> sint (flow_n (s c))"
  by (auto simp: flow_available_def Let_def split: option.splits)

lemma flow_take_ok:
  assumes "flow_wf s f" "0 \<le> sint n" "sint n \<le> sint (flow_available s f)"
  obtains s' where "flow_take f n s = Return s'" "sint (flow_n (s' f)) = sint (flow_n (s f)) - sint n"
    "\<And>c. flow_conn (s f) = Some c \<Longrightarrow> sint (flow_n (s' c)) = sint (flow_n (s c)) - sint n"
    "\<And>g. g \<noteq> f \<Longrightarrow> flow_conn (s f) \<noteq> Some g \<Longrightarrow> s' g = s g" "\<And>g. flow_conn (s' g) = flow_conn (s g)"
    "sint (flow_available s' f) = sint (flow_available s f) - sint n"
proof -
  have n: "sint n \<le> sint (flow_n (s f))" using flow_available_le(1) [of s f] assms(3) by simp
  have f: "sint (flow_n (s f) - n) = sint (flow_n (s f)) - sint n" by (rule sint_minus [OF assms(2) n])
  show ?thesis
  proof (cases "flow_conn (s f)")
    case None
    let ?s = "s(f := (s f)\<lparr>flow_n := flow_n (s f) - n\<rparr>)"
    have "flow_take f n s = Return ?s" using None assms(3) by (simp add: flow_take_def Let_def)
    then show ?thesis by (rule that [of ?s]) (use None f in \<open>auto simp: flow_available_def Let_def\<close>)
  next
    case (Some c)
    then have c: "c \<noteq> f" using assms(1) by (simp add: flow_wf_def)
    have "sint (flow_n (s c) - n) = sint (flow_n (s c)) - sint n"
      using flow_available_le(2) [of s f c] Some assms(2,3) by (intro sint_minus) auto
    moreover let ?s = "s(f := (s f)\<lparr>flow_n := flow_n (s f) - n\<rparr>, c := (s c)\<lparr>flow_n := flow_n (s c) - n\<rparr>)"
    have take: "flow_take f n s = Return ?s" using Some c assms(3) by (simp add: flow_take_def Let_def)
    ultimately show ?thesis by (intro that [OF take]) (use Some c f in \<open>auto simp: flow_available_def Let_def\<close>)
  qed
qed

section \<open>Properties\<close>

text \<open>\<open>add\<close> returns true, and sets the window to the sum, exactly when the sum fits a signed 32 bit integer; otherwise it returns
  false and changes nothing.\<close>

theorem flow_add_exact:
  "flow_add f n s =
     (let sum = sint (flow_n (s f)) + sint n in
      if - (2 ^ 31) \<le> sum \<and> sum < 2 ^ 31 then (True, s(f := (s f)\<lparr>flow_n := word_of_int sum\<rparr>)) else (False, s))"
proof -
  have "(sint (flow_n (s f) + n) > sint n) = (sint (flow_n (s f)) > 0) \<longleftrightarrow>
      - (2 ^ 31) \<le> sint (flow_n (s f)) + sint n \<and> sint (flow_n (s f)) + sint n < 2 ^ 31"
    unfolding sint_plus Let_def using sint_range [of "flow_n (s f)"] sint_range [of n] by auto
  moreover have "word_of_int (sint (flow_n (s f)) + sint n) = flow_n (s f) + n" by simp
  ultimately show ?thesis by (simp add: flow_add_def Let_def)
qed

end
