(* ===== verification/H2_Sched.thy ===== *)
theory H2_Sched
  imports H2_Flow
begin

text \<open>
  The write queues of \<open>src/http2/writesched.go\<close> and the scheduler of \<open>src/http2/writesched_random.go\<close>.  Consuming a DATA frame takes from
  the flow control windows of its stream, so the operations pass the store of windows and the connection's \<open>maxFrameSize\<close>
  along.  The pointer \<open>stream\<close> is an optional record of the fields the scheduler reads, a channel \<open>done\<close> is a number, and the
  frames other than DATA and RST_STREAM are numbered.  Go leaves the order of \<open>range\<close> over a map open: \<open>Pop\<close> takes
  the order of the stream ids as an argument, and the properties hold for every order.
\<close>

section \<open>Requests\<close>

record stream =
  stream_id :: u32
  stream_flow :: flow_ref

datatype writeFramer = writeData u32 bytes bool | writeStreamError u32 u32 | writeOther nat

record FrameWriteRequest =
  wr_write :: "writeFramer option"
  wr_stream :: "stream option"
  wr_done :: "nat option"

definition empty_request :: FrameWriteRequest where
  "empty_request = \<lparr>wr_write = None, wr_stream = None, wr_done = None\<rparr>"

record write_env =
  env_flows :: flows
  maxFrameSize :: i32

definition StreamID :: "FrameWriteRequest \<Rightarrow> u32" where
  "StreamID wr =
     (case wr_stream wr of
        None \<Rightarrow> (case wr_write wr of Some (writeStreamError sid code) \<Rightarrow> sid | _ \<Rightarrow> 0)
      | Some st \<Rightarrow> stream_id st)"

definition isControl :: "FrameWriteRequest \<Rightarrow> bool" where
  "isControl wr \<longleftrightarrow> wr_stream wr = None"

definition DataSize :: "FrameWriteRequest \<Rightarrow> nat" where
  "DataSize wr = (case wr_write wr of Some (writeData sid p endStream) \<Rightarrow> length p | _ \<Rightarrow> 0)"

text \<open>The three limits of \<open>Consume\<close>.\<close>

definition allowed_bytes :: "i32 \<Rightarrow> stream \<Rightarrow> write_env \<Rightarrow> i32" where
  "allowed_bytes n st env =
     (let allowed = flow_available (env_flows env) (stream_flow st);
          allowed = (if sint n < sint allowed then n else allowed) in
      if sint (maxFrameSize env) < sint allowed then maxFrameSize env else allowed)"

type_synonym consume_result = "FrameWriteRequest \<times> FrameWriteRequest \<times> nat"

definition Consume :: "FrameWriteRequest \<Rightarrow> i32 \<Rightarrow> write_env \<Rightarrow> (unit, consume_result \<times> write_env) outcome" where
  "Consume wr n env =
     (case wr_write wr of
        Some (writeData sid p endStream) \<Rightarrow>
          if length p = 0 then Return ((wr, empty_request, 1), env)
          else
            (case wr_stream wr of
               None \<Rightarrow> Panic
             | Some st \<Rightarrow>
                 let allowed = allowed_bytes n st env in
                 if sint allowed \<le> 0 then Return ((empty_request, empty_request, 0), env)
                 else if int (length p) > sint allowed then
                   bind_outcome (flow_take (stream_flow st) allowed (env_flows env)) (\<lambda>fl.
                   Return ((\<lparr>wr_write = Some (writeData sid (take (nat (sint allowed)) p) False), wr_stream = Some st, wr_done = None\<rparr>,
                            \<lparr>wr_write = Some (writeData sid (drop (nat (sint allowed)) p) endStream), wr_stream = Some st, wr_done = wr_done wr\<rparr>, 2),
                           env\<lparr>env_flows := fl\<rparr>))
                 else
                   bind_outcome (flow_take (stream_flow st) (of_nat (length p)) (env_flows env)) (\<lambda>fl.
                   Return ((wr, empty_request, 1), env\<lparr>env_flows := fl\<rparr>)))
      | _ \<Rightarrow> Return ((wr, empty_request, 1), env))"

section \<open>Queues\<close>

type_synonym writeQueue = "FrameWriteRequest list"

definition queue_empty :: "writeQueue \<Rightarrow> bool" where
  "queue_empty q \<longleftrightarrow> length q = 0"

definition queue_push :: "FrameWriteRequest \<Rightarrow> writeQueue \<Rightarrow> writeQueue" where
  "queue_push wr q = q @ [wr]"

fun queue_shift :: "writeQueue \<Rightarrow> (unit, FrameWriteRequest \<times> writeQueue) outcome" where
  "queue_shift [] = Panic"
| "queue_shift (wr # q) = Return (wr, q)"

fun queue_consume :: "i32 \<Rightarrow> writeQueue \<Rightarrow> write_env \<Rightarrow> (unit, (FrameWriteRequest \<times> bool) \<times> writeQueue \<times> write_env) outcome" where
  "queue_consume n [] env = Return ((empty_request, False), [], env)"
| "queue_consume n (wr # q) env =
     bind_outcome (Consume wr n env) (\<lambda>((consumed, rest, numresult), env).
     if numresult = 0 then Return ((empty_request, False), wr # q, env)
     else if numresult = 1 then bind_outcome (queue_shift (wr # q)) (\<lambda>(_, q). Return ((consumed, True), q, env))
     else Return ((consumed, True), rest # q, env))"

type_synonym writeQueuePool = "writeQueue list"

definition pool_put :: "writeQueue \<Rightarrow> writeQueuePool \<Rightarrow> writeQueuePool" where
  "pool_put q p = p @ [take 0 q]"

definition pool_get :: "writeQueuePool \<Rightarrow> writeQueue \<times> writeQueuePool" where
  "pool_get p = (if length p = 0 then ([], p) else (last p, butlast p))"

section \<open>The random scheduler\<close>

record randomWriteScheduler =
  zero :: writeQueue
  sq :: "u32 \<rightharpoonup> writeQueue"
  queuePool :: writeQueuePool

definition NewRandomWriteScheduler :: randomWriteScheduler where
  "NewRandomWriteScheduler = \<lparr>zero = [], sq = (\<lambda>_. None), queuePool = []\<rparr>"

definition OpenStream :: "u32 \<Rightarrow> u32 \<Rightarrow> randomWriteScheduler \<Rightarrow> randomWriteScheduler" where
  "OpenStream streamID pusherID ws = ws"

definition AdjustStream :: "u32 \<Rightarrow> 'priority \<Rightarrow> randomWriteScheduler \<Rightarrow> randomWriteScheduler" where
  "AdjustStream streamID priority ws = ws"

definition CloseStream :: "u32 \<Rightarrow> randomWriteScheduler \<Rightarrow> randomWriteScheduler" where
  "CloseStream streamID ws =
     (case sq ws streamID of
        None \<Rightarrow> ws
      | Some q \<Rightarrow> ws\<lparr>sq := (sq ws)(streamID := None), queuePool := pool_put q (queuePool ws)\<rparr>)"

definition sched_Push :: "FrameWriteRequest \<Rightarrow> randomWriteScheduler \<Rightarrow> randomWriteScheduler" where
  "sched_Push wr ws =
     (if isControl wr then ws\<lparr>zero := queue_push wr (zero ws)\<rparr>
      else
        let i = StreamID wr;
            (q, pool) = (case sq ws i of Some q \<Rightarrow> (q, queuePool ws) | None \<Rightarrow> pool_get (queuePool ws)) in
        ws\<lparr>sq := (sq ws)(i \<mapsto> queue_push wr q), queuePool := pool\<rparr>)"

definition maxInt32 :: i32 where
  "maxInt32 = 0x7FFFFFFF"

type_synonym pop_result = "(FrameWriteRequest \<times> bool) \<times> randomWriteScheduler \<times> write_env"

text \<open>The loop of \<open>Pop\<close> over the streams.\<close>

fun pop_streams :: "u32 list \<Rightarrow> randomWriteScheduler \<Rightarrow> write_env \<Rightarrow> (unit, pop_result) outcome" where
  "pop_streams [] ws env = Return ((empty_request, False), ws, env)"
| "pop_streams (i # ids) ws env =
     (case sq ws i of
        None \<Rightarrow> pop_streams ids ws env
      | Some q \<Rightarrow>
          bind_outcome (queue_consume maxInt32 q env) (\<lambda>((wr, ok), q, env).
          if ok then
            if queue_empty q then Return ((wr, True), ws\<lparr>sq := (sq ws)(i := None), queuePool := pool_put q (queuePool ws)\<rparr>, env)
            else Return ((wr, True), ws\<lparr>sq := (sq ws)(i \<mapsto> q)\<rparr>, env)
          else pop_streams ids (ws\<lparr>sq := (sq ws)(i \<mapsto> q)\<rparr>) env))"

definition sched_Pop :: "u32 list \<Rightarrow> randomWriteScheduler \<Rightarrow> write_env \<Rightarrow> (unit, pop_result) outcome" where
  "sched_Pop ids ws env =
     (if \<not> queue_empty (zero ws) then
        bind_outcome (queue_shift (zero ws)) (\<lambda>(wr, q). Return ((wr, True), ws\<lparr>zero := q\<rparr>, env))
      else pop_streams ids ws env)"

section \<open>Consuming\<close>

lemma allowed_le:
  "sint (allowed_bytes n st env) \<le> sint (flow_available (env_flows env) (stream_flow st))"
  "sint (allowed_bytes n st env) \<le> sint n" "sint (allowed_bytes n st env) \<le> sint (maxFrameSize env)"
  by (auto simp: allowed_bytes_def Let_def)

definition env_ok :: "write_env \<Rightarrow> bool" where
  "env_ok env \<longleftrightarrow> (\<forall>f. flow_wf (env_flows env) f)"

text \<open>The windows after \<open>k\<close> bytes were taken for the stream \<open>st\<close>.\<close>

definition charged :: "stream \<Rightarrow> nat \<Rightarrow> write_env \<Rightarrow> write_env \<Rightarrow> bool" where
  "charged st k env env' \<longleftrightarrow> env_ok env' \<and> maxFrameSize env' = maxFrameSize env \<and>
     (let s = env_flows env; s' = env_flows env'; f = stream_flow st in
      sint (flow_n (s' f)) = sint (flow_n (s f)) - int k \<and>
      (\<forall>c. flow_conn (s f) = Some c \<longrightarrow> sint (flow_n (s' c)) = sint (flow_n (s c)) - int k) \<and>
      (\<forall>g. g \<noteq> f \<longrightarrow> flow_conn (s f) \<noteq> Some g \<longrightarrow> s' g = s g) \<and> (\<forall>g. flow_conn (s' g) = flow_conn (s g)))"

lemma take_charged:
  assumes "env_ok env" "sint a = int k" "int k \<le> sint (flow_available (env_flows env) (stream_flow st))"
  obtains fl where "flow_take (stream_flow st) a (env_flows env) = Return fl" "charged st k env (env\<lparr>env_flows := fl\<rparr>)"
proof -
  have "flow_wf (env_flows env) (stream_flow st)" using assms(1) by (simp add: env_ok_def)
  moreover have "0 \<le> sint a" "sint a \<le> sint (flow_available (env_flows env) (stream_flow st))" using assms(2,3) by auto
  ultimately show ?thesis
    by (rule flow_take_ok) (rule that, use assms in \<open>auto simp: charged_def Let_def env_ok_def flow_wf_def split: option.splits\<close>)
qed

text \<open>A DATA frame with bytes; only these are subject to flow control.\<close>

definition is_data :: "FrameWriteRequest \<Rightarrow> bool" where
  "is_data wr \<longleftrightarrow> DataSize wr > 0"

text \<open>The items a request puts on its stream: the bytes of DATA, with a mark behind them for the end of the stream or the completion of
  the writer, or the frame itself.\<close>

datatype item = Byte u8 | Mark bool "nat option" | Frame "writeFramer option" "nat option"

definition items :: "FrameWriteRequest \<Rightarrow> item list" where
  "items wr =
     (case wr_write wr of
        Some (writeData sid p endStream) \<Rightarrow> map Byte p @ (if endStream \<or> wr_done wr \<noteq> None then [Mark endStream (wr_done wr)] else [])
      | w \<Rightarrow> [Frame w (wr_done wr)])"

definition request_ok :: "u32 \<Rightarrow> FrameWriteRequest \<Rightarrow> bool" where
  "request_ok i wr \<longleftrightarrow> (\<exists>st. wr_stream wr = Some st \<and> stream_id st = i)"

lemma Consume_cases:
  assumes "env_ok env" "request_ok i wr"
  obtains (free) "\<not> is_data wr" "Consume wr n env = Return ((wr, empty_request, 1), env)"
  | (blocked) st where "is_data wr" "wr_stream wr = Some st" "sint (allowed_bytes n st env) \<le> 0" "Consume wr n env = Return ((empty_request, empty_request, 0), env)"
  | (whole) st env' where "is_data wr" "wr_stream wr = Some st" "int (DataSize wr) \<le> sint (allowed_bytes n st env)"
      "Consume wr n env = Return ((wr, empty_request, 1), env')" "charged st (DataSize wr) env env'"
  | (split) st c r env' where "is_data wr" "wr_stream wr = Some st" "0 < sint (allowed_bytes n st env)" "Consume wr n env = Return ((c, r, 2), env')"
      "int (DataSize c) = sint (allowed_bytes n st env)" "items c @ items r = items wr" "DataSize c + DataSize r = DataSize wr" "is_data r"
      "request_ok i c" "request_ok i r" "charged st (DataSize c) env env'"
proof (cases "is_data wr")
  case False
  then have "Consume wr n env = Return ((wr, empty_request, 1), env)"
    by (auto simp: Consume_def is_data_def DataSize_def split: option.splits writeFramer.splits)
  then show ?thesis using free False by simp
next
  case True
  then obtain sid p es where d: "wr_write wr = Some (writeData sid p es)" "p \<noteq> []"
    by (auto simp: is_data_def DataSize_def split: option.splits writeFramer.splits)
  obtain st where st: "wr_stream wr = Some st" "stream_id st = i" using assms(2) by (auto simp: request_ok_def)
  let ?a = "allowed_bytes n st env"
  have le: "sint ?a \<le> sint (flow_available (env_flows env) (stream_flow st))" by (rule allowed_le)
  show ?thesis
  proof (cases "sint ?a \<le> 0")
    case blk: True
    then show ?thesis using blocked [OF True st(1)] d st by (simp add: Consume_def Let_def)
  next
    case pos: False
    show ?thesis
    proof (cases "int (length p) > sint ?a")
      case gt: True
      let ?k = "nat (sint ?a)"
      obtain fl where fl: "flow_take (stream_flow st) ?a (env_flows env) = Return fl" "charged st ?k env (env\<lparr>env_flows := fl\<rparr>)"
        by (rule take_charged [OF assms(1), of ?a ?k st]) (use pos le in auto)
      let ?c = "\<lparr>wr_write = Some (writeData sid (take ?k p) False), wr_stream = Some st, wr_done = None\<rparr>"
      let ?r = "\<lparr>wr_write = Some (writeData sid (drop ?k p) es), wr_stream = Some st, wr_done = wr_done wr\<rparr>"
      have "Consume wr n env = Return ((?c, ?r, 2), env\<lparr>env_flows := fl\<rparr>)"
        using d st pos gt fl(1) by (simp add: Consume_def Let_def del: bind_outcome_Return_iff)
      moreover have "items ?c @ items ?r = items wr"
        using d by (simp add: items_def flip: map_append append.assoc)
      moreover have "DataSize ?c = ?k" "DataSize ?c + DataSize ?r = DataSize wr" "is_data ?r"
        using d gt pos by (auto simp: DataSize_def is_data_def)
      ultimately show ?thesis using split [OF True st(1)] pos fl(2) st(2) by (simp add: request_ok_def)
    next
      case le2: False
      have "int (length p) < 2 ^ 31" using le2 sint_range(2) [of ?a] by simp
      then have "sint (of_nat (length p) :: i32) = int (length p)"
        by (simp add: signed_take_bit_int_eq_self signed_of_nat)
      moreover have "int (length p) \<le> sint (flow_available (env_flows env) (stream_flow st))" using le le2 by simp
      ultimately obtain fl where fl: "flow_take (stream_flow st) (of_nat (length p)) (env_flows env) = Return fl"
          "charged st (length p) env (env\<lparr>env_flows := fl\<rparr>)"
        by (rule take_charged [OF assms(1)])
      then have "Consume wr n env = Return ((wr, empty_request, 1), env\<lparr>env_flows := fl\<rparr>)"
        using d st pos le2 by (simp add: Consume_def Let_def del: bind_outcome_Return_iff)
      then show ?thesis using whole [OF True st(1)] d fl(2) le2 by (simp add: DataSize_def)
    qed
  qed
qed

section \<open>Queues as item sequences\<close>

definition queue_items :: "writeQueue \<Rightarrow> item list" where
  "queue_items q = concat (map items q)"

definition queue_work :: "writeQueue \<Rightarrow> nat" where
  "queue_work q = sum_list (map (\<lambda>wr. Suc (DataSize wr)) q)"

lemma queue_simps [simp]: "queue_items [] = []" "queue_items (wr # q) = items wr @ queue_items q" "queue_items (q @ q') = queue_items q @ queue_items q'"
  "queue_work [] = 0" "queue_work (wr # q) = Suc (DataSize wr) + queue_work q"
  by (simp_all add: queue_items_def queue_work_def)

text \<open>The head of the queue is held back by flow control or the frame size.\<close>

definition held_back :: "write_env \<Rightarrow> writeQueue \<Rightarrow> bool" where
  "held_back env q \<longleftrightarrow> (\<exists>wr q' st. q = wr # q' \<and> is_data wr \<and> wr_stream wr = Some st \<and>
     (sint (flow_available (env_flows env) (stream_flow st)) \<le> 0 \<or> sint (maxFrameSize env) \<le> 0))"

lemma maxInt32_blocked:
  "sint (allowed_bytes maxInt32 st env) \<le> 0 \<longleftrightarrow> sint (flow_available (env_flows env) (stream_flow st)) \<le> 0 \<or> sint (maxFrameSize env) \<le> 0"
proof -
  have "sint maxInt32 = 2 ^ 31 - 1" by (simp add: maxInt32_def)
  then show ?thesis using sint_range(2) [of "flow_available (env_flows env) (stream_flow st)"]
    by (auto simp: allowed_bytes_def Let_def)
qed

lemma queue_consume_cases:
  assumes "env_ok env" "q \<noteq> []" "\<forall>wr \<in> set q. request_ok i wr"
  obtains (blocked) "held_back env q" "queue_consume maxInt32 q env = Return ((empty_request, False), q, env)"
  | (taken) wr q' env' where "queue_consume maxInt32 q env = Return ((wr, True), q', env')" "items wr @ queue_items q' = queue_items q"
      "request_ok i wr" "\<forall>wr \<in> set q'. request_ok i wr" "env_ok env'" "queue_work q' < queue_work q"
proof -
  obtain wr q1 where q: "q = wr # q1" using assms(2) by (cases q) auto
  have ok: "request_ok i wr" "\<forall>wr \<in> set q1. request_ok i wr" using assms(3) q by auto
  show ?thesis
  proof (cases rule: Consume_cases [OF assms(1) ok(1), of maxInt32, case_names free blocked whole split])
    case free
    then show ?thesis using taken [of wr q1 env] q ok assms(1) by simp
  next
    case (blocked st)
    then have "held_back env q" using q maxInt32_blocked [of st env] by (auto simp: held_back_def)
    then show ?thesis using that(1) blocked(4) q by simp
  next
    case (whole st env')
    then show ?thesis using taken [of wr q1 env'] q ok by (simp add: charged_def)
  next
    case (split st c r env')
    have "0 < DataSize c" using split(3,5) by linarith
    then show ?thesis using taken [of c "r # q1" env'] q ok split by (simp add: charged_def flip: append.assoc)
  qed
qed

section \<open>The scheduler's invariant\<close>

definition sched_ok :: "randomWriteScheduler \<Rightarrow> bool" where
  "sched_ok ws \<longleftrightarrow> finite (dom (sq ws)) \<and> (\<forall>i q. sq ws i = Some q \<longrightarrow> q \<noteq> [] \<and> (\<forall>wr \<in> set q. request_ok i wr)) \<and>
     (\<forall>wr \<in> set (zero ws). isControl wr) \<and> (\<forall>q \<in> set (queuePool ws). q = [])"

definition stream_queue :: "randomWriteScheduler \<Rightarrow> u32 \<Rightarrow> writeQueue" where
  "stream_queue ws i = (case sq ws i of None \<Rightarrow> [] | Some q \<Rightarrow> q)"

definition sched_work :: "randomWriteScheduler \<Rightarrow> nat" where
  "sched_work ws = length (zero ws) + (\<Sum>i \<in> dom (sq ws). queue_work (stream_queue ws i))"

lemma pool_put_simp [simp]: "pool_put q p = p @ [[]]"
  by (simp add: pool_put_def)

lemma pool_get_ok:
  assumes "\<forall>q \<in> set p. q = []"
  obtains p' where "pool_get p = ([], p')" "\<forall>q \<in> set p'. q = []"
  using assms that [of "butlast p"] that [of p] by (cases p rule: rev_cases) (auto simp: pool_get_def)

lemma Push_ok:
  assumes "sched_ok ws"
  shows "sched_ok (sched_Push wr ws)"
    "stream_queue (sched_Push wr ws) i = stream_queue ws i @ (if \<not> isControl wr \<and> StreamID wr = i then [wr] else [])"
    "zero (sched_Push wr ws) = zero ws @ (if isControl wr then [wr] else [])"
proof -
  have "\<forall>q \<in> set (queuePool ws). q = []" using assms by (simp add: sched_ok_def)
  then obtain p where pool: "pool_get (queuePool ws) = ([], p)" "\<forall>q \<in> set p. q = []" by (rule pool_get_ok)
  have r: "request_ok (StreamID wr) wr" if "\<not> isControl wr" using that by (auto simp: isControl_def request_ok_def StreamID_def)
  show "zero (sched_Push wr ws) = zero ws @ (if isControl wr then [wr] else [])"
    by (simp add: sched_Push_def queue_push_def Let_def split: prod.splits)
  show "stream_queue (sched_Push wr ws) i = stream_queue ws i @ (if \<not> isControl wr \<and> StreamID wr = i then [wr] else [])"
    using pool(1) by (auto simp: sched_Push_def queue_push_def stream_queue_def Let_def split: prod.splits option.splits)
  show "sched_ok (sched_Push wr ws)"
  proof (cases "isControl wr")
    case True
    then show ?thesis using assms by (auto simp: sched_Push_def queue_push_def sched_ok_def)
  next
    case False
    then show ?thesis using assms pool r
      by (cases "sq ws (StreamID wr)") (auto simp: sched_Push_def queue_push_def sched_ok_def Let_def split: if_splits)
  qed
qed

lemma CloseStream_ok:
  "sched_ok ws \<Longrightarrow> sched_ok (CloseStream i ws)" "j \<noteq> i \<Longrightarrow> stream_queue (CloseStream i ws) j = stream_queue ws j"
  "stream_queue (CloseStream i ws) i = []" "zero (CloseStream i ws) = zero ws"
  by (auto simp: CloseStream_def sched_ok_def stream_queue_def split: option.splits if_splits)

text \<open>A stream's queue is replaced by what is left of it.\<close>

definition put_back :: "u32 \<Rightarrow> writeQueue \<Rightarrow> randomWriteScheduler \<Rightarrow> randomWriteScheduler" where
  "put_back i q ws =
     (if q = [] then ws\<lparr>sq := (sq ws)(i := None), queuePool := pool_put q (queuePool ws)\<rparr> else ws\<lparr>sq := (sq ws)(i \<mapsto> q)\<rparr>)"

lemma put_back_ok:
  assumes "sched_ok ws" "sq ws i = Some q" "\<forall>wr \<in> set q'. request_ok i wr" "queue_work q' < queue_work q"
  shows "sched_ok (put_back i q' ws)" "stream_queue (put_back i q' ws) j = (if j = i then q' else stream_queue ws j)"
    "zero (put_back i q' ws) = zero ws" "sched_work (put_back i q' ws) < sched_work ws"
proof -
  show "sched_ok (put_back i q' ws)" "zero (put_back i q' ws) = zero ws"
    using assms(1,3) by (auto simp: put_back_def sched_ok_def split: if_splits)
  show sq: "stream_queue (put_back i q' ws) j = (if j = i then q' else stream_queue ws j)" for j
    by (simp add: put_back_def stream_queue_def)
  have fin: "finite (dom (sq ws))" "i \<in> dom (sq ws)" using assms(1,2) by (auto simp: sched_ok_def)
  let ?f = "\<lambda>j. queue_work (stream_queue (put_back i q' ws) j)"
  have "dom (sq (put_back i q' ws)) \<subseteq> dom (sq ws)" using assms(2) by (auto simp: put_back_def split: if_splits)
  then have "sum ?f (dom (sq (put_back i q' ws))) \<le> sum ?f (dom (sq ws))" using fin(1) by (intro sum_mono2) auto
  also have "\<dots> = ?f i + sum ?f (dom (sq ws) - {i})" using fin by (rule sum.remove)
  also have "\<dots> = queue_work q' + (\<Sum>j \<in> dom (sq ws) - {i}. queue_work (stream_queue ws j))" by (simp add: sq)
  finally have "sum ?f (dom (sq (put_back i q' ws))) \<le> queue_work q' + (\<Sum>j \<in> dom (sq ws) - {i}. queue_work (stream_queue ws j))" .
  moreover have "(\<Sum>j \<in> dom (sq ws). queue_work (stream_queue ws j)) = queue_work q + (\<Sum>j \<in> dom (sq ws) - {i}. queue_work (stream_queue ws j))"
    using fin assms(2) by (simp add: sum.remove [of _ i] stream_queue_def)
  ultimately show "sched_work (put_back i q' ws) < sched_work ws"
    using assms(4) \<open>zero (put_back i q' ws) = zero ws\<close> by (simp add: sched_work_def)
qed

section \<open>Popping\<close>

text \<open>The result is what consuming from the queue of stream \<open>i\<close> gives.\<close>

definition takes_from :: "u32 \<Rightarrow> randomWriteScheduler \<Rightarrow> (unit, pop_result) outcome \<Rightarrow> bool" where
  "takes_from i ws res \<longleftrightarrow> (\<exists>q wr q' env'. sq ws i = Some q \<and> res = Return ((wr, True), put_back i q' ws, env') \<and>
     items wr @ queue_items q' = queue_items q \<and> request_ok i wr \<and> (\<forall>wr \<in> set q'. request_ok i wr) \<and> env_ok env' \<and> queue_work q' < queue_work q)"

lemma pop_streams_cases:
  assumes "sched_ok ws" "env_ok env"
  shows "(\<exists>i. takes_from i ws (pop_streams ids ws env)) \<or>
    pop_streams ids ws env = Return ((empty_request, False), ws, env) \<and> (\<forall>i q. i \<in> set ids \<longrightarrow> sq ws i = Some q \<longrightarrow> held_back env q)"
proof (induction ids)
  case (Cons i ids)
  show ?case
  proof (cases "sq ws i")
    case None
    then show ?thesis using Cons.IH by auto
  next
    case (Some q)
    then have q: "q \<noteq> []" "\<forall>wr \<in> set q. request_ok i wr" using assms(1) by (auto simp: sched_ok_def)
    have same: "ws\<lparr>sq := (sq ws)(i \<mapsto> q)\<rparr> = ws" using Some by (cases ws) (simp add: fun_upd_idem)
    show ?thesis
    proof (cases rule: queue_consume_cases [OF assms(2) q, case_names blocked taken])
      case blocked
      then have "pop_streams (i # ids) ws env = pop_streams ids ws env" using Some same by simp
      then show ?thesis using Cons.IH blocked(1) Some by auto
    next
      case (taken wr q' env')
      then have "pop_streams (i # ids) ws env = Return ((wr, True), put_back i q' ws, env')"
        using Some by (simp add: put_back_def queue_empty_def)
      then have "takes_from i ws (pop_streams (i # ids) ws env)" using taken Some by (auto simp: takes_from_def)
      then show ?thesis by blast
    qed
  qed
qed simp

text \<open>Every outcome of a \<open>Pop\<close> that looks at all streams.\<close>

lemma Pop_cases:
  assumes "sched_ok ws" "env_ok env" "set ids = dom (sq ws)"
  obtains (control) wr z where "zero ws = wr # z" "sched_Pop ids ws env = Return ((wr, True), ws\<lparr>zero := z\<rparr>, env)"
  | (frame) i q wr q' env' where "zero ws = []" "sq ws i = Some q" "sched_Pop ids ws env = Return ((wr, True), put_back i q' ws, env')"
      "items wr @ queue_items q' = queue_items q" "request_ok i wr" "\<forall>wr \<in> set q'. request_ok i wr" "env_ok env'" "queue_work q' < queue_work q"
  | (stuck) "zero ws = []" "sched_Pop ids ws env = Return ((empty_request, False), ws, env)" "\<forall>i q. sq ws i = Some q \<longrightarrow> held_back env q"
proof (cases "zero ws")
  case (Cons wr z)
  then show ?thesis using control by (simp add: sched_Pop_def queue_empty_def)
next
  case Nil
  then have "sched_Pop ids ws env = pop_streams ids ws env" by (simp add: sched_Pop_def queue_empty_def)
  moreover have "sq ws i = Some q \<Longrightarrow> i \<in> set ids" for i q using assms(3) by auto
  ultimately show ?thesis using pop_streams_cases [OF assms(1,2), of ids] Nil frame stuck by (fastforce simp: takes_from_def)
qed

lemma Pop_ok:
  assumes "sched_ok ws" "env_ok env" "set ids = dom (sq ws)" "sched_Pop ids ws env = Return ((wr, ok), ws', env')"
  shows "sched_ok ws'" "env_ok env'" "ok \<Longrightarrow> sched_work ws' < sched_work ws"
proof -
  have "sched_ok ws' \<and> env_ok env' \<and> (ok \<longrightarrow> sched_work ws' < sched_work ws)"
  proof (cases rule: Pop_cases [OF assms(1-3), case_names control frame stuck])
    case (control wr' z)
    then show ?thesis using assms by (auto simp: sched_ok_def sched_work_def stream_queue_def)
  next
    case (frame i q wr' q' env1)
    then show ?thesis using assms put_back_ok [OF assms(1) frame(2,6,8)] by auto
  qed (use assms in auto)
  then show "sched_ok ws'" "env_ok env'" "ok \<Longrightarrow> sched_work ws' < sched_work ws" by auto
qed

section \<open>Histories\<close>

text \<open>\<open>sched_trace ws env pushed popped closed\<close>: calls of the scheduler's methods, with any changes to the flow control windows and the
  frame size between them, led to \<open>ws\<close> and \<open>env\<close>.\<close>

inductive sched_trace :: "randomWriteScheduler \<Rightarrow> write_env \<Rightarrow> FrameWriteRequest list \<Rightarrow> FrameWriteRequest list \<Rightarrow> u32 set \<Rightarrow> bool" where
  new: "env_ok env \<Longrightarrow> sched_trace NewRandomWriteScheduler env [] [] {}"
| push: "sched_trace ws env pushed popped closed \<Longrightarrow> sched_trace (sched_Push wr ws) env (pushed @ [wr]) popped closed"
| pop: "\<lbrakk>sched_trace ws env pushed popped closed; set ids = dom (sq ws); sched_Pop ids ws env = Return ((wr, True), ws', env')\<rbrakk> \<Longrightarrow>
    sched_trace ws' env' pushed (popped @ [wr]) closed"
| close: "sched_trace ws env pushed popped closed \<Longrightarrow> sched_trace (CloseStream i ws) env pushed popped (insert i closed)"
| adjust: "\<lbrakk>sched_trace ws env pushed popped closed; env_ok env'\<rbrakk> \<Longrightarrow> sched_trace ws env' pushed popped closed"

definition on_stream :: "u32 \<Rightarrow> FrameWriteRequest \<Rightarrow> bool" where
  "on_stream i wr \<longleftrightarrow> \<not> isControl wr \<and> StreamID wr = i"

lemma request_on_stream: "request_ok i wr \<Longrightarrow> on_stream j wr \<longleftrightarrow> j = i"
  by (auto simp: request_ok_def on_stream_def isControl_def StreamID_def)

lemma request_not_control: "request_ok i wr \<Longrightarrow> \<not> isControl wr"
  by (auto simp: request_ok_def isControl_def)

text \<open>What was popped and what is queued is what was pushed.\<close>

definition history_ok :: "randomWriteScheduler \<Rightarrow> FrameWriteRequest list \<Rightarrow> FrameWriteRequest list \<Rightarrow> u32 set \<Rightarrow> bool" where
  "history_ok ws pushed popped closed \<longleftrightarrow>
     filter isControl popped @ zero ws = filter isControl pushed \<and>
     (\<forall>i. i \<notin> closed \<longrightarrow> queue_items (filter (on_stream i) popped @ stream_queue ws i) = queue_items (filter (on_stream i) pushed))"

lemma history_pop:
  assumes "sched_ok ws" "env_ok env" "set ids = dom (sq ws)" "history_ok ws pushed popped closed" "sched_Pop ids ws env = Return ((wr, True), ws', env')"
  shows "history_ok ws' pushed (popped @ [wr]) closed"
proof (cases rule: Pop_cases [OF assms(1-3), case_names control frame stuck])
  case (control wr' z)
  then have "isControl wr'" using assms(1) by (simp add: sched_ok_def)
  then show ?thesis using control assms(4,5) by (auto simp: history_ok_def on_stream_def stream_queue_def)
next
  case (frame i q wr' q' env1)
  have eq: "wr' = wr" "ws' = put_back i q' ws" using frame(3) assms(5) by auto
  note pb = put_back_ok [OF assms(1) frame(2,6,8)]
  have q: "stream_queue ws i = q" using frame(2) by (simp add: stream_queue_def)
  have nc: "\<not> isControl wr" using frame(5) eq request_not_control by blast
  have "queue_items (filter (on_stream j) (popped @ [wr]) @ stream_queue ws' j) = queue_items (filter (on_stream j) popped @ stream_queue ws j)" for j
    using frame(4) eq q pb(2) [of j] request_on_stream [OF frame(5), of j] by (cases "j = i") simp_all
  then show ?thesis using assms(4) nc eq(2) pb(3) unfolding history_ok_def by simp
next
  case stuck
  then show ?thesis using assms(5) by simp
qed

lemma sched_trace_ok: "sched_trace ws env pushed popped closed \<Longrightarrow> sched_ok ws \<and> env_ok env \<and> history_ok ws pushed popped closed"
proof (induction rule: sched_trace.induct)
  case (push ws env pushed popped closed wr)
  then show ?case using Push_ok [of ws wr] by (auto simp: history_ok_def on_stream_def)
next
  case (pop ws env pushed popped closed ids wr ws' env')
  then show ?case using Pop_ok [of ws env ids wr True ws' env'] history_pop [of ws env ids pushed popped closed wr ws' env'] by blast
next
  case (close ws env pushed popped closed i)
  then show ?case using CloseStream_ok [where ws = ws] by (auto simp: history_ok_def)
qed (auto simp: sched_ok_def history_ok_def NewRandomWriteScheduler_def stream_queue_def)

text \<open>A writer that pops until nothing can be written; \<open>ord\<close> chooses the order of the streams each time.\<close>

fun drain :: "nat \<Rightarrow> (randomWriteScheduler \<Rightarrow> u32 list) \<Rightarrow> randomWriteScheduler \<Rightarrow> write_env \<Rightarrow> FrameWriteRequest list \<Rightarrow>
    (FrameWriteRequest list \<times> randomWriteScheduler \<times> write_env) option" where
  "drain 0 ord ws env acc = None"
| "drain (Suc k) ord ws env acc =
     (case sched_Pop (ord ws) ws env of
        Return ((wr, ok), ws', env') \<Rightarrow> if ok then drain k ord ws' env' (acc @ [wr]) else Some (acc, ws', env')
      | _ \<Rightarrow> None)"

lemma drain_finishes:
  assumes "\<And>ws. sched_ok ws \<Longrightarrow> set (ord ws) = dom (sq ws)"
  shows "\<lbrakk>sched_ok ws; env_ok env; history_ok ws pushed popped closed; sched_work ws < k\<rbrakk> \<Longrightarrow>
    \<exists>out ws' env'. drain k ord ws env acc = Some (acc @ out, ws', env') \<and> history_ok ws' pushed (popped @ out) closed \<and>
      zero ws' = [] \<and> (\<forall>i q. sq ws' i = Some q \<longrightarrow> held_back env' q)"
proof (induction k arbitrary: ws env popped acc)
  case (Suc k)
  have ids: "set (ord ws) = dom (sq ws)" by (rule assms [OF Suc.prems(1)])
  obtain wr ok ws1 env1 where p: "sched_Pop (ord ws) ws env = Return ((wr, ok), ws1, env1)"
    by (rule Pop_cases [OF Suc.prems(1,2) ids]) auto
  note ok = Pop_ok [OF Suc.prems(1,2) ids p]
  show ?case
  proof (cases ok)
    case True
    then have h: "history_ok ws1 pushed (popped @ [wr]) closed" using history_pop [OF Suc.prems(1,2) ids Suc.prems(3)] p by simp
    have "sched_work ws1 < k" using ok(3) True Suc.prems(4) by simp
    from Suc.IH [OF ok(1,2) h this, of "acc @ [wr]"] show ?thesis using p True by auto
  next
    case False
    then have "ws1 = ws" "env1 = env" "zero ws = []" "\<forall>i q. sq ws i = Some q \<longrightarrow> held_back env q"
      by (rule_tac Pop_cases [OF Suc.prems(1,2) ids], use p in auto)+
    then show ?thesis using p False Suc.prems(3) by auto
  qed
qed simp

section \<open>Properties\<close>

text \<open>C13: \<open>Consume\<close> on a stream's request never panics.  It holds a frame back exactly when it has bytes and no window, limit or frame size allows
  one; otherwise the frame goes whole, or its bytes are split in two without loss, the end of the stream and the writer's channel staying with the
  second part; the bytes sent fit the limit, the frame size and both windows, and are taken from the windows of the stream and
  the connection and from no other.\<close>

theorem Consume_exact:
  assumes "env_ok env" "wr_stream wr = Some st"
  shows "\<exists>c r k env'. Consume wr n env = Return ((c, r, k), env') \<and>
    (k = 0 \<longleftrightarrow> DataSize wr > 0 \<and> sint (allowed_bytes n st env) \<le> 0) \<and> (k = 0 \<longrightarrow> env' = env) \<and> (k = 1 \<longrightarrow> c = wr) \<and>
    (k = 2 \<longrightarrow> items c @ items r = items wr \<and> 0 < DataSize c \<and> 0 < DataSize r) \<and> k \<le> 2 \<and>
    (0 < k \<and> DataSize wr > 0 \<longrightarrow> charged st (DataSize c) env env' \<and> int (DataSize c) \<le> sint n \<and> int (DataSize c) \<le> sint (maxFrameSize env) \<and>
       int (DataSize c) \<le> sint (flow_available (env_flows env) (stream_flow st)))"
proof -
  have r: "request_ok (stream_id st) wr" using assms(2) by (simp add: request_ok_def)
  have lim: "x \<le> sint n \<and> x \<le> sint (maxFrameSize env) \<and> x \<le> sint (flow_available (env_flows env) (stream_flow st))"
    if "x \<le> sint (allowed_bytes n st env)" for x
    using that allowed_le(1) [of n st env] allowed_le(2) [of n st env] allowed_le(3) [of n st env] by linarith
  show ?thesis
  proof (cases rule: Consume_cases [OF assms(1) r, of n, case_names free blocked whole split])
    case (whole st' env')
    then have "0 < sint (allowed_bytes n st env)" using assms(2) by (simp add: is_data_def)
    then show ?thesis using whole assms(2) lim [of "int (DataSize wr)"] by (simp add: is_data_def)
  next
    case (split st' c r env')
    then have "0 < DataSize c" by linarith
    then show ?thesis using split assms(2) lim [of "int (DataSize c)"] by (simp add: is_data_def)
  qed (use assms(2) in \<open>auto simp: is_data_def\<close>)
qed

definition sample_env :: write_env where
  "sample_env = \<lparr>env_flows = (\<lambda>f. if f = 0 then \<lparr>flow_n = 100, flow_conn = None\<rparr> else \<lparr>flow_n = 3, flow_conn = Some 0\<rparr>), maxFrameSize = 16384\<rparr>"

definition sample_data :: FrameWriteRequest where
  "sample_data = \<lparr>wr_write = Some (writeData 1 [1, 2, 3, 4, 5] True), wr_stream = Some \<lparr>stream_id = 1, stream_flow = 1\<rparr>, wr_done = Some 9\<rparr>"

lemma sample_env_ok: "env_ok sample_env"
  by (simp add: env_ok_def flow_wf_def sample_env_def)

theorem Consume_exact_witness:
  "\<exists>c r env'. Consume sample_data maxInt32 sample_env = Return ((c, r, 2), env') \<and> items c @ items r = items sample_data \<and> 0 < DataSize c"
proof -
  have st: "wr_stream sample_data = Some \<lparr>stream_id = 1, stream_flow = 1\<rparr>" by (simp add: sample_data_def)
  obtain c r k env' where c: "Consume sample_data maxInt32 sample_env = Return ((c, r, k), env')"
    "k = 2 \<longrightarrow> items c @ items r = items sample_data \<and> 0 < DataSize c \<and> 0 < DataSize r"
    using Consume_exact [OF sample_env_ok st, of maxInt32] by blast
  have "sint (allowed_bytes maxInt32 \<lparr>stream_id = 1, stream_flow = 1\<rparr> sample_env) = 3"
    by (simp add: allowed_bytes_def maxInt32_def flow_available_def sample_env_def)
  then have "k = 2" using c(1) by (auto simp: Consume_def sample_data_def Let_def)
  then show ?thesis using c by blast
qed

text \<open>C11: Over any sequence of calls of the random scheduler, with the windows changing in between, control frames are popped in the order they were pushed,
  and on every stream that was not closed the bytes, ends and frames popped so far, followed by those still queued, are exactly those
  pushed, in order: nothing is lost, repeated or reordered, however often DATA frames were split.\<close>

theorem scheduler_keeps_order:
  assumes "sched_trace ws env pushed popped closed" "i \<notin> closed"
  shows "filter isControl popped @ zero ws = filter isControl pushed \<and>
    queue_items (filter (on_stream i) popped @ stream_queue ws i) = queue_items (filter (on_stream i) pushed)"
  using sched_trace_ok [OF assms(1)] assms(2) by (simp add: history_ok_def)

lemma sample_trace: "sched_trace (sched_Push sample_data NewRandomWriteScheduler) sample_env [sample_data] [] {}"
  using push [OF new [OF sample_env_ok], of sample_data] by simp

theorem scheduler_keeps_order_witness:
  "\<exists>ws. sched_trace ws sample_env [sample_data] [] {} \<and> queue_items (stream_queue ws 1) = map Byte [1, 2, 3, 4, 5] @ [Mark True (Some 9)]"
proof -
  let ?ws = "sched_Push sample_data NewRandomWriteScheduler"
  have "queue_items (filter (on_stream 1) [] @ stream_queue ?ws 1) = queue_items (filter (on_stream 1) [sample_data])"
    using scheduler_keeps_order [OF sample_trace, of 1] by simp
  also have "\<dots> = map Byte [1, 2, 3, 4, 5] @ [Mark True (Some 9)]"
    by (simp add: on_stream_def isControl_def StreamID_def sample_data_def items_def)
  finally show ?thesis using sample_trace by (intro exI [of _ ?ws]) simp
qed

text \<open>C12: A writer that pops until \<open>Pop\<close> returns false finishes, whatever order the streams are looked at: within as many pops as there are queued frames and bytes
  (and one more) no control frame is left and every queue that is left starts with a DATA frame that its windows or the frame size hold back.
  In particular a stream with an open window is never starved.\<close>

theorem scheduler_drains:
  assumes "sched_trace ws env pushed popped closed" "\<forall>ws. sched_ok ws \<longrightarrow> set (ord ws) = dom (sq ws)"
  shows "\<exists>out ws' env'. drain (sched_work ws + 1) ord ws env [] = Some (out, ws', env') \<and> zero ws' = [] \<and>
    (\<forall>i q. sq ws' i = Some q \<longrightarrow> held_back env' q) \<and>
    (\<forall>i. i \<notin> closed \<longrightarrow> queue_items (filter (on_stream i) (popped @ out) @ stream_queue ws' i) = queue_items (filter (on_stream i) pushed))"
proof -
  have "\<And>ws. sched_ok ws \<Longrightarrow> set (ord ws) = dom (sq ws)" using assms(2) by blast
  from drain_finishes [OF this, of ws env pushed popped closed "sched_work ws + 1" "[]"] sched_trace_ok [OF assms(1)]
  show ?thesis by (auto simp: history_ok_def)
qed

theorem scheduler_drains_witness:
  "\<exists>ord out ws' env'. drain (sched_work (sched_Push sample_data NewRandomWriteScheduler) + 1) ord (sched_Push sample_data NewRandomWriteScheduler) sample_env [] =
     Some (out, ws', env') \<and> zero ws' = []"
proof -
  define N :: nat where "N = 2 ^ LENGTH(32)"
  define ord :: "randomWriteScheduler \<Rightarrow> u32 list" where "ord ws = filter (\<lambda>i. sq ws i \<noteq> None) (map of_nat [0..<N])" for ws
  have "i \<in> of_nat ` {0..<N}" for i :: u32
    by (rule image_eqI [of _ _ "unat i"]) (simp_all only: of_nat_unat ucast_id N_def unsigned_less atLeastLessThan_iff le0 simp_thms)
  then have "set (ord ws) = dom (sq ws)" for ws by (auto simp: ord_def)
  then have "\<forall>ws. sched_ok ws \<longrightarrow> set (ord ws) = dom (sq ws)" by blast
  from scheduler_drains [OF sample_trace this] show ?thesis by auto
qed

end
