(* ===== verification/Spec2Isabelle.thy ===== *)
theory Spec2Isabelle
  imports BPF_Print DNS_Read DNS_Builder DNS_Print H2_Meta H2_Pipe H2_Sched
begin

text \<open>
  A verification development for the Go networking libraries under \<open>src/\<close> (golang.org/x/net).  The repository is a
  collection of packages; the development treats the ones that are computation over bytes and state: the packet
  filter machine \<open>bpf\<close>, the DNS message codec \<open>dns/dnsmessage\<close>, the header compression of HTTP/2 \<open>http2/hpack\<close>, the
  lexical rules of \<open>http/httpguts\<close>, and from \<open>http2\<close> the frames, the header lists, the flow control windows, the body buffer, the pipe and the write scheduler.

  \<^bold>\<open>How Go is modelled\<close> (\<open>Prelude\<close>).  Integers of a fixed width are words and wrap.  A value of type \<open>int\<close> that is the
  length of a slice or an index into one is a natural number.  A slice of bytes is a list.  A function that returns an error or
  may panic returns an \<open>outcome\<close>: \<open>Return\<close>, \<open>Fail\<close> with the error, or \<open>Panic\<close>.  Index and slice expressions go through \<open>go_index\<close>
  and \<open>go_slice\<close>, which panic out of range.  A method that changes its receiver is a state transformer that returns the
  new receiver also when it fails.  Interfaces and values the code gets from outside (an \<open>io.Writer\<close>, what a pooled chunk
  of memory holds, the order in which a map is iterated) are arguments of the definitions.

  \<^bold>\<open>Packet filters\<close> (\<open>src/bpf\<close>).  \<open>BPF_Instr\<close> has the instruction types of \<open>instructions.go\<close>, \<open>Assemble\<close> and \<open>Disassemble\<close>; it shows
  that an instruction in canonical form survives assembling and disassembling, and that disassembling any raw
  instruction is stable; the locale \<open>assembler\<close> is this contract.  \<open>BPF_VM\<close> has the validation \<open>NewVM\<close> and the interpreter \<open>Run\<close> of \<open>vm.go\<close> and
  \<open>vm_instructions.go\<close>; it shows what \<open>NewVM\<close> accepts, that an accepted filter never panics, stays inside the program and halts, and that assembling
  does not change what a filter does.  The locale \<open>checked_machine\<close> is the contract between validation and execution, over an
  inductive step relation.  The loop of \<open>Run\<close> has the length of the program as fuel: jumps only go forward.  \<open>BPF_Print\<close> has the \<open>String\<close> methods and
  shows which jumps their output does not tell apart.

  \<^bold>\<open>DNS messages\<close> (\<open>src/dns/dnsmessage/message.go\<close>).  \<open>DNS_Wire\<close>: errors, fixed width fields, header; each field interprets \<open>codec\<close> or \<open>skip_codec\<close>.
  \<open>DNS_Name\<close>: names with compression pointers; the byte loops are related to label lists and to an inductive relation of
  what a message holds at an offset; labels that contain dots are decoded but do not survive packing.  \<open>DNS_Resource\<close>: questions, the resource bodies, EDNS(0).  \<open>DNS_Encoding\<close>: what packing
  promises to unpacking; the locale \<open>section_codec\<close> lifts it to the sections of a message.  \<open>DNS_Parser\<close>: the incremental parser as a state machine, with its invariant.  \<open>DNS_Message\<close>: \<open>Pack\<close> and \<open>Unpack\<close>
  and their round trip, for names of at most ten labels.  \<open>DNS_Read\<close>: \<open>Unpack\<close> accepts exactly what a reader of the announced numbers of records accepts, never panics
  and returns well-formed messages.  \<open>DNS_Builder\<close>: the incremental builder, its equivalence with \<open>Pack\<close>, and what a failed call leaves in the compression map.  \<open>DNS_Print\<close>: the printed
  forms.  The loops of the name decoder are total: a measure counts the ten pointers the code follows at most.

  \<^bold>\<open>Header compression\<close> (\<open>src/http2/hpack\<close>).  \<open>HPACK_Int\<close>: variable length integers.  \<open>HPACK_Huffman\<close> and \<open>HPACK_Huffman_Code\<close>: the code
  table, the decoding tree and both directions of the coder, exact for concatenations of codes.  \<open>HPACK_Table\<close>: the
  static and the dynamic table; the two indices of a table find what a search of its entries would find.  \<open>HPACK_Encode\<close> and
  \<open>HPACK_Decode\<close>: the encoder and the decoder with their limits; the decoder never panics, and writing a block in pieces is writing it at once,
  up to the one limit that depends on the pieces.  \<open>HPACK_Sync\<close>: a session of header blocks and table resizes, in which the decoder emits exactly
  the fields the encoder was given, and a case in which it does not.  The loop of \<open>Decoder.Write\<close> has the length of the buffer as fuel; every
  representation consumes at least one byte.  The callback of a decoder is a function of the fields it has received that says whether emission
  stays enabled.

  \<^bold>\<open>Frames and header lists\<close> (\<open>src/http2/frame.go\<close>, with parts of \<open>errors.go\<close> and \<open>http2.go\<close>).  \<open>H2_Frame\<close>: all frame types, their parsers, the \<open>Write\<close>
  methods and the reading of a frame with \<open>checkFrameOrder\<close>.  What the methods write is read back; on any input a reader never panics, returns
  well-formed frames only and keeps header blocks contiguous; blocks that start in \<open>PUSH_PROMISE\<close> are the exception.  \<open>HTTP_Guts\<close> (\<open>src/http/httpguts\<close>): tokens,
  field names, values and hosts over the runes of a string; splitting off a port and \<open>idna.ToASCII\<close> are parameters.  \<open>H2_Meta\<close>: \<open>readMetaFrame\<close> and \<open>ReadFrame\<close>, which join frames, decoder and the
  rules of \<open>httpguts\<close>.  It composes the layers: an encoder, a writing framer, a reading framer and a decoder deliver of each header list
  exactly the part within the limit, or refuse it exactly if a field is out of order, whatever the cuts between the frames, and stay in step in each case.  The loop over the \<open>CONTINUATION\<close> frames terminates since each takes nine bytes of the
  input at least.  An \<open>io.Reader\<close> is the list of the bytes to come, an \<open>io.Writer\<close> a function from the bytes of a call to its results.

  \<^bold>\<open>HTTP/2 streams\<close> (\<open>src/http2\<close>).  \<open>H2_Flow\<close> (\<open>flow.go\<close>): windows as signed words that wrap, in a store, since a stream's window points to its
  connection's.  \<open>H2_Buffer\<close> (\<open>databuffer.go\<close>): the chunked buffer implements a byte queue.  \<open>H2_Pipe\<close> (\<open>pipe.go\<close>): the pipe between a connection and a handler
  over any buffer that implements the locale \<open>pipe_buffer\<close>, as sequences of method calls; \<open>dataBuffer\<close> interprets the locale.  \<open>H2_Sched\<close> (\<open>writesched.go\<close>, \<open>writesched_random.go\<close>):
  the splitting of DATA frames, write queues and the random scheduler; nothing is lost or reordered within a
  stream, and repeated calls of \<open>Pop\<close> send everything flow control admits.  The loops of \<open>Read\<close> and \<open>Write\<close> have the bytes to copy as fuel, and each round copies at least one.  No result of a loop in this
  development comes from exhausted fuel: where a model has fuel, running out is \<open>Panic\<close>, and panics are excluded by a theorem.

  \<^bold>\<open>Not modelled\<close>.  Sockets, system calls and kernel memory layouts (\<open>ipv4\<close>, \<open>ipv6\<close>, \<open>icmp\<close>, \<open>route\<close>, \<open>lif\<close>, \<open>internal/socket\<close>), the goroutines and connections of the HTTP/2 server and transport
  and its priority scheduler, which compares floating point quotients, HTML, WebDAV, WebSocket, tracing, and packages that are generated tables or thin wrappers.  Within the modelled
  packages: methods that only print for debugging in the schedulers and of frames, the logging and the reuse of frames in the framer, and the waiting of the pipe on its condition variable, which is a
  result of \<open>Read\<close> here.
\<close>

end
